(* ===== verification/Prelude.thy ===== *)
theory Prelude
  imports Main "HOL-Library.Word" "HOL-Library.Monad_Syntax"
begin

text \<open>
  Shared material of the development: the machine types of the x86-64 build, the
  treatment of assertions and panics, and linked structures in a store.

  \<^item> A C function that may fail an \<^verbatim>\<open>assert\<close>, call \<^verbatim>\<open>panic\<close>, dereference \<^verbatim>\<open>NULL\<close> or
    loop forever is a function into \<open>option\<close>; \<open>None\<close> stands for every such abnormal
    outcome, so a theorem with conclusion \<open>\<exists>r. f x = Some r\<close> states that none of them
    happens.
  \<^item> An object of the C program lives at an address (a \<open>nat\<close>); a pointer is an
    \<open>addr option\<close> whose \<open>None\<close> is \<^verbatim>\<open>NULL\<close>.
  \<^item> \<open>lseg\<close> relates the \<^verbatim>\<open>next\<close> fields of a store to the list of addresses they link,
    \<open>dseg\<close> does the same for doubly linked lists.
\<close>

section \<open>Machine types\<close>

type_synonym u8 = "8 word"
type_synonym u16 = "16 word"
type_synonym u32 = "32 word"
type_synonym u64 = "64 word"
type_synonym addr = nat
type_synonym ptr = "addr option"

lemma unat_lt_u16: "unat (x :: u16) < 2 ^ 16"
  using unsigned_less [of x] by simp

lemma unat_lt_u32: "unat (x :: u32) < 2 ^ 32"
  using unsigned_less [of x] by simp

lemma unat_lt_u64: "unat (x :: u64) < 2 ^ 64"
  using unsigned_less [of x] by simp

text \<open>Widening conversions keep the value.\<close>

lemma unat_widen [simp]:
  "unat (ucast (x :: u32) :: u64) = unat x"
  "unat (ucast (y :: u16) :: u32) = unat y"
  using unat_lt_u32 [of x] unat_lt_u16 [of y]
  by (simp_all add: unsigned_ucast_eq take_bit_nat_eq_self_iff)

section \<open>Assertions\<close>

definition assert_that :: "bool \<Rightarrow> unit option" where
  "assert_that b = (if b then Some () else None)"

lemma assert_that_True [simp]: "assert_that True = Some ()"
  by (simp add: assert_that_def)

lemma assert_that_False [simp]: "assert_that False = None"
  by (simp add: assert_that_def)

lemma assert_that_eq_Some [simp]: "assert_that b = Some u \<longleftrightarrow> b"
  by (cases u) (simp add: assert_that_def)

lemma bind_assert_that: "Option.bind (assert_that b) f = (if b then f () else None)"
  by (simp add: assert_that_def)

lemma bind_assert_eq_Some [simp]:
  "Option.bind (assert_that b) f = Some r \<longleftrightarrow> b \<and> f () = Some r"
  by (simp add: assert_that_def)

section \<open>Singly linked segments\<close>

primrec lseg :: "('a \<Rightarrow> 'a option) \<Rightarrow> 'a option \<Rightarrow> 'a list \<Rightarrow> 'a option \<Rightarrow> bool" where
  "lseg nx p [] q \<longleftrightarrow> p = q"
| "lseg nx p (x # xs) q \<longleftrightarrow> p = Some x \<and> lseg nx (nx x) xs q"

lemma lseg_None [simp]: "lseg nx None xs q \<longleftrightarrow> xs = [] \<and> q = None"
  by (cases xs) auto

lemma lseg_append [simp]:
  "lseg nx p (xs @ ys) q \<longleftrightarrow> (\<exists>m. lseg nx p xs m \<and> lseg nx m ys q)"
  by (induction xs arbitrary: p) auto

lemma lseg_cong:
  "(\<And>x. x \<in> set xs \<Longrightarrow> nx x = nx' x) \<Longrightarrow> lseg nx p xs q = lseg nx' p xs q"
  by (induction xs arbitrary: p) auto

lemma lseg_upd [simp]: "a \<notin> set xs \<Longrightarrow> lseg (nx(a := v)) p xs q = lseg nx p xs q"
  by (rule lseg_cong) auto

lemma lseg_unique: "lseg nx p xs None \<Longrightarrow> lseg nx p ys None \<Longrightarrow> xs = ys"
proof (induction xs arbitrary: p ys)
  case Nil
  then show ?case by simp
next
  case (Cons x xs)
  then show ?case by (cases ys) auto
qed

lemma lseg_notin_tail: "lseg nx (nx x) xs None \<Longrightarrow> x \<notin> set xs"
proof
  assume l: "lseg nx (nx x) xs None" and "x \<in> set xs"
  then obtain us vs where xs: "xs = us @ x # vs" by (meson split_list)
  with l have "lseg nx (nx x) vs None" by auto
  from lseg_unique [OF l this] xs show False by simp
qed

lemma lseg_distinct: "lseg nx p xs None \<Longrightarrow> distinct xs"
  by (induction xs arbitrary: p) (auto dest: lseg_notin_tail)

lemma lseg_next_None:
  "lseg nx p xs None \<Longrightarrow> x \<in> set xs \<Longrightarrow> nx x = None \<longleftrightarrow> x = last xs"
proof (induction xs arbitrary: p)
  case Nil
  then show ?case by simp
next
  case (Cons y ys)
  from Cons.prems have y: "y \<notin> set ys" by (auto dest: lseg_notin_tail)
  show ?case
  proof (cases "x = y")
    case True
    with Cons.prems y show ?thesis by (cases ys) auto
  next
    case False
    with Cons.prems have "x \<in> set ys" "lseg nx (nx y) ys None" by auto
    with Cons.IH False show ?thesis by auto
  qed
qed

section \<open>Doubly linked segments\<close>

text \<open>The pointer that leads out of a list read so far: its last element, or \<open>b\<close>.\<close>

fun last_or :: "'a option \<Rightarrow> 'a list \<Rightarrow> 'a option" where
  "last_or b [] = b"
| "last_or b (x # xs) = last_or (Some x) xs"

lemma last_or_append [simp]: "last_or b (xs @ ys) = last_or (last_or b xs) ys"
  by (induction xs arbitrary: b) auto

lemma last_or_snoc: "last_or b (xs @ [x]) = Some x"
  by simp

lemma last_or_nonempty: "xs \<noteq> [] \<Longrightarrow> last_or b xs = Some (last xs)"
  by (induction xs arbitrary: b) auto

lemma last_or_in: "last_or b xs = Some y \<Longrightarrow> b = Some y \<or> y \<in> set xs"
  by (induction xs arbitrary: b) auto

text \<open>A forward segment with correct back links, up to the pointer \<open>q\<close>.\<close>

primrec dseg ::
  "('a \<Rightarrow> 'a option) \<Rightarrow> ('a \<Rightarrow> 'a option) \<Rightarrow> 'a option \<Rightarrow> 'a option \<Rightarrow> 'a list \<Rightarrow> 'a option \<Rightarrow> bool" where
  "dseg nx pv b p [] q \<longleftrightarrow> p = q"
| "dseg nx pv b p (x # xs) q \<longleftrightarrow> p = Some x \<and> pv x = b \<and> dseg nx pv (Some x) (nx x) xs q"

lemma dseg_append [simp]:
  "dseg nx pv b p (xs @ ys) q \<longleftrightarrow>
     (\<exists>m. dseg nx pv b p xs m \<and> dseg nx pv (last_or b xs) m ys q)"
  by (induction xs arbitrary: b p) auto

lemma dseg_lseg: "dseg nx pv b p xs q \<Longrightarrow> lseg nx p xs q"
  by (induction xs arbitrary: b p) auto

lemma dseg_cong:
  "(\<And>x. x \<in> set xs \<Longrightarrow> nx x = nx' x) \<Longrightarrow> (\<And>x. x \<in> set xs \<Longrightarrow> pv x = pv' x) \<Longrightarrow>
   dseg nx pv b p xs q = dseg nx' pv' b p xs q"
  by (induction xs arbitrary: b p) auto

lemma dseg_upd_next [simp]:
  "a \<notin> set xs \<Longrightarrow> dseg (nx(a := v)) pv b p xs q = dseg nx pv b p xs q"
  by (rule dseg_cong) auto

lemma dseg_upd_prev [simp]:
  "a \<notin> set xs \<Longrightarrow> dseg nx (pv(a := v)) b p xs q = dseg nx pv b p xs q"
  by (rule dseg_cong) auto

lemma dseg_None [simp]: "dseg nx pv b None xs q \<longleftrightarrow> xs = [] \<and> q = None"
  by (cases xs) auto

lemma dseg_distinct: "dseg nx pv b p xs None \<Longrightarrow> distinct xs"
  by (rule lseg_distinct [OF dseg_lseg])

text \<open>The address a pointer to the start of a list holds.\<close>

definition first_of :: "'a list \<Rightarrow> 'a option" where
  "first_of xs = (case xs of [] \<Rightarrow> None | x # _ \<Rightarrow> Some x)"

lemma first_of_simps [simp]: "first_of [] = None" "first_of (x # xs) = Some x"
  by (simp_all add: first_of_def)

lemma lseg_start: "lseg nx p xs None \<Longrightarrow> p = first_of xs"
  by (cases xs) auto

lemma dseg_start: "dseg nx pv b p xs None \<Longrightarrow> p = first_of xs"
  by (cases xs) auto

text \<open>Redirecting one pointer, when there is an object to redirect.\<close>

definition redirect :: "'a option \<Rightarrow> 'b \<Rightarrow> ('a \<Rightarrow> 'b) \<Rightarrow> ('a \<Rightarrow> 'b)" where
  "redirect p v f = (case p of None \<Rightarrow> f | Some a \<Rightarrow> f(a := v))"

lemma redirect_simps [simp]:
  "redirect None v f = f"
  "redirect (Some a) v f = f(a := v)"
  by (simp_all add: redirect_def)

text \<open>Unlinking an element of a doubly linked list, and linking a new one in.\<close>

lemma dseg_neighbours:
  assumes "dseg nx pv None h (us @ d # vs) None"
  shows "pv d = last_or None us" "nx d = first_of vs"
    "pv d = None \<Longrightarrow> h = Some d" "pv d = Some p \<Longrightarrow> nx p = Some d" "pv d = Some p \<Longrightarrow> p \<noteq> d"
    "nx d = Some n \<Longrightarrow> pv n = Some d" "nx d = Some n \<Longrightarrow> n \<noteq> d"
  using assms dseg_distinct [OF assms]
  by (cases us rule: rev_cases; cases vs; auto)+

lemma dseg_unlink:
  assumes "dseg nx pv None h (us @ d # vs) None"
  shows "dseg ((redirect (pv d) (nx d) nx)(d := None)) ((redirect (nx d) (pv d) pv)(d := None))
           None (if pv d = None then nx d else h) (us @ vs) None"
  using assms dseg_distinct [OF assms]
  by (cases us rule: rev_cases; cases vs) auto

lemma dseg_link:
  assumes "dseg nx pv None h (us @ vs) None" "d \<notin> set us" "d \<notin> set vs"
    "p = last_or None us" "n = first_of vs"
  shows "dseg (redirect p (Some d) (nx(d := n))) (redirect n (Some d) (pv(d := p)))
           None (if p = None then Some d else h) (us @ d # vs) None"
  using assms dseg_distinct [OF assms(1)]
  by (cases us rule: rev_cases; cases vs) auto

section \<open>Rings\<close>

text \<open>
  \<open>cyc nx pv xs\<close>: the forward links lead around \<open>xs\<close> and back to its first element, and
  the backward links reverse them.
\<close>

definition cyc :: "('a \<Rightarrow> 'a option) \<Rightarrow> ('a \<Rightarrow> 'a option) \<Rightarrow> 'a list \<Rightarrow> bool" where
  "cyc nx pv xs \<longleftrightarrow> dseg nx pv (last_or None xs) (first_of xs) xs (first_of xs)"

lemma cyc_Nil [simp]: "cyc nx pv []"
  by (simp add: cyc_def)

lemma last_or_Cons_indep: "xs \<noteq> [] \<Longrightarrow> last_or b xs = last_or c xs"
  by (cases xs) auto

lemma first_of_append [simp]: "first_of (xs @ ys) = (if xs = [] then first_of ys else first_of xs)"
  by (cases xs) auto

lemma dseg_first: "vs \<noteq> [] \<Longrightarrow> dseg nx pv b m vs q \<Longrightarrow> m = first_of vs"
  by (cases vs) auto

lemma cyc_append_iff:
  assumes "us \<noteq> []" "vs \<noteq> []"
  shows "cyc nx pv (us @ vs) \<longleftrightarrow>
     dseg nx pv (last_or None vs) (first_of us) us (first_of vs) \<and>
     dseg nx pv (last_or None us) (first_of vs) vs (first_of us)"
  using assms
  by (auto simp: cyc_def last_or_Cons_indep [of vs "last_or None us" None]
      last_or_Cons_indep [of us "last_or None vs" None] dest: dseg_first)

lemma cyc_append_commute: "cyc nx pv (us @ vs) \<longleftrightarrow> cyc nx pv (vs @ us)"
proof (cases "us = [] \<or> vs = []")
  case True
  then show ?thesis by auto
next
  case False
  then show ?thesis by (auto simp: cyc_append_iff)
qed

lemma cyc_hd_neighbours:
  assumes "cyc nx pv (d # vs)"
  shows "nx d = first_of (vs @ [d])" "pv d = last_or (Some d) vs"
  using assms by (cases vs; auto simp: cyc_def)+

lemma cyc_hd_neighbours_in:
  assumes "cyc nx pv (d # vs)" "vs \<noteq> []"
  shows "nx d = Some n \<Longrightarrow> n \<in> set vs" "pv d = Some p \<Longrightarrow> p \<in> set vs"
proof -
  show "n \<in> set vs" if "nx d = Some n"
    using that assms cyc_hd_neighbours(1) [OF assms(1)] by (cases vs) auto
  show "p \<in> set vs" if "pv d = Some p"
    using that assms(2) cyc_hd_neighbours(2) [OF assms(1)]
    by (auto simp: last_or_nonempty)
qed

lemma cyc_unlink_hd:
  assumes "cyc nx pv (d # vs)" "distinct (d # vs)" "pv d = Some p" "nx d = Some n" "vs \<noteq> []"
  shows "cyc (nx(p := nx d, d := None)) (pv(n := pv d, d := None)) vs"
proof -
  from assms(5) obtain y ys where vs: "vs = y # ys" by (cases vs) auto
  show ?thesis
    using assms unfolding vs
    by (cases ys rule: rev_cases) (auto simp: cyc_def)
qed

lemma cyc_cong:
  "(\<And>x. x \<in> set xs \<Longrightarrow> nx x = nx' x) \<Longrightarrow> (\<And>x. x \<in> set xs \<Longrightarrow> pv x = pv' x) \<Longrightarrow>
   cyc nx pv xs = cyc nx' pv' xs"
  unfolding cyc_def by (rule dseg_cong)

text \<open>Linking a new element in behind the first.\<close>

lemma cyc_link_snd:
  assumes "cyc nx pv (c # ys)" "distinct (c # ys)" "d \<noteq> c" "d \<notin> set ys" "nx c = Some n"
  shows "cyc (nx(d := nx c, c := Some d)) (pv(d := Some c, n := Some d)) (c # d # ys)"
  using assms by (cases ys) (auto simp: cyc_def)

section \<open>Sorted lists cut at a threshold\<close>

lemma sorted_takeWhile_le:
  fixes f :: "'a \<Rightarrow> 'b::linorder"
  shows "sorted (map f xs) \<Longrightarrow> takeWhile (\<lambda>a. f a \<le> t) xs = filter (\<lambda>a. f a \<le> t) xs"
proof (induction xs)
  case (Cons x xs)
  then show ?case
    by (cases "f x \<le> t") (auto simp: filter_empty_conv eq_commute [of "[]"] dest: order_trans)
qed simp

lemma sorted_dropWhile_le:
  fixes f :: "'a \<Rightarrow> 'b::linorder"
  shows "sorted (map f xs) \<Longrightarrow> dropWhile (\<lambda>a. f a \<le> t) xs = filter (\<lambda>a. t < f a) xs"
proof (induction xs)
  case (Cons x xs)
  show ?case
  proof (cases "f x \<le> t")
    case False
    with Cons.prems have "\<forall>a \<in> set xs. t < f a" by (auto simp: not_le dest: less_le_trans)
    with False show ?thesis by (simp add: not_le)
  qed (use Cons in \<open>simp add: not_less\<close>)
qed simp

lemma sorted_map_filter: "sorted (map f xs) \<Longrightarrow> sorted (map f (filter P xs))"
  by (induction xs) auto

end
