(* ===== verification/Kernel_State.thy ===== *)
theory Kernel_State
  imports Prelude
begin

text \<open>
  The state the CPU driver's scheduling code works on: dispatcher control blocks
  (\<^verbatim>\<open>struct dcb\<close>, kernel/include/dispatch.h), kernel control blocks (\<^verbatim>\<open>struct kcb\<close>,
  kernel/include/kcb.h) and the globals of kernel/schedule_rbed.c, kernel/timer.c and
  kernel/dispatch.c.  Both kinds of blocks live in a store indexed by address.  The fields
  that no function of the scheduling code reads or writes are left out.
\<close>

section \<open>Dispatcher and kernel control blocks\<close>

datatype task_type =
  TASK_TYPE_BEST_EFFORT | TASK_TYPE_SOFT_REALTIME | TASK_TYPE_HARD_REALTIME

record dcb =
  wakeup_time :: u64
  wakeup_prev :: ptr
  wakeup_next :: ptr
  dcb_next :: ptr
  dcb_prev :: ptr
  release_time :: u64
  etime :: u64
  last_dispatch :: u64
  wcet :: u64
  period :: u64
  dcb_deadline :: u64
  weight :: u16
  dcb_type :: task_type

datatype sched_state = SCHED_RR | SCHED_RBED

record kcb =
  is_valid :: bool
  kcb_next :: ptr
  kcb_prev :: ptr
  kcb_mdb_root :: ptr
  sched :: sched_state
  ring_current :: ptr
  queue_head :: ptr
  queue_tail :: ptr
  u_hrt :: u32
  u_srt :: u32
  w_be :: u32
  n_be :: u32
  wakeup_queue_head :: ptr
  kernel_off :: u64

text \<open>
  \<open>g_queue_tail\<close> is the global \<^verbatim>\<open>queue_tail\<close> of kernel/schedule_rbed.c, kept beside the
  field of the same name in the current kcb.  \<open>config_oneshot_timer\<close> is the build option
  \<^verbatim>\<open>CONFIG_ONESHOT_TIMER\<close>.  \<open>timer_armed\<close> records the calls of the architecture's
  \<^verbatim>\<open>arch_set_timer\<close>, latest first.  \<open>my_kcb\<close> and \<open>g_mdb_root\<close> are the globals
  of the same names of lib/mdb/mdb_tree.c, which follow the current kcb.
\<close>

record kernel =
  dcbs :: "addr \<Rightarrow> dcb"
  kcbs :: "addr \<Rightarrow> kcb"
  kcb_current :: addr
  g_queue_tail :: ptr
  lastdisp :: ptr
  dcb_current :: ptr
  kernel_now :: u64
  kernel_timeslice :: u32
  config_oneshot_timer :: bool
  next_sched_timer :: u64
  next_wakeup_timer :: u64
  last_timer :: u64
  timer_armed :: "u64 list"
  my_kcb :: ptr
  g_mdb_root :: ptr

text \<open>Zero-initialized objects, as the kernel creates them.\<close>

definition dcb0 :: dcb where
  "dcb0 = \<lparr>wakeup_time = 0, wakeup_prev = None, wakeup_next = None, dcb_next = None, dcb_prev = None,
     release_time = 0, etime = 0, last_dispatch = 0, wcet = 0, period = 0, dcb_deadline = 0,
     weight = 0, dcb_type = TASK_TYPE_BEST_EFFORT\<rparr>"

definition kcb0 :: kcb where
  "kcb0 = \<lparr>is_valid = False, kcb_next = None, kcb_prev = None, kcb_mdb_root = None,
     sched = SCHED_RR, ring_current = None, queue_head = None, queue_tail = None,
     u_hrt = 0, u_srt = 0, w_be = 0, n_be = 0, wakeup_queue_head = None, kernel_off = 0\<rparr>"

text \<open>The kernel at boot, with the kcb at address 0; no timer has been requested.\<close>

definition kernel0 :: kernel where
  "kernel0 = \<lparr>dcbs = (\<lambda>_. dcb0), kcbs = (\<lambda>_. kcb0), kcb_current = 0, g_queue_tail = None,
     lastdisp = None, dcb_current = None, kernel_now = 0, kernel_timeslice = 80,
     config_oneshot_timer = False, next_sched_timer = - 1, next_wakeup_timer = - 1,
     last_timer = 0, timer_armed = [], my_kcb = Some 0, g_mdb_root = None\<rparr>"

section \<open>Access and update\<close>

abbreviation cur :: "kernel \<Rightarrow> kcb" where
  "cur s \<equiv> kcbs s (kcb_current s)"

definition upd_dcb :: "addr \<Rightarrow> (dcb \<Rightarrow> dcb) \<Rightarrow> kernel \<Rightarrow> kernel" where
  "upd_dcb d f s = s\<lparr>dcbs := (dcbs s)(d := f (dcbs s d))\<rparr>"

definition upd_kcb :: "addr \<Rightarrow> (kcb \<Rightarrow> kcb) \<Rightarrow> kernel \<Rightarrow> kernel" where
  "upd_kcb k f s = s\<lparr>kcbs := (kcbs s)(k := f (kcbs s k))\<rparr>"

definition upd_cur :: "(kcb \<Rightarrow> kcb) \<Rightarrow> kernel \<Rightarrow> kernel" where
  "upd_cur f s = upd_kcb (kcb_current s) f s"

lemma upd_dcb_sel [simp]:
  "dcbs (upd_dcb d f s) = (dcbs s)(d := f (dcbs s d))"
  "kcbs (upd_dcb d f s) = kcbs s"
  "kcb_current (upd_dcb d f s) = kcb_current s"
  "g_queue_tail (upd_dcb d f s) = g_queue_tail s"
  "lastdisp (upd_dcb d f s) = lastdisp s"
  "dcb_current (upd_dcb d f s) = dcb_current s"
  "kernel_now (upd_dcb d f s) = kernel_now s"
  "kernel_timeslice (upd_dcb d f s) = kernel_timeslice s"
  "config_oneshot_timer (upd_dcb d f s) = config_oneshot_timer s"
  "next_sched_timer (upd_dcb d f s) = next_sched_timer s"
  "next_wakeup_timer (upd_dcb d f s) = next_wakeup_timer s"
  "last_timer (upd_dcb d f s) = last_timer s"
  "timer_armed (upd_dcb d f s) = timer_armed s"
  "my_kcb (upd_dcb d f s) = my_kcb s"
  "g_mdb_root (upd_dcb d f s) = g_mdb_root s"
  by (simp_all add: upd_dcb_def)

lemma upd_kcb_sel [simp]:
  "dcbs (upd_kcb k g s) = dcbs s"
  "kcbs (upd_kcb k g s) = (kcbs s)(k := g (kcbs s k))"
  "kcb_current (upd_kcb k g s) = kcb_current s"
  "g_queue_tail (upd_kcb k g s) = g_queue_tail s"
  "lastdisp (upd_kcb k g s) = lastdisp s"
  "dcb_current (upd_kcb k g s) = dcb_current s"
  "kernel_now (upd_kcb k g s) = kernel_now s"
  "kernel_timeslice (upd_kcb k g s) = kernel_timeslice s"
  "config_oneshot_timer (upd_kcb k g s) = config_oneshot_timer s"
  "next_sched_timer (upd_kcb k g s) = next_sched_timer s"
  "next_wakeup_timer (upd_kcb k g s) = next_wakeup_timer s"
  "last_timer (upd_kcb k g s) = last_timer s"
  "timer_armed (upd_kcb k g s) = timer_armed s"
  "my_kcb (upd_kcb k g s) = my_kcb s"
  "g_mdb_root (upd_kcb k g s) = g_mdb_root s"
  by (simp_all add: upd_kcb_def)

lemma upd_cur_sel [simp]:
  "dcbs (upd_cur g s) = dcbs s"
  "kcbs (upd_cur g s) = (kcbs s)(kcb_current s := g (cur s))"
  "kcb_current (upd_cur g s) = kcb_current s"
  "g_queue_tail (upd_cur g s) = g_queue_tail s"
  "lastdisp (upd_cur g s) = lastdisp s"
  "dcb_current (upd_cur g s) = dcb_current s"
  "kernel_now (upd_cur g s) = kernel_now s"
  "kernel_timeslice (upd_cur g s) = kernel_timeslice s"
  "config_oneshot_timer (upd_cur g s) = config_oneshot_timer s"
  "next_sched_timer (upd_cur g s) = next_sched_timer s"
  "next_wakeup_timer (upd_cur g s) = next_wakeup_timer s"
  "last_timer (upd_cur g s) = last_timer s"
  "timer_armed (upd_cur g s) = timer_armed s"
  "my_kcb (upd_cur g s) = my_kcb s"
  "g_mdb_root (upd_cur g s) = g_mdb_root s"
  by (simp_all add: upd_cur_def)

section \<open>Ownership of fields\<close>

text \<open>
  The wakeup code and the schedulers share dcbs and kcbs but own different fields of them.
  \<open>wtime\<close>, \<open>wnext\<close>, \<open>wprev\<close> and \<open>whead\<close> are the part the wakeup code owns;
  \<open>erase_wakeup\<close> blanks that part, so two states with the same erasure agree on
  everything else.
\<close>

definition wtime :: "kernel \<Rightarrow> addr \<Rightarrow> u64" where
  "wtime s d = wakeup_time (dcbs s d)"

definition wnext :: "kernel \<Rightarrow> addr \<Rightarrow> ptr" where
  "wnext s d = wakeup_next (dcbs s d)"

definition wprev :: "kernel \<Rightarrow> addr \<Rightarrow> ptr" where
  "wprev s d = wakeup_prev (dcbs s d)"

definition whead :: "kernel \<Rightarrow> ptr" where
  "whead s = wakeup_queue_head (cur s)"

lemma whead_upd_dcb [simp]: "whead (upd_dcb d f s) = whead s"
  by (simp add: whead_def)

text \<open>An update that keeps a field keeps the whole map of that field.\<close>

lemma wakeup_sel_upd_dcb_frame [simp]:
  "(\<And>x. wakeup_time (f x) = wakeup_time x) \<Longrightarrow> wtime (upd_dcb d f s) = wtime s"
  "(\<And>x. wakeup_next (f x) = wakeup_next x) \<Longrightarrow> wnext (upd_dcb d f s) = wnext s"
  "(\<And>x. wakeup_prev (f x) = wakeup_prev x) \<Longrightarrow> wprev (upd_dcb d f s) = wprev s"
  by (auto simp: wtime_def wnext_def wprev_def)

lemma wakeup_sel_upd_dcb [simp]:
  "wakeup_time (f (dcbs s d)) = t \<Longrightarrow> wtime (upd_dcb d f s) = (wtime s)(d := t)"
  "wakeup_next (f (dcbs s d)) = p \<Longrightarrow> wnext (upd_dcb d f s) = (wnext s)(d := p)"
  "wakeup_prev (f (dcbs s d)) = p \<Longrightarrow> wprev (upd_dcb d f s) = (wprev s)(d := p)"
  by (auto simp: wtime_def wnext_def wprev_def)

lemma wakeup_sel_upd_cur [simp]:
  "wtime (upd_cur g s) = wtime s"
  "wnext (upd_cur g s) = wnext s"
  "wprev (upd_cur g s) = wprev s"
  "whead (upd_cur g s) = wakeup_queue_head (g (cur s))"
  by (auto simp: wtime_def wnext_def wprev_def whead_def)

text \<open>The links of the schedule, owned by the schedulers.\<close>

definition snext :: "kernel \<Rightarrow> addr \<Rightarrow> ptr" where
  "snext s d = dcb_next (dcbs s d)"

definition sprev :: "kernel \<Rightarrow> addr \<Rightarrow> ptr" where
  "sprev s d = dcb_prev (dcbs s d)"

lemma sched_sel_upd_dcb_frame [simp]:
  "(\<And>x. dcb_next (f x) = dcb_next x) \<Longrightarrow> snext (upd_dcb d f s) = snext s"
  "(\<And>x. dcb_prev (f x) = dcb_prev x) \<Longrightarrow> sprev (upd_dcb d f s) = sprev s"
  by (auto simp: snext_def sprev_def)

lemma sched_sel_upd_dcb [simp]:
  "dcb_next (f (dcbs s d)) = p \<Longrightarrow> snext (upd_dcb d f s) = (snext s)(d := p)"
  "dcb_prev (f (dcbs s d)) = p \<Longrightarrow> sprev (upd_dcb d f s) = (sprev s)(d := p)"
  by (auto simp: snext_def sprev_def)

lemma sched_sel_upd_cur [simp]:
  "snext (upd_cur g s) = snext s"
  "sprev (upd_cur g s) = sprev s"
  by (auto simp: snext_def sprev_def)

definition erase_wakeup :: "kernel \<Rightarrow> kernel" where
  "erase_wakeup s = s\<lparr>
     dcbs := (\<lambda>d. (dcbs s d)\<lparr>wakeup_time := 0, wakeup_prev := None, wakeup_next := None\<rparr>),
     kcbs := (\<lambda>k. (kcbs s k)\<lparr>wakeup_queue_head := None\<rparr>),
     next_wakeup_timer := 0, last_timer := 0, timer_armed := []\<rparr>"

lemma erase_wakeup_upd_dcb [simp]:
  assumes "\<And>x. (f x)\<lparr>wakeup_time := 0, wakeup_prev := None, wakeup_next := None\<rparr> =
                x\<lparr>wakeup_time := 0, wakeup_prev := None, wakeup_next := None\<rparr>"
  shows "erase_wakeup (upd_dcb d f s) = erase_wakeup s"
  using assms by (auto simp: erase_wakeup_def upd_dcb_def fun_eq_iff)

lemma erase_wakeup_upd_cur [simp]:
  assumes "\<And>x. (g x)\<lparr>wakeup_queue_head := None\<rparr> = x\<lparr>wakeup_queue_head := None\<rparr>"
  shows "erase_wakeup (upd_cur g s) = erase_wakeup s"
  using assms by (auto simp: erase_wakeup_def upd_cur_def upd_kcb_def fun_eq_iff)

lemma erase_wakeup_eqD:
  assumes "erase_wakeup s = erase_wakeup t"
  shows "snext s = snext t" "sprev s = sprev t" "kcb_current s = kcb_current t"
    "ring_current (kcbs s k) = ring_current (kcbs t k)"
    "queue_head (kcbs s k) = queue_head (kcbs t k)"
    "queue_tail (kcbs s k) = queue_tail (kcbs t k)"
    "g_queue_tail s = g_queue_tail t" "kernel_now s = kernel_now t"
proof -
  from assms have d: "dcbs (erase_wakeup s) = dcbs (erase_wakeup t)"
    and k: "kcbs (erase_wakeup s) = kcbs (erase_wakeup t)"
    and o: "kcb_current (erase_wakeup s) = kcb_current (erase_wakeup t)"
      "g_queue_tail (erase_wakeup s) = g_queue_tail (erase_wakeup t)"
      "kernel_now (erase_wakeup s) = kernel_now (erase_wakeup t)" by simp_all
  from d have "dcb_next (dcbs (erase_wakeup s) a) = dcb_next (dcbs (erase_wakeup t) a)"
    "dcb_prev (dcbs (erase_wakeup s) a) = dcb_prev (dcbs (erase_wakeup t) a)" for a by simp_all
  then show "snext s = snext t" "sprev s = sprev t"
    by (auto simp: erase_wakeup_def snext_def sprev_def)
  from k have "ring_current (kcbs (erase_wakeup s) k) = ring_current (kcbs (erase_wakeup t) k)"
    "queue_head (kcbs (erase_wakeup s) k) = queue_head (kcbs (erase_wakeup t) k)"
    "queue_tail (kcbs (erase_wakeup s) k) = queue_tail (kcbs (erase_wakeup t) k)" by simp_all
  then show "ring_current (kcbs s k) = ring_current (kcbs t k)"
    "queue_head (kcbs s k) = queue_head (kcbs t k)"
    "queue_tail (kcbs s k) = queue_tail (kcbs t k)"
    by (simp_all add: erase_wakeup_def)
  from o show "kcb_current s = kcb_current t" "g_queue_tail s = g_queue_tail t"
    "kernel_now s = kernel_now t" by (simp_all add: erase_wakeup_def)
qed

end
