(* ===== verification/Timer.thy ===== *)
theory Timer
  imports Kernel_State
begin

text \<open>
  The one-shot timer multiplexer of kernel/timer.c: the scheduler and the wakeup queue each
  post the next time they want an interrupt, and the earlier of the two is programmed.
  \<open>arch_set_timer\<close> is architecture code; its calls are recorded in \<open>timer_armed\<close>.
\<close>

definition TIMER_INF :: u64 where
  "TIMER_INF = - 1"

definition update_timer :: "kernel \<Rightarrow> kernel option" where
  "update_timer s =
     (let timer = (if next_sched_timer s < next_wakeup_timer s
                   then next_sched_timer s else next_wakeup_timer s)
      in do {
        _ \<leftarrow> assert_that (timer \<noteq> 0);
        Some (if last_timer s \<noteq> timer
              then s\<lparr>last_timer := timer, timer_armed := timer # timer_armed s\<rparr>
              else s)
      })"

definition update_wakeup_timer :: "u64 \<Rightarrow> kernel \<Rightarrow> kernel option" where
  "update_wakeup_timer t s = update_timer (s\<lparr>next_wakeup_timer := t\<rparr>)"

definition update_sched_timer :: "u64 \<Rightarrow> kernel \<Rightarrow> kernel option" where
  "update_sched_timer t s = update_timer (s\<lparr>next_sched_timer := t\<rparr>)"

section \<open>What the timer code promises\<close>

text \<open>
  The hardware timer is programmed with the earlier request: \<open>last_timer\<close> is the value of
  the latest \<^verbatim>\<open>arch_set_timer\<close> call.
\<close>

definition timer_ok :: "kernel \<Rightarrow> bool" where
  "timer_ok s \<longleftrightarrow>
     last_timer s = min (next_sched_timer s) (next_wakeup_timer s) \<and>
     timer_armed s \<noteq> [] \<and> hd (timer_armed s) = last_timer s"

text \<open>Before the first request nothing has been programmed and \<open>last_timer\<close> is 0.\<close>

definition timer_init :: "kernel \<Rightarrow> bool" where
  "timer_init s \<longleftrightarrow>
     next_sched_timer s = TIMER_INF \<and> next_wakeup_timer s = TIMER_INF \<and>
     last_timer s = 0 \<and> timer_armed s = []"

definition timer_inv :: "kernel \<Rightarrow> bool" where
  "timer_inv s \<longleftrightarrow>
     next_sched_timer s \<noteq> 0 \<and> next_wakeup_timer s \<noteq> 0 \<and>
     (timer_armed s = [] \<longrightarrow> last_timer s = 0) \<and>
     (timer_armed s \<noteq> [] \<longrightarrow> hd (timer_armed s) = last_timer s)"

lemma timer_inv_init: "timer_init s \<Longrightarrow> timer_inv s"
  by (simp add: timer_init_def timer_inv_def TIMER_INF_def)

lemma update_timer_total:
  assumes "timer_inv s"
  shows "\<exists>s'. update_timer s = Some s'"
  using assms by (auto simp: update_timer_def timer_inv_def Let_def assert_that_def)

lemma update_timer_frame:
  assumes "update_timer s = Some s'"
  shows "dcbs s' = dcbs s" "kcbs s' = kcbs s" "kcb_current s' = kcb_current s"
    "g_queue_tail s' = g_queue_tail s" "lastdisp s' = lastdisp s"
    "dcb_current s' = dcb_current s" "kernel_now s' = kernel_now s"
    "kernel_timeslice s' = kernel_timeslice s"
    "config_oneshot_timer s' = config_oneshot_timer s"
    "next_sched_timer s' = next_sched_timer s"
    "next_wakeup_timer s' = next_wakeup_timer s"
  using assms by (auto simp: update_timer_def Let_def split: if_splits)

lemma update_timer_ok:
  assumes "timer_inv s" "update_timer s = Some s'"
  shows "timer_ok s'" "timer_inv s'"
  using assms
  by (auto simp: update_timer_def timer_inv_def timer_ok_def Let_def min_def
      not_less_iff_gr_or_eq split: if_splits)

lemmas update_wakeup_timer_frame =
  update_timer_frame [of "s\<lparr>next_wakeup_timer := t\<rparr>" for s t, simplified,
    folded update_wakeup_timer_def]

lemmas update_sched_timer_frame =
  update_timer_frame [of "s\<lparr>next_sched_timer := t\<rparr>" for s t, simplified,
    folded update_sched_timer_def]

lemma update_wakeup_timer_correct:
  assumes "timer_inv s" "t \<noteq> 0"
  shows "\<exists>s'. update_wakeup_timer t s = Some s' \<and> timer_ok s' \<and> timer_inv s'"
proof -
  from assms have inv: "timer_inv (s\<lparr>next_wakeup_timer := t\<rparr>)"
    by (simp add: timer_inv_def)
  from update_timer_total [OF inv] obtain s' where "update_wakeup_timer t s = Some s'"
    by (auto simp: update_wakeup_timer_def)
  with update_timer_ok [OF inv] show ?thesis
    by (simp add: update_wakeup_timer_def)
qed

lemma update_sched_timer_correct:
  assumes "timer_inv s" "t \<noteq> 0"
  shows "\<exists>s'. update_sched_timer t s = Some s' \<and> timer_ok s' \<and> timer_inv s'"
proof -
  from assms have inv: "timer_inv (s\<lparr>next_sched_timer := t\<rparr>)"
    by (simp add: timer_inv_def)
  from update_timer_total [OF inv] obtain s' where "update_sched_timer t s = Some s'"
    by (auto simp: update_sched_timer_def)
  with update_timer_ok [OF inv] show ?thesis
    by (simp add: update_sched_timer_def)
qed

text \<open>The timer state matters only in a kernel built with the one-shot timer.\<close>

definition timer_good :: "kernel \<Rightarrow> bool" where
  "timer_good s \<longleftrightarrow> (config_oneshot_timer s \<longrightarrow> timer_inv s)"

lemma timer_good_upd [simp]:
  "timer_good (upd_dcb d f s) = timer_good s"
  "timer_good (upd_cur g s) = timer_good s"
  by (simp_all add: timer_good_def timer_inv_def)

end
