(* ===== verification/Wakeup.thy ===== *)
theory Wakeup
  imports Timer
begin

text \<open>
  The timeout queue of kernel/wakeup.c: a doubly linked list of dispatchers ordered by
  wakeup time, headed by \<open>wakeup_queue_head\<close> of the current kcb.  \<open>wakeup_check\<close> hands
  expired dispatchers to the scheduler the kernel is built with; \<open>make_runnable\<close> is
  therefore an argument, and the locale \<open>runnable_provider\<close> states what the wakeup code
  relies on.
\<close>

section \<open>Operations\<close>

definition wakeup_set_queue_head :: "ptr \<Rightarrow> kernel \<Rightarrow> kernel option" where
  "wakeup_set_queue_head h s =
     (let s = upd_cur (wakeup_queue_head_update (\<lambda>_. h)) s in
      if config_oneshot_timer s
      then update_wakeup_timer
             (case h of None \<Rightarrow> TIMER_INF | Some d \<Rightarrow> wakeup_time (dcbs s d)) s
      else Some s)"

definition wakeup_remove :: "addr \<Rightarrow> kernel \<Rightarrow> kernel option" where
  "wakeup_remove d s =
     (if wakeup_time (dcbs s d) \<noteq> 0 then do {
        s \<leftarrow> (case wakeup_prev (dcbs s d) of
                None \<Rightarrow> do {
                  _ \<leftarrow> assert_that (wakeup_queue_head (cur s) = Some d);
                  wakeup_set_queue_head (wakeup_next (dcbs s d)) s
                }
              | Some p \<Rightarrow> do {
                  _ \<leftarrow> assert_that (wakeup_next (dcbs s p) = Some d);
                  Some (upd_dcb p (wakeup_next_update (\<lambda>_. wakeup_next (dcbs s d))) s)
                });
        s \<leftarrow> (case wakeup_next (dcbs s d) of
                None \<Rightarrow> Some s
              | Some n \<Rightarrow> do {
                  _ \<leftarrow> assert_that (wakeup_prev (dcbs s n) = Some d);
                  Some (upd_dcb n (wakeup_prev_update (\<lambda>_. wakeup_prev (dcbs s d))) s)
                });
        Some (upd_dcb d (\<lambda>x. x\<lparr>wakeup_prev := None, wakeup_next := None\<rparr>) s)
      } else Some s)"

text \<open>The search loop of \<^verbatim>\<open>wakeup_set\<close>: the insertion point as the pair of \<^verbatim>\<open>p\<close> and \<^verbatim>\<open>d\<close>.\<close>

partial_function (option) wakeup_find ::
  "kernel \<Rightarrow> u64 \<Rightarrow> ptr \<Rightarrow> ptr \<Rightarrow> (ptr \<times> ptr) option" where
  "wakeup_find s waketime p d =
     (case d of
        None \<Rightarrow> Some (p, d)
      | Some a \<Rightarrow> if wakeup_time (dcbs s a) > waketime then Some (p, d)
                  else wakeup_find s waketime d (wakeup_next (dcbs s a)))"

definition wakeup_set_prev :: "ptr \<Rightarrow> addr \<Rightarrow> kernel \<Rightarrow> kernel" where
  "wakeup_set_prev d dcb s =
     (case d of None \<Rightarrow> s | Some a \<Rightarrow> upd_dcb a (wakeup_prev_update (\<lambda>_. Some dcb)) s)"

definition wakeup_set :: "addr \<Rightarrow> u64 \<Rightarrow> kernel \<Rightarrow> kernel option" where
  "wakeup_set dcb waketime s = do {
     _ \<leftarrow> assert_that (waketime > kernel_now s + kernel_off (cur s));
     s \<leftarrow> wakeup_remove dcb s;
     let s = upd_dcb dcb (wakeup_time_update (\<lambda>_. waketime)) s;
     (p, d) \<leftarrow> wakeup_find s waketime None (wakeup_queue_head (cur s));
     (case p of
        None \<Rightarrow> do {
          _ \<leftarrow> assert_that (d = wakeup_queue_head (cur s));
          let s = upd_dcb dcb (\<lambda>x. x\<lparr>wakeup_prev := None, wakeup_next := d\<rparr>) s;
          let s = wakeup_set_prev d dcb s;
          wakeup_set_queue_head (Some dcb) s
        }
      | Some a \<Rightarrow> do {
          let s = upd_dcb dcb (\<lambda>x. x\<lparr>wakeup_next := d, wakeup_prev := p\<rparr>) s;
          let s = upd_dcb a (wakeup_next_update (\<lambda>_. Some dcb)) s;
          Some (wakeup_set_prev d dcb s)
        })
   }"

text \<open>The loop of \<^verbatim>\<open>wakeup_check\<close>; it returns the first dispatcher that stays queued.\<close>

partial_function (option) wakeup_expire ::
  "(addr \<Rightarrow> kernel \<Rightarrow> kernel option) \<Rightarrow> u64 \<Rightarrow> ptr \<Rightarrow> kernel \<Rightarrow> (ptr \<times> kernel) option" where
  "wakeup_expire make_runnable now d s =
     (case d of
        None \<Rightarrow> Some (d, s)
      | Some a \<Rightarrow>
          if wakeup_time (dcbs s a) \<le> now
          then Option.bind
                 (make_runnable a
                   (upd_dcb a (\<lambda>x. x\<lparr>wakeup_time := 0, wakeup_prev := None, wakeup_next := None\<rparr>) s))
                 (wakeup_expire make_runnable now (wakeup_next (dcbs s a)))
          else Some (d, s))"

definition wakeup_check ::
  "(addr \<Rightarrow> kernel \<Rightarrow> kernel option) \<Rightarrow> u64 \<Rightarrow> kernel \<Rightarrow> kernel option" where
  "wakeup_check make_runnable now s = do {
     (d, s) \<leftarrow> wakeup_expire make_runnable now (wakeup_queue_head (cur s)) s;
     let s = (case d of None \<Rightarrow> s | Some a \<Rightarrow> upd_dcb a (wakeup_prev_update (\<lambda>_. None)) s);
     wakeup_set_queue_head d s
   }"

definition wakeup_is_pending :: "kernel \<Rightarrow> bool" where
  "wakeup_is_pending s \<longleftrightarrow> wakeup_queue_head (cur s) \<noteq> None"

section \<open>The queue as a list\<close>

definition wlinks :: "kernel \<Rightarrow> addr list \<Rightarrow> bool" where
  "wlinks s xs \<longleftrightarrow> dseg (wnext s) (wprev s) None (whead s) xs None"

text \<open>
  The representation invariant: the links spell \<open>xs\<close>, \<open>xs\<close> is ordered by wakeup time, and
  a dispatcher has a non-zero wakeup time exactly when it is queued.
\<close>

definition wakeup_queue :: "kernel \<Rightarrow> addr list \<Rightarrow> bool" where
  "wakeup_queue s xs \<longleftrightarrow>
     wlinks s xs \<and> sorted (map (wtime s) xs) \<and> (\<forall>d. wtime s d \<noteq> 0 \<longleftrightarrow> d \<in> set xs)"

lemma wlinks_distinct: "wlinks s xs \<Longrightarrow> distinct xs"
  by (auto simp: wlinks_def dest: dseg_distinct)

lemma wakeup_set_queue_head_spec:
  assumes "timer_good s" "\<And>d. h = Some d \<Longrightarrow> wtime s d \<noteq> 0"
  shows "\<exists>s'. wakeup_set_queue_head h s = Some s' \<and> dcbs s' = dcbs s \<and> whead s' = h \<and>
           wtime s' = wtime s \<and> wnext s' = wnext s \<and> wprev s' = wprev s \<and>
           kcb_current s' = kcb_current s \<and> timer_good s' \<and> erase_wakeup s' = erase_wakeup s"
proof (cases "config_oneshot_timer s")
  case False
  with assms show ?thesis
    by (simp add: wakeup_set_queue_head_def)
next
  case True
  let ?s = "upd_cur (wakeup_queue_head_update (\<lambda>_. h)) s"
  let ?t = "case h of None \<Rightarrow> TIMER_INF | Some d \<Rightarrow> wakeup_time (dcbs ?s d)"
  from True assms have "timer_inv ?s" "?t \<noteq> 0"
    by (auto simp: timer_good_def timer_inv_def TIMER_INF_def wtime_def split: option.splits)
  from update_wakeup_timer_correct [OF this] obtain s' where
    s': "update_wakeup_timer ?t ?s = Some s'" "timer_inv s'" by blast
  note fr = update_wakeup_timer_frame [OF s'(1)]
  from s'(1) have "erase_wakeup s' = erase_wakeup ?s"
    by (auto simp: update_wakeup_timer_def update_timer_def Let_def erase_wakeup_def split: if_splits)
  with s' fr True show ?thesis
    by (simp add: wakeup_set_queue_head_def whead_def timer_good_def wtime_def wnext_def
        wprev_def fun_eq_iff)
qed

text \<open>The two assertions of \<^verbatim>\<open>wakeup_remove\<close> hold and the neighbours are joined.\<close>

lemma wakeup_remove_queued:
  assumes links: "wlinks s xs" and d: "d \<in> set xs" and tg: "timer_good s"
    and nz: "\<And>a. a \<in> set xs \<Longrightarrow> wtime s a \<noteq> 0"
  shows "\<exists>s'. wakeup_remove d s = Some s' \<and> wlinks s' (remove1 d xs) \<and>
           wtime s' = wtime s \<and> wprev s' d = None \<and> kcb_current s' = kcb_current s \<and>
           timer_good s' \<and> erase_wakeup s' = erase_wakeup s"
proof -
  from d obtain us vs where xs: "xs = us @ d # vs" "d \<notin> set us"
    by (meson split_list_first)
  then have rem: "remove1 d xs = us @ vs" by (simp add: remove1_append)
  let ?n = "wnext s d" and ?p = "wprev s d"
  note seg = links [unfolded wlinks_def xs(1)]
  note nb = dseg_neighbours [OF seg]
  have d0: "wakeup_time (dcbs s d) \<noteq> 0" using d nz by (simp add: wtime_def)
  have n0: "wtime s a \<noteq> 0" if "?n = Some a" for a
    using that nb(2) nz xs by (cases vs) auto
  obtain s1 where s1: "(case ?p of
        None \<Rightarrow> do {
          _ \<leftarrow> assert_that (whead s = Some d);
          wakeup_set_queue_head ?n s }
      | Some p \<Rightarrow> do {
          _ \<leftarrow> assert_that (wnext s p = Some d);
          Some (upd_dcb p (wakeup_next_update (\<lambda>_. ?n)) s) }) = Some s1"
    "wnext s1 = redirect ?p ?n (wnext s)" "wprev s1 = wprev s" "wtime s1 = wtime s"
    "whead s1 = (if ?p = None then ?n else whead s)" "kcb_current s1 = kcb_current s"
    "timer_good s1" "erase_wakeup s1 = erase_wakeup s"
    using wakeup_set_queue_head_spec [OF tg, of ?n, OF n0] nb(3,4) tg
    by (cases ?p) (auto simp: wtime_def wprev_def fun_eq_iff)
  obtain s2 where s2: "(case wnext s1 d of
        None \<Rightarrow> Some s1
      | Some n \<Rightarrow> do {
          _ \<leftarrow> assert_that (wprev s1 n = Some d);
          Some (upd_dcb n (wakeup_prev_update (\<lambda>_. wprev s1 d)) s1) }) = Some s2"
    "wnext s2 = wnext s1" "wprev s2 = redirect ?n ?p (wprev s)" "wtime s2 = wtime s"
    "whead s2 = whead s1" "kcb_current s2 = kcb_current s"
    "timer_good s2" "erase_wakeup s2 = erase_wakeup s"
    using nb(5,6) s1(2-)
    by (cases ?n; cases ?p) (auto simp: wtime_def wnext_def fun_eq_iff)
  from d0 s1(1) s2(1)
  have "wakeup_remove d s = Some (upd_dcb d (\<lambda>x. x\<lparr>wakeup_prev := None, wakeup_next := None\<rparr>) s2)"
    unfolding wakeup_remove_def wnext_def wprev_def whead_def by simp
  with s1(2-) s2(2-) dseg_unlink [OF seg] show ?thesis
    by (auto simp: wlinks_def wtime_def [symmetric] rem)
qed

lemma wakeup_find_spec:
  assumes "lseg (wnext s) h xs None"
  shows "wakeup_find s t p h =
           Some (last_or p (takeWhile (\<lambda>a. wtime s a \<le> t) xs),
                 first_of (dropWhile (\<lambda>a. wtime s a \<le> t) xs))"
  using assms
proof (induction xs arbitrary: h p)
  case Nil
  then show ?case by (simp add: wakeup_find.simps)
next
  case (Cons x xs)
  from Cons.prems have h: "h = Some x" "lseg (wnext s) (wakeup_next (dcbs s x)) xs None"
    by (auto simp: wnext_def [symmetric])
  from Cons.IH [OF h(2)] h(1) show ?case
    by (auto simp: wakeup_find.simps [of s t p "Some x"] wtime_def not_less)
qed

section \<open>Setting a timeout\<close>

definition wakeup_insort :: "(addr \<Rightarrow> u64) \<Rightarrow> u64 \<Rightarrow> addr \<Rightarrow> addr list \<Rightarrow> addr list" where
  "wakeup_insort tm t d xs =
     takeWhile (\<lambda>a. tm a \<le> t) xs @ d # dropWhile (\<lambda>a. tm a \<le> t) xs"

lemma set_wakeup_insort [simp]: "set (wakeup_insort tm t d xs) = insert d (set xs)"
  unfolding wakeup_insort_def
  by (metis Un_insert_right set_append list.simps(15) takeWhile_dropWhile_id)

lemma sorted_wakeup_insort:
  assumes "sorted (map tm xs)" "d \<notin> set xs"
  shows "sorted (map (tm(d := t)) (wakeup_insort tm t d xs))"
proof -
  let ?P = "\<lambda>a. tm a \<le> t"
  from assms(1) have "sorted (map tm (takeWhile ?P xs @ dropWhile ?P xs))"
    by simp
  then have tw: "sorted (map tm (takeWhile ?P xs))" and dw: "sorted (map tm (dropWhile ?P xs))"
    unfolding map_append sorted_append by blast+
  have hi: "t \<le> tm a" if "a \<in> set (dropWhile ?P xs)" for a
  proof (cases "dropWhile ?P xs")
    case (Cons y ys)
    then have "\<not> tm y \<le> t" by (simp add: dropWhile_eq_Cons_conv)
    with that dw Cons show ?thesis by auto
  next
    case Nil
    with that show ?thesis by (metis empty_iff list.set(1))
  qed
  have "map (tm(d := t)) (takeWhile ?P xs) = map tm (takeWhile ?P xs)"
    "map (tm(d := t)) (dropWhile ?P xs) = map tm (dropWhile ?P xs)"
    using assms(2) by (auto dest: set_takeWhileD set_dropWhileD)
  with tw dw have "sorted (map (tm(d := t)) (takeWhile ?P xs))"
    "sorted (map (tm(d := t)) (dropWhile ?P xs))"
    by (simp_all del: map_eq_conv)
  with hi show ?thesis
    by (auto simp: wakeup_insort_def sorted_append dest!: set_takeWhileD intro: order_trans)
qed

lemma wakeup_remove_idle: "wtime s d = 0 \<Longrightarrow> wakeup_remove d s = Some s"
  by (simp add: wakeup_remove_def wtime_def)

lemma wakeup_set_prev_sel [simp]:
  "wtime (wakeup_set_prev n d s) = wtime s"
  "wnext (wakeup_set_prev n d s) = wnext s"
  "wprev (wakeup_set_prev n d s) = redirect n (Some d) (wprev s)"
  "whead (wakeup_set_prev n d s) = whead s"
  "kcb_current (wakeup_set_prev n d s) = kcb_current s"
  "timer_good (wakeup_set_prev n d s) = timer_good s"
  "erase_wakeup (wakeup_set_prev n d s) = erase_wakeup s"
  by (cases n; auto simp: wakeup_set_prev_def wtime_def wnext_def)+

text \<open>
  The part of \<^verbatim>\<open>wakeup_set\<close> after the removal, on a queue that does not contain \<open>d\<close>.
\<close>

lemma wakeup_set_insert:
  assumes links: "wlinks s ys" and d: "d \<notin> set ys" and tg: "timer_good s" and t: "t \<noteq> 0"
    and rem: "wakeup_remove d s0 = Some s" and now: "kernel_now s0 + kernel_off (cur s0) < t"
  shows "\<exists>s'. wakeup_set d t s0 = Some s' \<and> wlinks s' (wakeup_insort (wtime s) t d ys) \<and>
           wtime s' = (wtime s)(d := t) \<and> kcb_current s' = kcb_current s \<and> timer_good s' \<and>
           erase_wakeup s' = erase_wakeup s"
proof -
  let ?s = "upd_dcb d (wakeup_time_update (\<lambda>_. t)) s"
  let ?us = "takeWhile (\<lambda>a. wtime s a \<le> t) ys" and ?vs = "dropWhile (\<lambda>a. wtime s a \<le> t) ys"
  let ?p = "last_or None ?us" and ?n = "first_of ?vs"
  have seg: "dseg (wnext s) (wprev s) None (whead s) (?us @ ?vs) None"
    using links by (simp add: wlinks_def)
  have du: "d \<notin> set ?us" and dv: "d \<notin> set ?vs"
    using d by (auto dest: set_takeWhileD set_dropWhileD)
  have same: "takeWhile (\<lambda>a. wtime ?s a \<le> t) ys = ?us" "dropWhile (\<lambda>a. wtime ?s a \<le> t) ys = ?vs"
    using d by (auto intro: takeWhile_cong dropWhile_cong)
  have find: "wakeup_find ?s t None (wakeup_queue_head (cur ?s)) = Some (?p, ?n)"
  proof -
    have "lseg (wnext ?s) (whead s) ys None"
      using dseg_lseg [OF links [unfolded wlinks_def]] d by simp
    from wakeup_find_spec [OF this, of t None, unfolded same] show ?thesis
      by (simp add: whead_def)
  qed
  note link = dseg_link [OF seg du dv refl refl]
  show ?thesis
  proof (cases ?p)
    case None
    then have us: "?us = []" by (cases ?us rule: rev_cases) auto
    then have hd: "?n = wakeup_queue_head (cur ?s)"
      using dseg_start [OF seg] by (simp add: whead_def)
    let ?s2 = "wakeup_set_prev ?n d
                 (upd_dcb d (\<lambda>x. x\<lparr>wakeup_prev := None, wakeup_next := ?n\<rparr>) ?s)"
    from wakeup_set_queue_head_spec [of ?s2 "Some d"] tg t obtain s' where
      s': "wakeup_set_queue_head (Some d) ?s2 = Some s'" "wtime s' = wtime ?s2"
        "wnext s' = wnext ?s2" "wprev s' = wprev ?s2" "whead s' = Some d"
        "kcb_current s' = kcb_current s" "timer_good s'" "erase_wakeup s' = erase_wakeup s"
      by auto
    then have "wakeup_set d t s0 = Some s'"
      using now rem find None hd by (simp add: wakeup_set_def)
    with s' link None us show ?thesis
      by (auto simp: wlinks_def wakeup_insort_def)
  next
    case (Some a)
    let ?s' = "wakeup_set_prev ?n d (upd_dcb a (wakeup_next_update (\<lambda>_. Some d))
                 (upd_dcb d (\<lambda>x. x\<lparr>wakeup_next := ?n, wakeup_prev := ?p\<rparr>) ?s))"
    have "a \<noteq> d" using Some du last_or_in [of None ?us a] by auto
    moreover have "wakeup_set d t s0 = Some ?s'"
      using now rem find Some by (simp add: wakeup_set_def)
    ultimately show ?thesis
      using link Some tg by (auto simp: wlinks_def wakeup_insort_def wtime_def [symmetric])
  qed
qed

text \<open>
  C19. Setting a timeout: from a well-formed queue \<open>xs\<close> and a wakeup time in the future,
  \<^verbatim>\<open>wakeup_set\<close> passes all its assertions and returns with a well-formed queue, in which the
  dispatcher (taken out of its old position if it was queued) stands behind every dispatcher
  whose wakeup time is not later; nothing outside the timeout queue and its timer changes.
\<close>

theorem wakeup_set_correct:
  assumes "wakeup_queue s xs" "timer_good s" "kernel_now s + kernel_off (cur s) < t"
  shows "\<exists>s'. wakeup_set d t s = Some s' \<and>
           wakeup_queue s' (wakeup_insort (wtime s) t d (remove1 d xs)) \<and>
           wtime s' = (wtime s)(d := t) \<and> timer_good s' \<and> erase_wakeup s' = erase_wakeup s"
proof -
  from assms(1) have links: "wlinks s xs" and srt: "sorted (map (wtime s) xs)"
    and nz: "\<And>a. wtime s a \<noteq> 0 \<longleftrightarrow> a \<in> set xs"
    by (auto simp: wakeup_queue_def)
  have t: "t \<noteq> 0" using assms(3) by (auto simp: word_less_nat_alt)
  note dist = wlinks_distinct [OF links]
  obtain s1 where s1: "wakeup_remove d s = Some s1" "wlinks s1 (remove1 d xs)"
    "wtime s1 = wtime s" "timer_good s1" "erase_wakeup s1 = erase_wakeup s"
    using wakeup_remove_queued [OF links _ assms(2), of d] nz wakeup_remove_idle [of s d]
      links assms(2) by (cases "d \<in> set xs") (auto simp: remove1_idem)
  have d: "d \<notin> set (remove1 d xs)" using dist by simp
  from wakeup_set_insert [OF s1(2) d s1(4) t s1(1) assms(3)] s1 obtain s' where
    s': "wakeup_set d t s = Some s'" "wlinks s' (wakeup_insort (wtime s) t d (remove1 d xs))"
      "wtime s' = (wtime s)(d := t)" "timer_good s'" "erase_wakeup s' = erase_wakeup s"
    by auto
  have "sorted (map (wtime s) (remove1 d xs))"
    using srt by (metis sorted_map_remove1)
  from sorted_wakeup_insort [OF this d] s' nz t dist show ?thesis
    by (auto simp: wakeup_queue_def)
qed

section \<open>Cancelling a timeout\<close>

text \<open>
  Cancelling a timeout unlinks the dispatcher but leaves its \<open>wakeup_time\<close> set, so the
  dispatcher still counts as queued: a second \<^verbatim>\<open>wakeup_remove\<close> on it does not act as the
  no-op its comment announces but fails the assertion that the dispatcher heads the queue.
\<close>

theorem wakeup_remove_twice_fails:
  assumes "wakeup_queue s xs" "timer_good s" "d \<in> set xs"
  shows "\<exists>s'. wakeup_remove d s = Some s' \<and> wlinks s' (remove1 d xs) \<and>
           d \<notin> set (remove1 d xs) \<and> wtime s' d \<noteq> 0 \<and> wakeup_remove d s' = None"
proof -
  from assms(1) have links: "wlinks s xs" and nz: "\<And>a. wtime s a \<noteq> 0 \<longleftrightarrow> a \<in> set xs"
    by (auto simp: wakeup_queue_def)
  from wakeup_remove_queued [OF links assms(3,2)] nz obtain s' where
    s': "wakeup_remove d s = Some s'" "wlinks s' (remove1 d xs)" "wtime s' = wtime s"
      "wprev s' d = None" by blast
  have d: "d \<notin> set (remove1 d xs)" using wlinks_distinct [OF links] by simp
  have "whead s' = first_of (remove1 d xs)"
    using s'(2) by (simp add: wlinks_def dseg_start)
  with d have "whead s' \<noteq> Some d" by (cases "remove1 d xs") auto
  with s'(3,4) nz [of d] assms(3) have "wakeup_remove d s' = None"
    by (simp add: wakeup_remove_def wtime_def [symmetric] wprev_def [symmetric] whead_def [symmetric])
  with s' d nz [of d] assms(3) show ?thesis by auto
qed

section \<open>Expiry, over any scheduler\<close>

text \<open>
  What \<^verbatim>\<open>wakeup_check\<close> relies on of \<^verbatim>\<open>make_runnable\<close>: it leaves the fields of the timeout
  queue and the timer alone, adds its argument and nothing else to the schedule, and keeps the scheduler's own invariant; that invariant does not speak about the timeout queue.
\<close>

definition wakeup_frame :: "kernel \<Rightarrow> kernel \<Rightarrow> bool" where
  "wakeup_frame s s' \<longleftrightarrow>
     wtime s' = wtime s \<and> wnext s' = wnext s \<and> wprev s' = wprev s \<and>
     kcb_current s' = kcb_current s \<and>
     (\<forall>k. wakeup_queue_head (kcbs s' k) = wakeup_queue_head (kcbs s k)) \<and>
     (timer_good s \<longrightarrow> timer_good s')"

locale runnable_provider =
  fixes make_runnable :: "addr \<Rightarrow> kernel \<Rightarrow> kernel option"
    and runnable :: "kernel \<Rightarrow> addr \<Rightarrow> bool"
    and sched_ok :: "kernel \<Rightarrow> bool"
  assumes frame: "make_runnable d s = Some s' \<Longrightarrow> wakeup_frame s s'"
    and adds: "sched_ok s \<Longrightarrow> make_runnable d s = Some s' \<Longrightarrow>
          runnable s' a \<longleftrightarrow> runnable s a \<or> a = d"
    and ok: "sched_ok s \<Longrightarrow> make_runnable d s = Some s' \<Longrightarrow> sched_ok s'"
    and local_ok: "erase_wakeup s = erase_wakeup t \<Longrightarrow> sched_ok s \<Longrightarrow> sched_ok t"
    and local_runnable: "erase_wakeup s = erase_wakeup t \<Longrightarrow> runnable s a \<longleftrightarrow> runnable t a"
begin

lemma expire_spec:
  assumes "dseg (wnext s) (wprev s) b p xs None" "sched_ok s" "timer_good s"
    "wakeup_expire make_runnable now p s = Some (q, s')"
  shows "(\<exists>b'. dseg (wnext s') (wprev s') b' q (dropWhile (\<lambda>a. wtime s a \<le> now) xs) None) \<and>
    wtime s' = (\<lambda>a. if a \<in> set (takeWhile (\<lambda>a. wtime s a \<le> now) xs) then 0 else wtime s a) \<and>
    sched_ok s' \<and> timer_good s' \<and>
    (\<forall>a. runnable s' a \<longleftrightarrow> runnable s a \<or> a \<in> set (takeWhile (\<lambda>a. wtime s a \<le> now) xs))"
  using assms
proof (induction xs arbitrary: s b p)
  case Nil
  then show ?case by (auto simp: wakeup_expire.simps)
next
  case (Cons x xs)
  from Cons.prems(1) have p: "p = Some x" and xs: "dseg (wnext s) (wprev s) (Some x) (wnext s x) xs None"
    by auto
  from dseg_distinct [OF Cons.prems(1)] have x: "x \<notin> set xs" by simp
  show ?case
  proof (cases "wtime s x \<le> now")
    case False
    with Cons.prems p show ?thesis
      by (auto simp: wakeup_expire.simps [of _ _ "Some x"] wtime_def)
  next
    case True
    let ?s1 = "upd_dcb x (\<lambda>x. x\<lparr>wakeup_time := 0, wakeup_prev := None, wakeup_next := None\<rparr>) s"
    from True Cons.prems(4) p obtain s2 where
      s2: "make_runnable x ?s1 = Some s2"
        "wakeup_expire make_runnable now (wnext s x) s2 = Some (q, s')"
      by (auto simp: wakeup_expire.simps [of _ _ "Some x"] wtime_def wnext_def bind_eq_Some_conv)
    have er: "erase_wakeup ?s1 = erase_wakeup s" by simp
    from local_ok [OF er [symmetric] Cons.prems(2)] have ok1: "sched_ok ?s1" .
    from frame [OF s2(1)] Cons.prems(3)
    have fr: "wtime s2 = (wtime s)(x := 0)" "wnext s2 = (wnext s)(x := None)"
      "wprev s2 = (wprev s)(x := None)" "timer_good s2"
      by (auto simp: wakeup_frame_def)
    have run: "runnable s2 a \<longleftrightarrow> runnable s a \<or> a = x" for a
      using adds [OF ok1 s2(1)] local_runnable [OF er] by blast
    have cong: "takeWhile (\<lambda>a. wtime s2 a \<le> now) xs = takeWhile (\<lambda>a. wtime s a \<le> now) xs"
      "dropWhile (\<lambda>a. wtime s2 a \<le> now) xs = dropWhile (\<lambda>a. wtime s a \<le> now) xs"
      using x by (auto simp: fr intro: takeWhile_cong dropWhile_cong)
    have "dseg (wnext s2) (wprev s2) (Some x) (wnext s x) xs None"
      using xs x by (simp add: fr)
    from Cons.IH [OF this ok [OF ok1 s2(1)] fr(4) s2(2)] run True x show ?thesis
      unfolding cong by (auto simp: fr fun_eq_iff)
  qed
qed

lemma check_expired:
  assumes "wakeup_queue s xs" "sched_ok s" "timer_good s"
    "wakeup_expire make_runnable now (whead s) s = Some (q, s1)"
  defines "rest \<equiv> filter (\<lambda>a. now < wtime s a) xs"
  shows "q = first_of rest"
    "wlinks (upd_cur (wakeup_queue_head_update (\<lambda>_. q))
       (case q of None \<Rightarrow> s1 | Some a \<Rightarrow> upd_dcb a (wakeup_prev_update (\<lambda>_. None)) s1)) rest"
    "sorted (map (wtime s1) rest)" "wtime s1 d \<noteq> 0 \<longleftrightarrow> d \<in> set rest"
    "sched_ok s1" "timer_good s1"
    "runnable s1 a \<longleftrightarrow> runnable s a \<or> a \<in> set xs \<and> wtime s a \<le> now"
proof -
  from assms(1) have seg: "dseg (wnext s) (wprev s) None (whead s) xs None"
    and srt: "sorted (map (wtime s) xs)" and nz: "\<And>d. wtime s d \<noteq> 0 \<longleftrightarrow> d \<in> set xs"
    by (auto simp: wakeup_queue_def wlinks_def)
  note cut = sorted_takeWhile_le [OF srt] sorted_dropWhile_le [OF srt]
  from expire_spec [OF seg assms(2,3,4)] obtain b' where
    post: "dseg (wnext s1) (wprev s1) b' q rest None"
    "wtime s1 = (\<lambda>a. if a \<in> set xs \<and> wtime s a \<le> now then 0 else wtime s a)"
    "sched_ok s1" "timer_good s1"
    "\<And>a. runnable s1 a \<longleftrightarrow> runnable s a \<or> a \<in> set xs \<and> wtime s a \<le> now"
    by (auto simp: cut rest_def)
  show q: "q = first_of rest" by (rule dseg_start [OF post(1)])
  show "wlinks (upd_cur (wakeup_queue_head_update (\<lambda>_. q))
       (case q of None \<Rightarrow> s1 | Some a \<Rightarrow> upd_dcb a (wakeup_prev_update (\<lambda>_. None)) s1)) rest"
    using post(1) q dseg_distinct [OF post(1)] by (cases rest) (auto simp: wlinks_def)
  have "map (wtime s1) rest = map (wtime s) rest"
    by (auto simp: post(2) rest_def)
  then show "sorted (map (wtime s1) rest)"
    using sorted_map_filter [OF srt] by (simp add: rest_def del: map_eq_conv)
  show "wtime s1 d \<noteq> 0 \<longleftrightarrow> d \<in> set rest"
    using nz [of d] by (auto simp: post(2) rest_def)
  show "sched_ok s1" "timer_good s1" by fact+
  show "runnable s1 a \<longleftrightarrow> runnable s a \<or> a \<in> set xs \<and> wtime s a \<le> now"
    by (rule post(5))
qed

lemma check_spec:
  assumes "wakeup_queue s xs" "sched_ok s" "timer_good s"
    "wakeup_expire make_runnable now (whead s) s = Some (q, s1)"
  shows "\<exists>s'. wakeup_check make_runnable now s = Some s' \<and>
    wakeup_queue s' (filter (\<lambda>a. now < wtime s a) xs) \<and> sched_ok s' \<and> timer_good s' \<and>
    (\<forall>a. runnable s' a \<longleftrightarrow> runnable s a \<or> a \<in> set xs \<and> wtime s a \<le> now)"
proof -
  note ex = check_expired [OF assms]
  define s2 where "s2 = (case q of None \<Rightarrow> s1
     | Some a \<Rightarrow> upd_dcb a (wakeup_prev_update (\<lambda>_. None)) s1)"
  have sel: "wtime s2 = wtime s1" "timer_good s2" "erase_wakeup s2 = erase_wakeup s1"
    using ex(6) by (auto simp: s2_def split: option.splits)
  have "wtime s2 d \<noteq> 0" if "q = Some d" for d
    using that ex(1) ex(4) [of d] sel
    by (cases "filter (\<lambda>a. now < wtime s a) xs") (auto simp: sel)
  from wakeup_set_queue_head_spec [OF sel(2) this] obtain s' where
    s': "wakeup_set_queue_head q s2 = Some s'" "whead s' = q" "wtime s' = wtime s1"
      "wnext s' = wnext s2" "wprev s' = wprev s2" "timer_good s'"
      "erase_wakeup s' = erase_wakeup s1"
    by (auto simp: sel)
  have eq: "wakeup_check make_runnable now s = Some s'"
    using assms(4) s'(1) by (simp add: wakeup_check_def whead_def s2_def)
  have "wlinks s' (filter (\<lambda>a. now < wtime s a) xs)"
    using ex(2) s' by (simp add: wlinks_def s2_def [symmetric])
  then have "wakeup_queue s' (filter (\<lambda>a. now < wtime s a) xs)"
    using ex(3,4) s'(3) by (simp add: wakeup_queue_def)
  moreover have "sched_ok s'"
    by (rule local_ok [OF s'(7) [symmetric] ex(5)])
  moreover have "runnable s' a \<longleftrightarrow> runnable s a \<or> a \<in> set xs \<and> wtime s a \<le> now" for a
    unfolding local_runnable [OF s'(7)] by (rule ex(7))
  ultimately show ?thesis using eq s'(6) by blast
qed

lemma check_total:
  assumes "wakeup_queue s xs" "sched_ok s" "timer_good s"
    and total: "\<And>d t. sched_ok t \<Longrightarrow> \<exists>t'. make_runnable d t = Some t'"
  shows "\<exists>s'. wakeup_check make_runnable now s = Some s' \<and>
    wakeup_queue s' (filter (\<lambda>a. now < wtime s a) xs) \<and> sched_ok s' \<and> timer_good s' \<and>
    (\<forall>a. runnable s' a \<longleftrightarrow> runnable s a \<or> a \<in> set xs \<and> wtime s a \<le> now)"
proof -
  have "\<exists>r. wakeup_expire make_runnable now p t = Some r"
    if "lseg (wnext t) p ys None" "sched_ok t" for p ys t
    using that
  proof (induction ys arbitrary: p t)
    case Nil
    then show ?case by (simp add: wakeup_expire.simps)
  next
    case (Cons y ys)
    let ?t = "upd_dcb y (\<lambda>x. x\<lparr>wakeup_time := 0, wakeup_prev := None, wakeup_next := None\<rparr>) t"
    have ok1: "sched_ok ?t" by (rule local_ok [OF _ Cons.prems(2)]) simp
    from total [OF ok1] obtain t' where t': "make_runnable y ?t = Some t'" by blast
    from lseg_distinct [OF Cons.prems(1)] Cons.prems(1) frame [OF t']
    have "lseg (wnext t') (wnext t y) ys None" by (auto simp: wakeup_frame_def)
    from Cons.IH [OF this ok [OF ok1 t']] t' Cons.prems(1) show ?case
      by (auto simp: wakeup_expire.simps [of _ _ "Some y"] wnext_def)
  qed
  from this [of s "whead s" xs] assms(1,2) obtain q s1 where
    "wakeup_expire make_runnable now (whead s) s = Some (q, s1)"
    by (auto simp: wakeup_queue_def wlinks_def dest: dseg_lseg)
  from check_spec [OF assms(1-3) this] show ?thesis .
qed

end

section \<open>An example\<close>

text \<open>Dispatchers 1 and 2 wait for times 5 and 9.\<close>

definition example_timeouts :: kernel where
  "example_timeouts = kernel0\<lparr>
     dcbs := (\<lambda>_. dcb0)(1 := dcb0\<lparr>wakeup_time := 5, wakeup_next := Some 2\<rparr>,
                       2 := dcb0\<lparr>wakeup_time := 9, wakeup_prev := Some 1\<rparr>),
     kcbs := (\<lambda>_. kcb0)(0 := kcb0\<lparr>wakeup_queue_head := Some 1\<rparr>)\<rparr>"

lemma example_timeouts_sel:
  "wtime example_timeouts = (\<lambda>_. 0)(1 := 5, 2 := 9)" "timer_good example_timeouts"
  "kernel_now example_timeouts = 0" "kernel_off (cur example_timeouts) = 0"
  by (auto simp: example_timeouts_def wtime_def kernel0_def dcb0_def kcb0_def timer_good_def)

lemma example_timeouts_queue: "wakeup_queue example_timeouts [1, 2]"
  unfolding wakeup_queue_def wlinks_def example_timeouts_sel
  by (auto simp: example_timeouts_def wnext_def wprev_def whead_def kernel0_def dcb0_def kcb0_def)

theorem wakeup_set_correct_witness:
  "\<exists>s'. wakeup_set 3 7 example_timeouts = Some s' \<and> wakeup_queue s' [1, 3, 2]"
  using wakeup_set_correct [OF example_timeouts_queue, of 7 3]
  by (auto simp: example_timeouts_sel wakeup_insort_def)

theorem wakeup_remove_twice_fails_witness:
  "\<exists>s'. wakeup_remove 1 example_timeouts = Some s' \<and> wlinks s' [2] \<and> wakeup_remove 1 s' = None"
  using wakeup_remove_twice_fails [OF example_timeouts_queue, of 1]
  by (auto simp: example_timeouts_sel)

end
