(* ===== verification/Sched_RR.thy ===== *)
theory Sched_RR
  imports Wakeup
begin

text \<open>
  The round-robin scheduler of kernel/schedule_rr.c.  Runnable dispatchers form a ring,
  doubly linked through \<open>dcb_next\<close> and \<open>dcb_prev\<close>, that the current kcb enters at
  \<open>ring_current\<close>; a dispatcher is off the ring when both links are \<^verbatim>\<open>NULL\<close>.  \<^verbatim>\<open>schedule\<close>
  returns the new \<open>ring_current\<close>.
\<close>

section \<open>Operations\<close>

definition rr_schedule :: "kernel \<Rightarrow> (ptr \<times> kernel) option" where
  "rr_schedule s =
     (case ring_current (cur s) of
        None \<Rightarrow> Some (None, s)
      | Some rc \<Rightarrow> do {
          _ \<leftarrow> assert_that (dcb_next (dcbs s rc) \<noteq> None);
          _ \<leftarrow> assert_that (dcb_prev (dcbs s rc) \<noteq> None);
          let s = upd_cur (ring_current_update (\<lambda>_. dcb_next (dcbs s rc))) s;
          s \<leftarrow> (if config_oneshot_timer s
                then update_sched_timer (kernel_now s + scast (kernel_timeslice s)) s
                else Some s);
          Some (ring_current (cur s), s)
        })"

definition rr_make_runnable :: "addr \<Rightarrow> kernel \<Rightarrow> kernel option" where
  "rr_make_runnable d s =
     (if dcb_prev (dcbs s d) = None \<or> dcb_next (dcbs s d) = None then do {
        _ \<leftarrow> assert_that (dcb_prev (dcbs s d) = None \<and> dcb_next (dcbs s d) = None);
        let s = (if ring_current (cur s) = None
                 then upd_dcb d (dcb_next_update (\<lambda>_. Some d))
                        (upd_cur (ring_current_update (\<lambda>_. Some d)) s)
                 else s);
        rc \<leftarrow> ring_current (cur s);
        let s = upd_dcb d (dcb_prev_update (\<lambda>_. Some rc)) s;
        let s = upd_dcb d (dcb_next_update (\<lambda>_. dcb_next (dcbs s rc))) s;
        n \<leftarrow> dcb_next (dcbs s rc);
        let s = upd_dcb n (dcb_prev_update (\<lambda>_. Some d)) s;
        Some (upd_dcb rc (dcb_next_update (\<lambda>_. Some d)) s)
      } else Some s)"

definition rr_scheduler_remove :: "addr \<Rightarrow> kernel \<Rightarrow> kernel option" where
  "rr_scheduler_remove d s =
     (if dcb_prev (dcbs s d) = None \<or> dcb_next (dcbs s d) = None then do {
        _ \<leftarrow> assert_that (dcb_prev (dcbs s d) = None \<and> dcb_next (dcbs s d) = None);
        Some s
      } else do {
        rc \<leftarrow> ring_current (cur s);
        let nx = dcb_next (dcbs s rc);
        p \<leftarrow> dcb_prev (dcbs s d);
        let s = upd_dcb p (dcb_next_update (\<lambda>_. dcb_next (dcbs s d))) s;
        n \<leftarrow> dcb_next (dcbs s d);
        let s = upd_dcb n (dcb_prev_update (\<lambda>_. dcb_prev (dcbs s d))) s;
        let s = upd_dcb d (\<lambda>x. x\<lparr>dcb_prev := None, dcb_next := None\<rparr>) s;
        Some (if ring_current (cur s) = Some d
              then (if nx = Some d
                    then upd_cur (ring_current_update (\<lambda>_. None)) s
                    else upd_cur (ring_current_update (\<lambda>_. nx)) s)
              else s)
      })"

definition rr_scheduler_yield :: "addr \<Rightarrow> kernel \<Rightarrow> kernel option" where
  "rr_scheduler_yield d s =
     (if dcb_prev (dcbs s d) = None \<or> dcb_next (dcbs s d) = None then None else Some s)"

definition rr_scheduler_reset_time :: "kernel \<Rightarrow> kernel" where
  "rr_scheduler_reset_time s = s"

text \<open>The loop that adds back links to a queue left by the RBED scheduler.\<close>

partial_function (option) rr_link_back :: "ptr \<Rightarrow> ptr \<Rightarrow> kernel \<Rightarrow> kernel option" where
  "rr_link_back lst i s =
     (case i of
        None \<Rightarrow> Some s
      | Some a \<Rightarrow>
          (let s' = upd_dcb a (dcb_prev_update (\<lambda>_. lst)) s
           in rr_link_back (Some a) (dcb_next (dcbs s' a)) s'))"

definition rr_scheduler_convert :: "kernel \<Rightarrow> kernel option" where
  "rr_scheduler_convert s = do {
     s \<leftarrow> (case sched (cur s) of
             SCHED_RBED \<Rightarrow> do {
               s \<leftarrow> rr_link_back None (queue_head (cur s)) s;
               h \<leftarrow> queue_head (cur s);
               let s = upd_dcb h (dcb_prev_update (\<lambda>_. queue_tail (cur s))) s;
               t \<leftarrow> queue_tail (cur s);
               Some (upd_dcb t (dcb_next_update (\<lambda>_. queue_head (cur s))) s)
             }
           | SCHED_RR \<Rightarrow> Some s);
     Some (upd_cur (ring_current_update (\<lambda>_. queue_head (cur s))) s)
   }"

section \<open>The ring as a list\<close>

text \<open>
  \<open>rr_ring s xs\<close>: starting at \<open>ring_current\<close>, the ring visits \<open>xs\<close> and comes back; every
  other dispatcher is off the ring.
\<close>

definition rr_ring :: "kernel \<Rightarrow> addr list \<Rightarrow> bool" where
  "rr_ring s xs \<longleftrightarrow>
     distinct xs \<and> ring_current (cur s) = first_of xs \<and> cyc (snext s) (sprev s) xs \<and>
     (\<forall>d. d \<notin> set xs \<longrightarrow> snext s d = None \<and> sprev s d = None)"

text \<open>Any member of a ring can be taken as its first element.\<close>

lemma rr_ring_rotated:
  assumes "rr_ring s xs" "d \<in> set xs"
  obtains us vs where "xs = us @ d # vs" "d \<notin> set us" "d \<notin> set vs" "distinct (d # vs @ us)"
    "cyc (snext s) (sprev s) (d # vs @ us)"
proof -
  from assms(2) obtain us vs where xs: "xs = us @ d # vs"
    by (meson split_list)
  with assms(1) cyc_append_commute [of "snext s" "sprev s" us "d # vs"] show ?thesis
    by (intro that [of us vs]) (auto simp: rr_ring_def)
qed

lemma rr_ring_linked:
  assumes "rr_ring s xs"
  shows "snext s d \<noteq> None \<longleftrightarrow> d \<in> set xs" "sprev s d \<noteq> None \<longleftrightarrow> d \<in> set xs"
proof -
  have "snext s d \<noteq> None \<and> sprev s d \<noteq> None" if "d \<in> set xs"
  proof -
    from rr_ring_rotated [OF assms that] obtain us vs where
      "cyc (snext s) (sprev s) (d # vs @ us)" by metis
    from cyc_hd_neighbours [OF this] show ?thesis
      by (cases "vs @ us" rule: rev_cases) (auto simp: first_of_def split: list.splits)
  qed
  with assms show "snext s d \<noteq> None \<longleftrightarrow> d \<in> set xs" "sprev s d \<noteq> None \<longleftrightarrow> d \<in> set xs"
    by (auto simp: rr_ring_def)
qed

lemma rr_make_runnable_on: "rr_ring s xs \<Longrightarrow> d \<in> set xs \<Longrightarrow> rr_make_runnable d s = Some s"
  using rr_ring_linked [of s xs d] by (auto simp: rr_make_runnable_def snext_def sprev_def)

lemma rr_make_runnable_off:
  assumes "rr_ring s xs" "d \<notin> set xs"
  shows "\<exists>s'. rr_make_runnable d s = Some s' \<and>
           rr_ring s' (case xs of [] \<Rightarrow> [d] | c # ys \<Rightarrow> c # d # ys)"
proof (cases xs)
  case Nil
  with assms show ?thesis
    by (auto simp: rr_make_runnable_def rr_ring_def cyc_def
        snext_def [symmetric] sprev_def [symmetric])
next
  case (Cons c ys)
  from rr_ring_linked [OF assms(1), of c] Cons obtain n where n: "snext s c = Some n" by auto
  have cyc: "cyc (snext s) (sprev s) (c # ys)" using assms(1) Cons by (simp add: rr_ring_def)
  have "n = c \<or> n \<in> set ys" using cyc_hd_neighbours(1) [OF cyc] n by (cases ys) auto
  with cyc_link_snd [OF cyc _ _ _ n, of d] assms Cons n show ?thesis
    by (auto simp: rr_make_runnable_def rr_ring_def snext_def [symmetric] sprev_def [symmetric])
qed

lemma rr_scheduler_remove_off:
  "rr_ring s xs \<Longrightarrow> d \<notin> set xs \<Longrightarrow> rr_scheduler_remove d s = Some s"
  by (auto simp: rr_scheduler_remove_def rr_ring_def snext_def sprev_def)

lemma rr_scheduler_remove_on:
  assumes "rr_ring s xs" "d \<in> set xs"
  shows "\<exists>s'. rr_scheduler_remove d s = Some s' \<and> rr_ring s' (remove1 d xs)"
proof -
  from rr_ring_rotated [OF assms] obtain us vs where xs: "xs = us @ d # vs"
    "d \<notin> set us" "d \<notin> set vs" and dist: "distinct (d # vs @ us)"
    and cyc: "cyc (snext s) (sprev s) (d # vs @ us)" .
  from xs have rem: "remove1 d xs = us @ vs" by (simp add: remove1_append)
  note nb = cyc_hd_neighbours [OF cyc]
  from rr_ring_linked [OF assms(1), of d] assms(2) obtain p n where
    pn: "sprev s d = Some p" "snext s d = Some n" by auto
  from assms(1) have cur: "ring_current (cur s) = first_of (us @ [d])"
    by (cases us) (auto simp: rr_ring_def xs(1))
  have off: "\<And>a. a \<notin> set xs \<Longrightarrow> snext s a = None \<and> sprev s a = None"
    using assms(1) by (simp add: rr_ring_def)
  show ?thesis
  proof (cases "vs @ us = []")
    case True
    with nb pn cur off xs show ?thesis
      by (auto simp: rr_scheduler_remove_def Let_def rr_ring_def snext_def [symmetric]
          sprev_def [symmetric])
  next
    case False
    then have in_rest: "n \<in> set (vs @ us)" "p \<in> set (vs @ us)"
      using cyc_hd_neighbours_in [OF cyc False] pn by blast+
    define nx where "nx = (snext s)(p := snext s d, d := None)"
    define pv where "pv = (sprev s)(n := sprev s d, d := None)"
    have "cyc nx pv (vs @ us)"
      unfolding nx_def pv_def by (rule cyc_unlink_hd [OF cyc dist pn False])
    then have c: "cyc nx pv (us @ vs)" by (simp add: cyc_append_commute [of _ _ us vs])
    have rc: "first_of (us @ vs) = (if us = [] then snext s d else ring_current (cur s))"
      using nb(1) False cur by (cases us; cases vs) auto
    let ?s1 = "upd_dcb p (dcb_next_update (\<lambda>_. Some n)) s"
    let ?s3 = "upd_dcb d (\<lambda>x. x\<lparr>dcb_prev := None, dcb_next := None\<rparr>)
                 (upd_dcb n (dcb_prev_update (\<lambda>_. Some p)) ?s1)"
    let ?s4 = "if us = [] then upd_cur (ring_current_update (\<lambda>_. Some n)) ?s3 else ?s3"
    have "p \<noteq> d" "n \<noteq> d" using in_rest dist by auto
    then have "rr_scheduler_remove d s = Some ?s4"
      using pn cur xs(2) by (cases us)
        (simp_all add: rr_scheduler_remove_def Let_def snext_def sprev_def)
    moreover have sel: "snext ?s4 = nx" "sprev ?s4 = pv"
      "ring_current (cur ?s4) = first_of (us @ vs)"
      unfolding rc by (simp_all add: nx_def pv_def pn)
    moreover have "nx a = None \<and> pv a = None" if "a \<notin> set (us @ vs)" for a
      using that off [of a] xs(1) in_rest by (auto simp: nx_def pv_def)
    ultimately have "rr_scheduler_remove d s = Some ?s4 \<and> rr_ring ?s4 (us @ vs)"
      unfolding rr_ring_def sel using c dist by auto
    then show ?thesis using rem by auto
  qed
qed

text \<open>
  C21. The ring is kept by every operation: a dispatcher made runnable is inserted behind the
  current one, a removed dispatcher is taken out (and the entry point moves on if it was the
  current one), and both operations are no-ops when there is nothing to do.
\<close>

theorem rr_ring_operations:
  assumes "rr_ring s xs"
  shows "\<exists>s1 s2. rr_make_runnable d s = Some s1 \<and>
           rr_ring s1 (if d \<in> set xs then xs else case xs of [] \<Rightarrow> [d] | c # ys \<Rightarrow> c # d # ys) \<and>
           rr_scheduler_remove d s = Some s2 \<and> rr_ring s2 (remove1 d xs)"
  using assms rr_make_runnable_on [OF assms, of d] rr_make_runnable_off [OF assms, of d]
    rr_scheduler_remove_on [OF assms, of d] rr_scheduler_remove_off [OF assms, of d]
  by (cases "d \<in> set xs") (auto simp: remove1_idem)

section \<open>Scheduling is round robin\<close>

lemma rr_schedule_rotates:
  assumes "rr_ring s xs" "timer_good s"
    "config_oneshot_timer s \<Longrightarrow> kernel_now s + scast (kernel_timeslice s) \<noteq> 0"
  shows "\<exists>s'. rr_schedule s = Some (first_of (rotate1 xs), s') \<and> rr_ring s' (rotate1 xs) \<and>
           timer_good s' \<and> kernel_now s' = kernel_now s \<and>
           kernel_timeslice s' = kernel_timeslice s \<and>
           config_oneshot_timer s' = config_oneshot_timer s"
proof (cases xs)
  case Nil
  with assms show ?thesis by (auto simp: rr_schedule_def rr_ring_def)
next
  case (Cons c ys)
  let ?s = "upd_cur (ring_current_update (\<lambda>_. snext s c)) s"
  have lk: "ring_current (cur s) = Some c" "snext s c \<noteq> None" "sprev s c \<noteq> None"
    using assms(1) rr_ring_linked [OF assms(1), of c] Cons by (auto simp: rr_ring_def)
  have ring: "rr_ring ?s (rotate1 xs)"
    using assms(1) Cons cyc_append_commute [of "snext s" "sprev s" "[c]" ys]
      cyc_hd_neighbours(1) [of "snext s" "sprev s" c ys]
    by (auto simp: rr_ring_def)
  show ?thesis
  proof (cases "config_oneshot_timer s")
    case False
    with ring lk Cons assms show ?thesis
      by (auto simp: rr_schedule_def snext_def sprev_def rr_ring_def)
  next
    case True
    with assms have "timer_inv ?s" "kernel_now s + scast (kernel_timeslice s) \<noteq> 0"
      by (simp_all add: timer_good_def timer_inv_def)
    from update_sched_timer_correct [OF this] obtain s' where
      s': "update_sched_timer (kernel_now s + scast (kernel_timeslice s)) ?s = Some s'" "timer_inv s'"
      by blast
    note fr = update_sched_timer_frame [OF s'(1)]
    have "snext s' = snext ?s" "sprev s' = sprev ?s"
      using fr(1) by (simp_all add: snext_def sprev_def fun_eq_iff)
    then have r': "rr_ring s' (rotate1 xs)"
      using ring fr(2,3) by (simp add: rr_ring_def)
    then have "ring_current (cur s') = first_of (rotate1 xs)" by (simp add: rr_ring_def)
    with s' r' fr True lk show ?thesis
      by (auto simp: rr_schedule_def snext_def sprev_def timer_good_def)
  qed
qed

text \<open>Calling \<^verbatim>\<open>schedule\<close> \<open>n\<close> times in a row, collecting the dispatchers it returns.\<close>

fun rr_schedules :: "nat \<Rightarrow> kernel \<Rightarrow> (ptr list \<times> kernel) option" where
  "rr_schedules 0 s = Some ([], s)"
| "rr_schedules (Suc n) s = do {
     (d, s) \<leftarrow> rr_schedule s;
     (ds, s) \<leftarrow> rr_schedules n s;
     Some (d # ds, s)
   }"

lemma rr_schedules_spec:
  assumes "rr_ring s xs" "timer_good s"
    "config_oneshot_timer s \<Longrightarrow> kernel_now s + scast (kernel_timeslice s) \<noteq> 0"
  shows "\<exists>s'. rr_schedules n s = Some (map (\<lambda>i. first_of (rotate (Suc i) xs)) [0..<n], s') \<and>
           rr_ring s' (rotate n xs)"
  using assms
proof (induction n arbitrary: s xs)
  case 0
  then show ?case by auto
next
  case (Suc n)
  from rr_schedule_rotates [OF Suc.prems] obtain s1 where
    s1: "rr_schedule s = Some (first_of (rotate1 xs), s1)" "rr_ring s1 (rotate1 xs)" "timer_good s1"
      "kernel_now s1 = kernel_now s" "kernel_timeslice s1 = kernel_timeslice s"
      "config_oneshot_timer s1 = config_oneshot_timer s"
    by blast
  from Suc.IH [OF s1(2,3)] s1 Suc.prems(3) obtain s' where
    "rr_schedules n s1 = Some (map (\<lambda>i. first_of (rotate (Suc i) (rotate1 xs))) [0..<n], s')"
    "rr_ring s' (rotate n (rotate1 xs))" by auto
  with s1(1) show ?case
    by (auto simp: rotate1_rotate_swap map_upt_Suc simp del: upt_Suc)
qed


section \<open>Taking over the queue of the RBED scheduler\<close>

lemma rr_link_back_spec:
  assumes "lseg (snext s) i xs None"
  shows "\<exists>s'. rr_link_back b i s = Some s' \<and> dseg (snext s') (sprev s') b i xs None \<and>
           snext s' = snext s \<and> (\<forall>a. a \<notin> set xs \<longrightarrow> sprev s' a = sprev s a) \<and>
           kcbs s' = kcbs s \<and> kcb_current s' = kcb_current s"
  using assms
proof (induction xs arbitrary: s b i)
  case Nil
  then show ?case by (auto simp: rr_link_back.simps)
next
  case (Cons x xs)
  let ?s = "upd_dcb x (dcb_prev_update (\<lambda>_. b)) s"
  from Cons.prems have i: "i = Some x" "lseg (snext ?s) (dcb_next (dcbs ?s x)) xs None"
    by (auto simp: snext_def [symmetric])
  from lseg_distinct [OF Cons.prems] have x: "x \<notin> set xs" by simp
  from Cons.IH [OF i(2), of "Some x"] obtain s' where
    s': "rr_link_back (Some x) (dcb_next (dcbs ?s x)) ?s = Some s'"
      "dseg (snext s') (sprev s') (Some x) (dcb_next (dcbs ?s x)) xs None" "snext s' = snext s"
      "\<And>a. a \<notin> set xs \<Longrightarrow> sprev s' a = sprev ?s a"
      "kcbs s' = kcbs s" "kcb_current s' = kcb_current s"
    by auto
  have "rr_link_back b i s = Some s'"
    using s'(1) by (simp add: rr_link_back.simps [of b] i(1) Let_def)
  with s' i x show ?case by (auto simp: snext_def [symmetric])
qed

text \<open>
  Converting from the RBED scheduler: a non-empty run queue \<open>xs\<close>, linked through \<open>next\<close>
  only, becomes the ring \<open>xs\<close> entered at the old head, with all back links in place.
\<close>

theorem rr_scheduler_convert_ring:
  assumes "sched (cur s) = SCHED_RBED" "xs \<noteq> []"
    "lseg (snext s) (queue_head (cur s)) xs None" "queue_tail (cur s) = Some (last xs)"
    "\<forall>d. d \<notin> set xs \<longrightarrow> snext s d = None \<and> sprev s d = None"
  shows "\<exists>s'. rr_scheduler_convert s = Some s' \<and> rr_ring s' xs"
proof -
  obtain x ys where xs: "xs = x # ys" using assms(2) by (cases xs) auto
  with assms(3) have h: "queue_head (cur s) = Some x" by simp
  note dist = lseg_distinct [OF assms(3)]
  from rr_link_back_spec [OF assms(3), of None] obtain s1 where
    s1: "rr_link_back None (queue_head (cur s)) s = Some s1"
      "dseg (snext s1) (sprev s1) None (Some x) xs None" "snext s1 = snext s"
      "\<And>a. a \<notin> set xs \<Longrightarrow> sprev s1 a = sprev s a" "kcbs s1 = kcbs s" "kcb_current s1 = kcb_current s"
    using h by auto
  let ?s2 = "upd_dcb (last xs) (dcb_next_update (\<lambda>_. Some x))
               (upd_dcb x (dcb_prev_update (\<lambda>_. Some (last xs))) s1)"
  let ?s3 = "upd_cur (ring_current_update (\<lambda>_. Some x)) ?s2"
  have "rr_scheduler_convert s = Some ?s3"
    using assms(1,4) s1(1,5,6) h by (simp add: rr_scheduler_convert_def)
  moreover have "cyc (snext ?s3) (sprev ?s3) xs"
    using s1(2) dist xs by (cases ys rule: rev_cases) (auto simp: cyc_def)
  moreover have "\<forall>d. d \<notin> set xs \<longrightarrow> snext ?s3 d = None \<and> sprev ?s3 d = None"
    using assms(5) s1(3,4) xs by (auto simp: last_ConsL last_ConsR)
  ultimately show ?thesis
    using dist s1(5,6) xs by (auto simp: rr_ring_def)
qed

section \<open>The round-robin scheduler as a provider for the timeout queue\<close>

definition rr_runnable :: "kernel \<Rightarrow> addr \<Rightarrow> bool" where
  "rr_runnable s d \<longleftrightarrow> snext s d \<noteq> None"

definition rr_ok :: "kernel \<Rightarrow> bool" where
  "rr_ok s \<longleftrightarrow> (\<exists>xs. rr_ring s xs)"

lemma rr_make_runnable_frame: "rr_make_runnable d s = Some s' \<Longrightarrow> wakeup_frame s s'"
  by (auto simp: rr_make_runnable_def wakeup_frame_def Let_def bind_eq_Some_conv split: if_splits)

lemma rr_make_runnable_ring:
  assumes "rr_ring s xs" "rr_make_runnable d s = Some s'"
  shows "\<exists>ys. rr_ring s' ys \<and> set ys = insert d (set xs)"
  using rr_make_runnable_on [OF assms(1), of d] rr_make_runnable_off [OF assms(1), of d] assms
  by (cases "d \<in> set xs") (auto split: list.splits)

interpretation rr: runnable_provider rr_make_runnable rr_runnable rr_ok
proof
  fix d a s s' t
  show "wakeup_frame s s'" if "rr_make_runnable d s = Some s'"
    using that by (rule rr_make_runnable_frame)
  show "rr_runnable s' a \<longleftrightarrow> rr_runnable s a \<or> a = d" "rr_ok s'"
    if "rr_ok s" "rr_make_runnable d s = Some s'"
  proof -
    from that obtain xs where xs: "rr_ring s xs" by (auto simp: rr_ok_def)
    from rr_make_runnable_ring [OF xs that(2)] obtain ys where
      ys: "rr_ring s' ys" "set ys = insert d (set xs)" by blast
    from ys rr_ring_linked(1) [OF ys(1), of a] rr_ring_linked(1) [OF xs, of a]
    show "rr_runnable s' a \<longleftrightarrow> rr_runnable s a \<or> a = d" "rr_ok s'"
      by (auto simp: rr_ok_def rr_runnable_def)
  qed
  show "rr_ok t" if "erase_wakeup s = erase_wakeup t" "rr_ok s"
    using that by (auto simp: rr_ok_def rr_ring_def erase_wakeup_eqD [OF that(1)])
  show "rr_runnable s a \<longleftrightarrow> rr_runnable t a" if "erase_wakeup s = erase_wakeup t"
    using that by (simp add: rr_runnable_def erase_wakeup_eqD [OF that(1)])
qed

text \<open>
  C33. With the round-robin scheduler, \<^verbatim>\<open>wakeup_check\<close> always returns: every dispatcher whose
  wakeup time has come is on the ring afterwards and no longer queued for a timeout, the
  others stay queued in order, and the ring gains no other dispatcher and loses none.
\<close>

theorem rr_wakeup_check_correct:
  assumes "wakeup_queue s xs" "rr_ring s rs" "timer_good s"
  shows "\<exists>s' rs'. wakeup_check rr_make_runnable now s = Some s' \<and>
           wakeup_queue s' (filter (\<lambda>d. now < wtime s d) xs) \<and> rr_ring s' rs' \<and>
           set rs' = set rs \<union> {d \<in> set xs. wtime s d \<le> now}"
proof -
  have ok: "rr_ok s" using assms(2) by (auto simp: rr_ok_def)
  have tot: "\<exists>t'. rr_make_runnable d t = Some t'" if "rr_ok t" for d t
    using that rr_make_runnable_on [of t _ d] rr_make_runnable_off [of t _ d]
    by (fastforce simp: rr_ok_def)
  from rr.check_total [OF assms(1) ok assms(3) tot, of now] obtain s' rs' where
    s': "wakeup_check rr_make_runnable now s = Some s'"
      "wakeup_queue s' (filter (\<lambda>d. now < wtime s d) xs)" "rr_ring s' rs'"
      "\<And>a. rr_runnable s' a \<longleftrightarrow> rr_runnable s a \<or> a \<in> set xs \<and> wtime s a \<le> now"
    by (auto simp: rr_ok_def)
  have "a \<in> set rs' \<longleftrightarrow> a \<in> set rs \<or> a \<in> set xs \<and> wtime s a \<le> now" for a
    using s'(4) [of a] rr_ring_linked(1) [OF s'(3), of a] rr_ring_linked(1) [OF assms(2), of a]
    by (auto simp: rr_runnable_def)
  then have "set rs' = set rs \<union> {d \<in> set xs. wtime s d \<le> now}" by blast
  with s' show ?thesis by blast
qed

section \<open>An example\<close>

text \<open>Dispatchers 1 and 2 are runnable, dispatcher 3 waits for time 5.\<close>

definition example_ring :: kernel where
  "example_ring = kernel0\<lparr>
     dcbs := (\<lambda>_. dcb0)(1 := dcb0\<lparr>dcb_next := Some 2, dcb_prev := Some 2\<rparr>,
                       2 := dcb0\<lparr>dcb_next := Some 1, dcb_prev := Some 1\<rparr>,
                       3 := dcb0\<lparr>wakeup_time := 5\<rparr>),
     kcbs := (\<lambda>_. kcb0)(0 := kcb0\<lparr>ring_current := Some 1, wakeup_queue_head := Some 3\<rparr>)\<rparr>"

lemma example_ring_sel:
  "timer_good example_ring" "\<not> config_oneshot_timer example_ring"
  "wtime example_ring = (\<lambda>_. 0)(3 := 5)"
  by (auto simp: example_ring_def wtime_def kernel0_def dcb0_def timer_good_def)

lemma example_ring_ring: "rr_ring example_ring [1, 2]"
  by (auto simp: rr_ring_def cyc_def example_ring_def snext_def sprev_def kernel0_def dcb0_def kcb0_def)

lemma example_ring_timeouts: "wakeup_queue example_ring [3]"
  unfolding wakeup_queue_def wlinks_def example_ring_sel
  by (auto simp: example_ring_def wnext_def wprev_def whead_def kernel0_def dcb0_def kcb0_def)

text \<open>A run queue of the RBED scheduler.\<close>

definition example_rbed_queue :: kernel where
  "example_rbed_queue = kernel0\<lparr>
     dcbs := (\<lambda>_. dcb0)(1 := dcb0\<lparr>dcb_next := Some 2\<rparr>),
     kcbs := (\<lambda>_. kcb0)(0 := kcb0\<lparr>sched := SCHED_RBED, queue_head := Some 1, queue_tail := Some 2\<rparr>)\<rparr>"

theorem rr_ring_operations_witness:
  "\<exists>s1 s2. rr_make_runnable 3 example_ring = Some s1 \<and> rr_ring s1 [1, 3, 2] \<and>
     rr_scheduler_remove 3 example_ring = Some s2 \<and> rr_ring s2 [1, 2]"
  using rr_ring_operations [OF example_ring_ring, of 3] by simp


theorem rr_scheduler_convert_ring_witness:
  "\<exists>s'. rr_scheduler_convert example_rbed_queue = Some s' \<and> rr_ring s' [1, 2]"
  by (rule rr_scheduler_convert_ring)
    (auto simp: example_rbed_queue_def snext_def sprev_def kernel0_def dcb0_def kcb0_def)

theorem rr_wakeup_check_correct_witness:
  "\<exists>s' rs'. wakeup_check rr_make_runnable 6 example_ring = Some s' \<and>
     wakeup_queue s' [] \<and> rr_ring s' rs' \<and> set rs' = {1, 2, 3}"
proof -
  have "{1, 2} \<union> {d \<in> set [3 :: nat]. wtime example_ring d \<le> 6} = {1, 2, 3}"
    by (auto simp: example_ring_sel)
  with rr_wakeup_check_correct [OF example_ring_timeouts example_ring_ring example_ring_sel(1), of 6]
  show ?thesis by (auto simp: example_ring_sel)
qed

end
