(* ===== verification/Sched_RBED.thy ===== *)
theory Sched_RBED
  imports Wakeup
begin

text \<open>
  The rate-based earliest-deadline scheduler of kernel/schedule_rbed.c.  The run queue is a
  singly linked list through \<open>dcb_next\<close> from \<open>queue_head\<close> to \<open>queue_tail\<close> of the current
  kcb; the global \<open>g_queue_tail\<close> shadows the tail for the assembly code.  All arithmetic is
  at its C width: \<^verbatim>\<open>unsigned int\<close> is 32 bits, \<^verbatim>\<open>unsigned long\<close> and \<^verbatim>\<open>size_t\<close> are 64 bits, and
  both wrap around.  A division by zero traps.
\<close>

section \<open>Utilization\<close>

definition SPECTRUM :: nat where "SPECTRUM = 1000000"

definition BETA :: nat where "BETA = SPECTRUM div 10"

abbreviation SPECTRUM32 :: u32 where "SPECTRUM32 \<equiv> of_nat SPECTRUM"

abbreviation BETA32 :: u32 where "BETA32 \<equiv> of_nat BETA"

definition in_queue :: "addr \<Rightarrow> kernel \<Rightarrow> bool" where
  "in_queue d s \<longleftrightarrow> dcb_next (dcbs s d) \<noteq> None \<or> queue_tail (cur s) = Some d"

definition u_target :: "dcb \<Rightarrow> u32 option" where
  "u_target x =
     (if period x = 0 then None else Some (ucast ((wcet x * of_nat SPECTRUM) div period x)))"

lemma u_target_etime [simp]: "u_target (x\<lparr>etime := e\<rparr>) = u_target x"
  by (simp add: u_target_def)

definition u_actual_srt :: "addr \<Rightarrow> kernel \<Rightarrow> u32 option" where
  "u_actual_srt d s = do {
     ut \<leftarrow> u_target (dcbs s d);
     if ut \<noteq> 0 then do {
       let q = u_srt (cur s) div ut;
       _ \<leftarrow> assert_that (q \<noteq> 0);
       let v = (1 - BETA32 - u_hrt (cur s)) div q;
       Some (if ut < v then ut else v)
     } else Some 0
   }"

definition deadline :: "dcb \<Rightarrow> u64" where
  "deadline x = release_time x + dcb_deadline x"

section \<open>The run queue\<close>

text \<open>Whether \<^verbatim>\<open>queue_insert\<close> walks past the queued dispatcher \<open>i\<close>.\<close>

definition queue_skips :: "dcb \<Rightarrow> dcb \<Rightarrow> bool" where
  "queue_skips d i \<longleftrightarrow>
     (dcb_type d = TASK_TYPE_BEST_EFFORT \<and> release_time d \<ge> release_time i) \<or>
     deadline d \<ge> deadline i"

partial_function (option) queue_find ::
  "kernel \<Rightarrow> addr \<Rightarrow> ptr \<Rightarrow> ptr \<Rightarrow> (ptr \<times> ptr) option" where
  "queue_find s d prev i =
     (case i of
        None \<Rightarrow> Some (prev, i)
      | Some a \<Rightarrow>
          if queue_skips (dcbs s d) (dcbs s a)
          then queue_find s d i (dcb_next (dcbs s a))
          else Some (prev, i))"

definition queue_insert :: "addr \<Rightarrow> kernel \<Rightarrow> kernel option" where
  "queue_insert d s =
     (if queue_head (cur s) = None then do {
        _ \<leftarrow> assert_that (queue_tail (cur s) = None);
        Some ((upd_cur (\<lambda>k. k\<lparr>queue_head := Some d, queue_tail := Some d\<rparr>) s)\<lparr>g_queue_tail := Some d\<rparr>)
      } else do {
        (prev, i) \<leftarrow> queue_find s d None (queue_head (cur s));
        (case i of
           Some a \<Rightarrow>
             (let s = upd_dcb d (dcb_next_update (\<lambda>_. Some a)) s in
              Some (case prev of
                      None \<Rightarrow> upd_cur (queue_head_update (\<lambda>_. Some d)) s
                    | Some p \<Rightarrow> upd_dcb p (dcb_next_update (\<lambda>_. Some d)) s))
         | None \<Rightarrow> do {
             t \<leftarrow> queue_tail (cur s);
             let s = upd_dcb t (dcb_next_update (\<lambda>_. Some d)) s;
             Some ((upd_cur (queue_tail_update (\<lambda>_. Some d)) s)\<lparr>g_queue_tail := Some d\<rparr>)
           })
      })"

text \<open>The loop of \<^verbatim>\<open>queue_remove\<close>: the queued dispatcher whose \<^verbatim>\<open>next\<close> is \<open>d\<close>, if any.\<close>

partial_function (option) queue_find_pred :: "kernel \<Rightarrow> addr \<Rightarrow> ptr \<Rightarrow> ptr option" where
  "queue_find_pred s d i =
     (case i of
        None \<Rightarrow> Some None
      | Some a \<Rightarrow>
          if dcb_next (dcbs s a) = Some d then Some (Some a)
          else queue_find_pred s d (dcb_next (dcbs s a)))"

definition queue_remove :: "addr \<Rightarrow> kernel \<Rightarrow> kernel option" where
  "queue_remove d s =
     (if \<not> in_queue d s then Some s
      else do {
        s \<leftarrow> (if queue_head (cur s) = Some d then
                (let s = upd_cur (queue_head_update (\<lambda>_. dcb_next (dcbs s d))) s in
                 Some (if queue_head (cur s) = None
                       then (upd_cur (queue_tail_update (\<lambda>_. None)) s)\<lparr>g_queue_tail := None\<rparr>
                       else s))
              else do {
                i \<leftarrow> queue_find_pred s d (queue_head (cur s));
                Some (case i of
                        None \<Rightarrow> s
                      | Some a \<Rightarrow>
                          (let s = upd_dcb a (dcb_next_update (\<lambda>_. dcb_next (dcbs s d))) s in
                           if queue_tail (cur s) = Some d
                           then (upd_cur (queue_tail_update (\<lambda>_. Some a)) s)\<lparr>g_queue_tail := Some a\<rparr>
                           else s))
              });
        Some (upd_dcb d (dcb_next_update (\<lambda>_. None)) s)
      })"

section \<open>Resource allocation\<close>

definition UINT_MAX :: u32 where "UINT_MAX = - 1"

definition do_resource_allocation :: "addr \<Rightarrow> kernel \<Rightarrow> (u32 \<times> kernel) option" where
  "do_resource_allocation d s =
     (case dcb_type (dcbs s d) of
        TASK_TYPE_HARD_REALTIME \<Rightarrow> map_option (\<lambda>u. (u, s)) (u_target (dcbs s d))
      | TASK_TYPE_SOFT_REALTIME \<Rightarrow> map_option (\<lambda>u. (u, s)) (u_actual_srt d s)
      | TASK_TYPE_BEST_EFFORT \<Rightarrow> do {
          _ \<leftarrow> assert_that (w_be (cur s) > 0 \<and> n_be (cur s) > 0);
          _ \<leftarrow> assert_that (ucast (weight (dcbs s d)) < UINT_MAX div SPECTRUM32);
          let rest = SPECTRUM32 - u_hrt (cur s) - u_srt (cur s);
          let u_actual = ((if BETA32 > rest then BETA32 else rest) * ucast (weight (dcbs s d)))
                         div w_be (cur s);
          let p = ucast (n_be (cur s) * kernel_timeslice s);
          Some (u_actual, upd_dcb d (\<lambda>x. x\<lparr>period := p, dcb_deadline := p\<rparr>) s)
        })"

definition set_best_effort_wcet :: "addr \<Rightarrow> kernel \<Rightarrow> kernel option" where
  "set_best_effort_wcet d s = do {
     (u_actual, s) \<leftarrow> do_resource_allocation d s;
     let wcet_undiv = (ucast (n_be (cur s) * kernel_timeslice s * u_actual) :: u64);
     _ \<leftarrow> assert_that (u_hrt (cur s) + u_srt (cur s) + u_actual \<le> SPECTRUM32);
     let w = wcet_undiv div of_nat SPECTRUM;
     Some (upd_dcb d (wcet_update (\<lambda>_.
       if wcet_undiv mod of_nat SPECTRUM > of_nat (SPECTRUM div 2) then w + 1 else w)) s)
   }"

section \<open>Scheduling\<close>

partial_function (option) skip_future :: "kernel \<Rightarrow> ptr \<Rightarrow> ptr option" where
  "skip_future s i =
     (case i of
        None \<Rightarrow> Some None
      | Some a \<Rightarrow>
          if release_time (dcbs s a) > kernel_now s
          then skip_future s (dcb_next (dcbs s a))
          else Some (Some a))"

text \<open>Accounting the time of the last dispatched task, at the start of \<^verbatim>\<open>schedule\<close>.\<close>

definition account_last :: "kernel \<Rightarrow> kernel option" where
  "account_last s =
     (case lastdisp s of
        None \<Rightarrow> Some s
      | Some l \<Rightarrow> do {
          _ \<leftarrow> assert_that (last_dispatch (dcbs s l) \<le> kernel_now s);
          Some (if release_time (dcbs s l) \<le> kernel_now s
                then upd_dcb l (\<lambda>x. x\<lparr>etime := etime x +
                       (kernel_now s - (if last_dispatch x > release_time x
                                        then last_dispatch x else release_time x))\<rparr>) s
                else s)
        })"

text \<open>Lazy resource allocation of the selected task, with the re-release of a late one.\<close>

definition allocate_selected :: "addr \<Rightarrow> kernel \<Rightarrow> kernel option" where
  "allocate_selected t s =
     (if dcb_type (dcbs s t) = TASK_TYPE_BEST_EFFORT then do {
        s \<leftarrow> set_best_effort_wcet t s;
        Some (if deadline (dcbs s t) < kernel_now s
              then upd_dcb t (release_time_update (\<lambda>_. kernel_now s)) s else s)
      } else Some s)"

text \<open>Dispatching the selected task \<open>t\<close>, which is within its budget.\<close>

definition dispatch_selected :: "addr \<Rightarrow> kernel \<Rightarrow> (ptr \<times> kernel) option" where
  "dispatch_selected t s =
     (let s = upd_dcb t (last_dispatch_update (\<lambda>_. kernel_now s)) s in
      if lastdisp s = Some t \<and> (case dcb_current s of None \<Rightarrow> False | Some c \<Rightarrow> in_queue c s)
      then Some (dcb_current s, s)
      else do {
        let s = s\<lparr>lastdisp := Some t\<rparr>;
        s \<leftarrow> (if config_oneshot_timer s
              then update_sched_timer (kernel_now s + (wcet (dcbs s t) - etime (dcbs s t))) s
              else Some s);
        Some (Some t, s)
      })"

text \<open>Putting a task that is over budget back on the queue.\<close>

definition requeue_selected :: "addr \<Rightarrow> kernel \<Rightarrow> kernel option" where
  "requeue_selected t s = do {
     s \<leftarrow> queue_remove t s;
     let s = upd_dcb t (\<lambda>x.
       if dcb_type x \<noteq> TASK_TYPE_BEST_EFFORT
       then (if kernel_now s > release_time x then x\<lparr>release_time := release_time x + period x\<rparr> else x)
       else x\<lparr>release_time := kernel_now s\<rparr>) s;
     let s = upd_dcb t (etime_update (\<lambda>_. 0)) s;
     s \<leftarrow> queue_insert t s;
     Some (s\<lparr>lastdisp := None\<rparr>)
   }"

text \<open>From the label \<^verbatim>\<open>start_over\<close> of \<^verbatim>\<open>schedule\<close> to its end.\<close>

partial_function (option) rbed_start_over :: "kernel \<Rightarrow> (ptr \<times> kernel) option" where
  "rbed_start_over s =
     Option.bind (skip_future s (queue_head (cur s))) (\<lambda>todisp.
       case todisp of
         None \<Rightarrow> Some (None, s\<lparr>lastdisp := None\<rparr>)
       | Some t \<Rightarrow>
           Option.bind (allocate_selected t s) (\<lambda>s.
             if dcb_type (dcbs s t) = TASK_TYPE_HARD_REALTIME \<and> kernel_now s > deadline (dcbs s t)
             then None
             else if \<not> deadline (dcbs s t) \<ge> kernel_now s then None
             else if etime (dcbs s t) < wcet (dcbs s t) then dispatch_selected t s
             else Option.bind (requeue_selected t s) rbed_start_over))"

definition rbed_schedule :: "kernel \<Rightarrow> (ptr \<times> kernel) option" where
  "rbed_schedule s = do {
     _ \<leftarrow> assert_that (u_hrt (cur s) + u_srt (cur s) + BETA32 \<le> SPECTRUM32);
     s \<leftarrow> account_last s;
     rbed_start_over s
   }"

section \<open>Changing the set of runnable tasks\<close>

definition rbed_make_runnable :: "addr \<Rightarrow> kernel \<Rightarrow> kernel option" where
  "rbed_make_runnable d s =
     (if in_queue d s then Some s
      else do {
        s \<leftarrow> (case dcb_type (dcbs s d) of
                TASK_TYPE_BEST_EFFORT \<Rightarrow>
                  (let s = (if weight (dcbs s d) = 0
                            then upd_dcb d (weight_update (\<lambda>_. 1)) s else s);
                       s = upd_cur (\<lambda>k. k\<lparr>w_be := w_be k + ucast (weight (dcbs s d)),
                                          n_be := n_be k + 1\<rparr>) s;
                       p = ucast (n_be (cur s) * kernel_timeslice s)
                   in Some (upd_dcb d (\<lambda>x. x\<lparr>period := p, dcb_deadline := p,
                                              release_time := kernel_now s\<rparr>) s))
              | TASK_TYPE_SOFT_REALTIME \<Rightarrow> None
              | TASK_TYPE_HARD_REALTIME \<Rightarrow> do {
                  u \<leftarrow> u_target (dcbs s d);
                  Some (upd_cur (\<lambda>k. k\<lparr>u_hrt := u_hrt k + u\<rparr>) s)
                });
        if u_hrt (cur s) + u_srt (cur s) + BETA32 > SPECTRUM32 then None
        else if release_time (dcbs s d) < kernel_now s then None
        else queue_insert d (upd_dcb d (etime_update (\<lambda>_. 0)) s)
      })"

definition rbed_scheduler_remove :: "addr \<Rightarrow> kernel \<Rightarrow> kernel option" where
  "rbed_scheduler_remove d s =
     (if \<not> in_queue d s then Some s
      else do {
        s \<leftarrow> queue_remove d s;
        (case dcb_type (dcbs s d) of
           TASK_TYPE_BEST_EFFORT \<Rightarrow>
             Some (upd_cur (\<lambda>k. k\<lparr>w_be := w_be k - ucast (weight (dcbs s d)), n_be := n_be k - 1\<rparr>) s)
         | TASK_TYPE_SOFT_REALTIME \<Rightarrow> None
         | TASK_TYPE_HARD_REALTIME \<Rightarrow> do {
             u \<leftarrow> u_target (dcbs s d);
             Some (upd_cur (\<lambda>k. k\<lparr>u_hrt := u_hrt k - u\<rparr>) s)
           })
      })"

definition rbed_scheduler_yield :: "addr \<Rightarrow> kernel \<Rightarrow> kernel option" where
  "rbed_scheduler_yield d s =
     (if \<not> in_queue d s \<or> release_time (dcbs s d) > kernel_now s then Some s
      else do {
        s \<leftarrow> queue_remove d s;
        let s = upd_dcb d (\<lambda>x.
          case dcb_type x of
            TASK_TYPE_HARD_REALTIME \<Rightarrow> x\<lparr>release_time := release_time x + period x\<rparr>
          | TASK_TYPE_SOFT_REALTIME \<Rightarrow> x\<lparr>release_time := release_time x + period x\<rparr>
          | TASK_TYPE_BEST_EFFORT \<Rightarrow> x\<lparr>release_time := kernel_now s\<rparr>) s;
        let s = (upd_dcb d (etime_update (\<lambda>_. 0)) s)\<lparr>lastdisp := None\<rparr>;
        queue_insert d s
      })"

partial_function (option) reset_queue :: "ptr \<Rightarrow> kernel \<Rightarrow> kernel option" where
  "reset_queue i s =
     (case i of
        None \<Rightarrow> Some s
      | Some a \<Rightarrow>
          (let s' = upd_dcb a (\<lambda>x. x\<lparr>release_time := 0, etime := 0, last_dispatch := 0\<rparr>) s
           in reset_queue (dcb_next (dcbs s' a)) s'))"

partial_function (option) reset_kcbs :: "addr \<Rightarrow> kernel \<Rightarrow> kernel option" where
  "reset_kcbs k s =
     Option.bind (reset_queue (queue_head (kcbs s k)) s) (\<lambda>s.
       case kcb_next (kcbs s k) of
         None \<Rightarrow> Some s
       | Some k' \<Rightarrow> if k' = kcb_current s then Some s else reset_kcbs k' s)"

definition rbed_scheduler_reset_time :: "kernel \<Rightarrow> kernel option" where
  "rbed_scheduler_reset_time s = do {
     s \<leftarrow> reset_kcbs (kcb_current s) (s\<lparr>kernel_now := 0\<rparr>);
     Some (s\<lparr>lastdisp := None\<rparr>)
   }"

text \<open>The do-while loop of \<^verbatim>\<open>scheduler_convert\<close> over the ring of the RR scheduler.\<close>

partial_function (option) convert_ring :: "addr \<Rightarrow> kernel \<Rightarrow> kernel option" where
  "convert_ring i s =
     (let s = upd_dcb i (dcb_type_update (\<lambda>_. TASK_TYPE_BEST_EFFORT)) s;
          tmp = dcb_next (dcbs s i);
          s = upd_dcb i (\<lambda>x. x\<lparr>dcb_next := None, dcb_prev := None\<rparr>) s
      in Option.bind (rbed_make_runnable i s) (\<lambda>s.
           if tmp = ring_current (cur s) then Some s
           else (case tmp of None \<Rightarrow> None | Some i' \<Rightarrow> convert_ring i' s)))"

definition rbed_scheduler_convert :: "kernel \<Rightarrow> kernel option" where
  "rbed_scheduler_convert s =
     (case sched (cur s) of
        SCHED_RBED \<Rightarrow> Some s
      | SCHED_RR \<Rightarrow> Option.bind (ring_current (cur s)) (\<lambda>i. convert_ring i s))"

definition rbed_scheduler_restore_state :: "kernel \<Rightarrow> kernel option" where
  "rbed_scheduler_restore_state s = rbed_scheduler_reset_time s"

section \<open>The run queue as a list\<close>

definition rbed_links :: "kernel \<Rightarrow> addr list \<Rightarrow> bool" where
  "rbed_links s xs \<longleftrightarrow>
     lseg (snext s) (queue_head (cur s)) xs None \<and> queue_tail (cur s) = last_or None xs \<and>
     g_queue_tail s = queue_tail (cur s)"

text \<open>The representation invariant: moreover, only queued dispatchers have a successor.\<close>

definition rbed_queue :: "kernel \<Rightarrow> addr list \<Rightarrow> bool" where
  "rbed_queue s xs \<longleftrightarrow> rbed_links s xs \<and> (\<forall>d. d \<notin> set xs \<longrightarrow> snext s d = None)"

text \<open>Everything but the links of the run queue.\<close>

definition erase_queue :: "kernel \<Rightarrow> kernel" where
  "erase_queue s = s\<lparr>
     dcbs := (\<lambda>d. (dcbs s d)\<lparr>dcb_next := None\<rparr>),
     kcbs := (kcbs s)(kcb_current s := (cur s)\<lparr>queue_head := None, queue_tail := None\<rparr>),
     g_queue_tail := None\<rparr>"

lemma erase_queue_upd_dcb [simp]:
  "(\<And>x. (f x)\<lparr>dcb_next := None\<rparr> = x\<lparr>dcb_next := None\<rparr>) \<Longrightarrow>
   erase_queue (upd_dcb d f s) = erase_queue s"
  by (auto simp: erase_queue_def upd_dcb_def fun_eq_iff)

lemma erase_queue_upd_cur [simp]:
  "(\<And>x. (g x)\<lparr>queue_head := None, queue_tail := None\<rparr> = x\<lparr>queue_head := None, queue_tail := None\<rparr>) \<Longrightarrow>
   erase_queue (upd_cur g s) = erase_queue s"
  by (auto simp: erase_queue_def upd_cur_def upd_kcb_def fun_eq_iff)

lemma erase_queue_upd_tail [simp]: "erase_queue (s\<lparr>g_queue_tail := t\<rparr>) = erase_queue s"
  by (simp add: erase_queue_def)

lemma sched_sel_upd_tail [simp]:
  "snext (s\<lparr>g_queue_tail := t\<rparr>) = snext s" "sprev (s\<lparr>g_queue_tail := t\<rparr>) = sprev s"
  "snext (s\<lparr>lastdisp := t\<rparr>) = snext s" "sprev (s\<lparr>lastdisp := t\<rparr>) = sprev s"
  by (auto simp: snext_def sprev_def)

lemma in_queue_iff: "rbed_queue s xs \<Longrightarrow> in_queue d s \<longleftrightarrow> d \<in> set xs"
  using lseg_next_None [of "snext s" "queue_head (cur s)" xs d] last_or_in [of None xs d]
  by (cases "xs = []") (auto simp: rbed_queue_def rbed_links_def in_queue_def snext_def [symmetric] last_or_nonempty)

lemma queue_find_spec:
  assumes "lseg (snext s) h xs None"
  shows "queue_find s d p h =
           Some (last_or p (takeWhile (\<lambda>a. queue_skips (dcbs s d) (dcbs s a)) xs),
                 first_of (dropWhile (\<lambda>a. queue_skips (dcbs s d) (dcbs s a)) xs))"
  using assms
proof (induction xs arbitrary: h p)
  case Nil
  then show ?case by (simp add: queue_find.simps)
next
  case (Cons x xs)
  from Cons.prems have h: "h = Some x" "lseg (snext s) (dcb_next (dcbs s x)) xs None"
    by (auto simp: snext_def [symmetric])
  from Cons.IH [OF h(2)] h(1) show ?case
    by (auto simp: queue_find.simps [of s d p "Some x"])
qed

text \<open>Where \<^verbatim>\<open>queue_insert\<close> puts a dispatcher.\<close>

definition rbed_insort :: "(addr \<Rightarrow> dcb) \<Rightarrow> addr \<Rightarrow> addr list \<Rightarrow> addr list" where
  "rbed_insort D d xs =
     takeWhile (\<lambda>a. queue_skips (D d) (D a)) xs @ d # dropWhile (\<lambda>a. queue_skips (D d) (D a)) xs"

lemma set_rbed_insort [simp]: "set (rbed_insort D d xs) = insert d (set xs)"
  unfolding rbed_insort_def
  by (metis Un_insert_right set_append list.simps(15) takeWhile_dropWhile_id)

lemma lseg_link:
  assumes "lseg nx h (us @ vs) None" "d \<notin> set (us @ vs)" "nx d = None"
  shows "lseg (redirect (last_or None us) (Some d) (nx(d := first_of vs)))
           (if us = [] then Some d else h) (us @ d # vs) None"
  using assms lseg_distinct [OF assms(1)]
  by (cases us rule: rev_cases; cases vs) auto

lemma queue_insert_links:
  assumes q: "rbed_links s xs" and d: "d \<notin> set xs" "snext s d = None"
  shows "\<exists>s'. queue_insert d s = Some s' \<and> rbed_links s' (rbed_insort (dcbs s) d xs) \<and>
           erase_queue s' = erase_queue s \<and>
           (\<forall>a. a \<notin> set xs \<longrightarrow> a \<noteq> d \<longrightarrow> snext s' a = snext s a)"
proof -
  define us vs where "us = takeWhile (\<lambda>a. queue_skips (dcbs s d) (dcbs s a)) xs"
    and "vs = dropWhile (\<lambda>a. queue_skips (dcbs s d) (dcbs s a)) xs"
  have xs: "us @ vs = xs" by (simp add: us_def vs_def)
  have lst: "last us \<in> set xs" if "us \<noteq> []" using that by (simp flip: xs)
  have seg: "lseg (snext s) (queue_head (cur s)) (us @ vs) None"
    and tl: "queue_tail (cur s) = last_or None (us @ vs)" "g_queue_tail s = queue_tail (cur s)"
    using q unfolding xs by (auto simp: rbed_links_def)
  have dn: "d \<notin> set (us @ vs)" "snext s d = None" using d by (simp_all add: xs del: set_append)
  note link = lseg_link [OF seg dn]
  note find = queue_find_spec [OF seg, unfolded xs, of d None, folded us_def vs_def]
  have ins: "rbed_insort (dcbs s) d xs = us @ d # vs" by (simp add: rbed_insort_def us_def vs_def)
  show ?thesis
  proof (cases "queue_head (cur s) = None")
    case True
    with q have "xs = []" by (simp add: rbed_links_def)
    with True q d show ?thesis
      by (auto simp: queue_insert_def rbed_links_def rbed_insort_def)
  next
    case False
    then have ne: "us @ vs \<noteq> []" using seg by auto
    show ?thesis
    proof (cases vs)
      case Nil
      then have us: "us \<noteq> []" using ne by simp
      let ?s' = "(upd_cur (queue_tail_update (\<lambda>_. Some d))
                   (upd_dcb (last us) (dcb_next_update (\<lambda>_. Some d)) s))\<lparr>g_queue_tail := Some d\<rparr>"
      have "queue_insert d s = Some ?s'"
        using False find Nil tl us by (simp add: queue_insert_def last_or_nonempty)
      moreover have "(snext s)(d := None) = snext s" using dn(2) by auto
      then have "rbed_links ?s' (us @ d # vs)"
        using link Nil us dn by (auto simp: rbed_links_def last_or_nonempty)
      ultimately show ?thesis unfolding ins using lst us by auto
    next
      case (Cons v ws)
      let ?s1 = "upd_dcb d (dcb_next_update (\<lambda>_. Some v)) s"
      let ?s' = "if us = [] then upd_cur (queue_head_update (\<lambda>_. Some d)) ?s1
                 else upd_dcb (last us) (dcb_next_update (\<lambda>_. Some d)) ?s1"
      have "queue_insert d s = Some ?s'"
        using False find Cons by (auto simp: queue_insert_def last_or_nonempty)
      moreover have "rbed_links ?s' (us @ d # vs)"
        using link Cons dn tl by (cases "us = []") (auto simp: rbed_links_def last_or_nonempty)
      moreover have "erase_queue ?s' = erase_queue s"
        "a \<notin> set xs \<Longrightarrow> a \<noteq> d \<Longrightarrow> snext ?s' a = snext s a" for a using lst by auto
      ultimately show ?thesis unfolding ins by blast
    qed
  qed
qed

lemma queue_insert_spec:
  assumes q: "rbed_queue s xs" and d: "d \<notin> set xs"
  shows "\<exists>s'. queue_insert d s = Some s' \<and> rbed_queue s' (rbed_insort (dcbs s) d xs) \<and>
           erase_queue s' = erase_queue s"
  using queue_insert_links [of s xs d] assms by (auto simp: rbed_queue_def rbed_links_def)

lemma queue_find_pred_spec:
  assumes "lseg (snext s) h (us @ [p] @ d # vs) None" "distinct (us @ [p] @ d # vs)"
  shows "queue_find_pred s d h = Some (Some p)"
  using assms
proof (induction us arbitrary: h)
  case Nil
  then show ?case by (auto simp: queue_find_pred.simps snext_def [symmetric])
next
  case (Cons x us)
  then have h: "h = Some x" "lseg (snext s) (dcb_next (dcbs s x)) (us @ [p] @ d # vs) None"
    "dcb_next (dcbs s x) \<noteq> Some d"
    by (cases us; auto simp: snext_def [symmetric])+
  from Cons.IH [OF h(2)] Cons.prems h(1,3) show ?case
    by (simp add: queue_find_pred.simps [of s d "Some x"])
qed

lemma queue_remove_spec:
  assumes q: "rbed_queue s xs" and d: "d \<in> set xs"
  shows "\<exists>s'. queue_remove d s = Some s' \<and> rbed_queue s' (remove1 d xs) \<and>
           erase_queue s' = erase_queue s"
proof -
  from d obtain us vs where xs: "xs = us @ d # vs" "d \<notin> set us" by (meson split_list_first)
  then have rem: "remove1 d xs = us @ vs" by (simp add: remove1_append)
  have seg: "lseg (snext s) (queue_head (cur s)) (us @ d # vs) None"
    and tl: "queue_tail (cur s) = last_or None (us @ d # vs)" "g_queue_tail s = queue_tail (cur s)"
    and off: "\<And>a. a \<notin> set (us @ d # vs) \<Longrightarrow> snext s a = None"
    using q unfolding xs by (auto simp: rbed_queue_def rbed_links_def)
  note dist = lseg_distinct [OF seg]
  have inq: "in_queue d s" using in_queue_iff [OF q] d by simp
  have nx: "dcb_next (dcbs s d) = first_of vs"
    using seg by (cases vs) (auto simp: snext_def [symmetric])
  show ?thesis unfolding rem
  proof (cases us rule: rev_cases)
    case Nil
    with seg have h: "queue_head (cur s) = Some d" by simp
    show "\<exists>s'. queue_remove d s = Some s' \<and> rbed_queue s' (us @ vs) \<and> erase_queue s' = erase_queue s"
      using inq h nx seg tl off dist Nil
      by (cases vs) (auto simp: queue_remove_def rbed_queue_def rbed_links_def Let_def snext_def [symmetric])
  next
    case (snoc ws p)
    then have h: "queue_head (cur s) \<noteq> Some d"
      using seg dist by (cases ws) auto
    have f: "queue_find_pred s d (queue_head (cur s)) = Some (Some p)"
      using queue_find_pred_spec [of s _ ws p d vs] seg dist snoc by simp
    have dp: "d \<noteq> p" using dist snoc by simp
    show "\<exists>s'. queue_remove d s = Some s' \<and> rbed_queue s' (us @ vs) \<and> erase_queue s' = erase_queue s"
    proof (cases vs)
      case Nil
      with inq h f nx dp seg tl off dist snoc show ?thesis
        by (auto simp: queue_remove_def rbed_queue_def rbed_links_def Let_def)
    next
      case (Cons v vs')
      then have "queue_tail (cur s) \<noteq> Some d"
        using tl dist last_or_in [of "Some v" vs' d] by auto
      with inq h f nx dp seg tl off dist snoc Cons show ?thesis
        by (auto simp: queue_remove_def rbed_queue_def rbed_links_def Let_def)
    qed
  qed
qed

lemma queue_remove_off: "rbed_queue s xs \<Longrightarrow> d \<notin> set xs \<Longrightarrow> queue_remove d s = Some s"
  by (simp add: queue_remove_def in_queue_iff)

lemma erase_queue_eqD:
  assumes "erase_queue s' = erase_queue s"
  shows "(dcbs s' d)\<lparr>dcb_next := None\<rparr> = (dcbs s d)\<lparr>dcb_next := None\<rparr>"
    "(cur s')\<lparr>queue_head := None, queue_tail := None\<rparr> = (cur s)\<lparr>queue_head := None, queue_tail := None\<rparr>"
    "kcb_current s' = kcb_current s" "lastdisp s' = lastdisp s" "dcb_current s' = dcb_current s"
    "kernel_now s' = kernel_now s" "kernel_timeslice s' = kernel_timeslice s"
    "config_oneshot_timer s' = config_oneshot_timer s" "timer_good s' = timer_good s"
proof -
  from assms have f: "f (erase_queue s') = f (erase_queue s)" for f :: "kernel \<Rightarrow> 'a" by simp
  show c: "kcb_current s' = kcb_current s" "lastdisp s' = lastdisp s" "dcb_current s' = dcb_current s"
    "kernel_now s' = kernel_now s" "kernel_timeslice s' = kernel_timeslice s"
    "config_oneshot_timer s' = config_oneshot_timer s"
    using f [of kcb_current] f [of lastdisp] f [of dcb_current] f [of kernel_now]
      f [of kernel_timeslice] f [of config_oneshot_timer] by (simp_all add: erase_queue_def)
  show "(dcbs s' d)\<lparr>dcb_next := None\<rparr> = (dcbs s d)\<lparr>dcb_next := None\<rparr>"
    using fun_cong [OF f [of dcbs], of d] by (simp add: erase_queue_def)
  show "(cur s')\<lparr>queue_head := None, queue_tail := None\<rparr> = (cur s)\<lparr>queue_head := None, queue_tail := None\<rparr>"
    using fun_cong [OF f [of kcbs], of "kcb_current s"] c by (simp add: erase_queue_def)
  show "timer_good s' = timer_good s"
    using f [of timer_good] by (simp add: erase_queue_def timer_good_def timer_inv_def)
qed

lemma erase_queue_sel:
  assumes "erase_queue s' = erase_queue s"
  shows "dcb_type (dcbs s' d) = dcb_type (dcbs s d)"
    "release_time (dcbs s' d) = release_time (dcbs s d)" "etime (dcbs s' d) = etime (dcbs s d)"
    "wcet (dcbs s' d) = wcet (dcbs s d)" "period (dcbs s' d) = period (dcbs s d)"
    "dcb_deadline (dcbs s' d) = dcb_deadline (dcbs s d)" "weight (dcbs s' d) = weight (dcbs s d)"
    "deadline (dcbs s' d) = deadline (dcbs s d)" "u_target (dcbs s' d) = u_target (dcbs s d)"
    "u_hrt (cur s') = u_hrt (cur s)" "u_srt (cur s') = u_srt (cur s)"
    "w_be (cur s') = w_be (cur s)" "n_be (cur s') = n_be (cur s)"
    "ring_current (cur s') = ring_current (cur s)"
proof -
  from erase_queue_eqD(1) [OF assms, of d]
  have f: "f ((dcbs s' d)\<lparr>dcb_next := None\<rparr>) = f ((dcbs s d)\<lparr>dcb_next := None\<rparr>)" for f :: "dcb \<Rightarrow> 'a" by simp
  from erase_queue_eqD(2) [OF assms]
  have g: "f ((cur s')\<lparr>queue_head := None, queue_tail := None\<rparr>) =
           f ((cur s)\<lparr>queue_head := None, queue_tail := None\<rparr>)" for f :: "kcb \<Rightarrow> 'a" by simp
  show "dcb_type (dcbs s' d) = dcb_type (dcbs s d)"
    "release_time (dcbs s' d) = release_time (dcbs s d)" "etime (dcbs s' d) = etime (dcbs s d)"
    "wcet (dcbs s' d) = wcet (dcbs s d)" "period (dcbs s' d) = period (dcbs s d)"
    "dcb_deadline (dcbs s' d) = dcb_deadline (dcbs s d)" "weight (dcbs s' d) = weight (dcbs s d)"
    "deadline (dcbs s' d) = deadline (dcbs s d)" "u_target (dcbs s' d) = u_target (dcbs s d)"
    using f [of dcb_type] f [of release_time] f [of etime] f [of wcet] f [of period]
      f [of dcb_deadline] f [of weight] by (simp_all add: deadline_def u_target_def)
  show "u_hrt (cur s') = u_hrt (cur s)" "u_srt (cur s') = u_srt (cur s)"
    "w_be (cur s') = w_be (cur s)" "n_be (cur s') = n_be (cur s)"
    "ring_current (cur s') = ring_current (cur s)"
    using g [of u_hrt] g [of u_srt] g [of w_be] g [of n_be] g [of ring_current] by simp_all
qed

lemmas erase_queue_frame = erase_queue_eqD(3-) erase_queue_sel

section \<open>Earliest deadline first\<close>

text \<open>A queue of real-time tasks in deadline order.\<close>

definition edf :: "(addr \<Rightarrow> dcb) \<Rightarrow> addr list \<Rightarrow> bool" where
  "edf D xs \<longleftrightarrow>
     (\<forall>a \<in> set xs. dcb_type (D a) \<noteq> TASK_TYPE_BEST_EFFORT) \<and> sorted (map (\<lambda>a. deadline (D a)) xs)"

lemma edf_remove1: "edf D xs \<Longrightarrow> edf D (remove1 d xs)"
  unfolding edf_def using sorted_map_remove1 [of "\<lambda>a. deadline (D a)" xs d]
  by (auto dest: in_set_remove1 [THEN iffD1, rotated] notin_set_remove1)

lemma edf_insort:
  assumes "edf D xs" "dcb_type (D d) \<noteq> TASK_TYPE_BEST_EFFORT" "d \<notin> set xs"
  shows "edf D (rbed_insort D d xs)"
proof -
  let ?dl = "\<lambda>a. deadline (D a)"
  have "rbed_insort D d xs = wakeup_insort ?dl (?dl d) d xs"
    using assms(2) by (simp add: rbed_insort_def wakeup_insort_def queue_skips_def)
  moreover have "?dl(d := ?dl d) = ?dl" by auto
  ultimately show ?thesis
    using assms sorted_wakeup_insort [of ?dl xs d "?dl d"] by (auto simp: edf_def)
qed

lemma edf_cong:
  assumes "\<And>a. a \<in> set xs \<Longrightarrow> deadline (D a) = deadline (D' a) \<and> dcb_type (D a) = dcb_type (D' a)"
  shows "edf D xs = edf D' xs"
proof -
  have "map (\<lambda>a. deadline (D a)) xs = map (\<lambda>a. deadline (D' a)) xs" using assms by simp
  with assms show ?thesis unfolding edf_def by (metis (no_types, lifting))
qed

section \<open>Budgets of best-effort tasks\<close>

definition be_u_actual :: "kernel \<Rightarrow> u16 \<Rightarrow> u32" where
  "be_u_actual s w =
     (max BETA32 (SPECTRUM32 - u_hrt (cur s) - u_srt (cur s)) * ucast w) div w_be (cur s)"

definition be_wcet :: "kernel \<Rightarrow> u16 \<Rightarrow> u64" where
  "be_wcet s w =
     (let u = (ucast (n_be (cur s) * kernel_timeslice s * be_u_actual s w) :: u64) in
      if u mod of_nat SPECTRUM > of_nat (SPECTRUM div 2)
      then u div of_nat SPECTRUM + 1 else u div of_nat SPECTRUM)"

definition be_ok :: "kernel \<Rightarrow> u16 \<Rightarrow> bool" where
  "be_ok s w \<longleftrightarrow>
     w_be (cur s) > 0 \<and> n_be (cur s) > 0 \<and> ucast w < UINT_MAX div SPECTRUM32 \<and>
     u_hrt (cur s) + u_srt (cur s) + be_u_actual s w \<le> SPECTRUM32 \<and> be_wcet s w > 0"

lemma be_wcet_less: "be_wcet s w < 2 ^ 63"
proof -
  define u where "u = n_be (cur s) * kernel_timeslice s * be_u_actual s w"
  have "unat (ucast u div of_nat SPECTRUM :: u64) < 2 ^ 32"
    using unat_lt_u32 [of u] by (simp add: unat_div SPECTRUM_def div_le_dividend [THEN le_less_trans])
  then have "unat (ucast u div of_nat SPECTRUM + 1 :: u64) < 2 ^ 63"
    "unat (ucast u div of_nat SPECTRUM :: u64) < 2 ^ 63"
    by (auto simp: unat_word_ariths)
  then show ?thesis
    by (auto simp: be_wcet_def u_def [symmetric] Let_def word_less_nat_alt)
qed

lemma set_best_effort_wcet_ok:
  assumes "be_ok s (weight (dcbs s d))" "dcb_type (dcbs s d) = TASK_TYPE_BEST_EFFORT"
  shows "set_best_effort_wcet d s =
           Some (upd_dcb d (\<lambda>x. x\<lparr>period := ucast (n_be (cur s) * kernel_timeslice s),
             dcb_deadline := ucast (n_be (cur s) * kernel_timeslice s),
             wcet := be_wcet s (weight x)\<rparr>) s)"
proof -
  let ?r = "SPECTRUM32 - u_hrt (cur s) - u_srt (cur s)"
  have "(if BETA32 > ?r then BETA32 else ?r) = max BETA32 ?r" by (auto simp: max_def)
  then have "do_resource_allocation d s =
    Some (be_u_actual s (weight (dcbs s d)),
      upd_dcb d (\<lambda>x. x\<lparr>period := ucast (n_be (cur s) * kernel_timeslice s),
        dcb_deadline := ucast (n_be (cur s) * kernel_timeslice s)\<rparr>) s)"
    using assms by (simp add: do_resource_allocation_def be_ok_def be_u_actual_def Let_def)
  then show ?thesis
    using assms(1) by (simp add: set_best_effort_wcet_def be_ok_def be_wcet_def Let_def upd_dcb_def)
qed

section \<open>The scheduling loop\<close>

text \<open>
  What \<^verbatim>\<open>schedule\<close> needs of a queued task.  For a real-time task: a positive budget, no missed
  deadline, and a deadline not in the past if its period has to be advanced.
\<close>

definition task_ok :: "kernel \<Rightarrow> addr \<Rightarrow> bool" where
  "task_ok s a \<longleftrightarrow>
     (let x = dcbs s a in
      if dcb_type x = TASK_TYPE_BEST_EFFORT then be_ok s (weight x)
      else 0 < wcet x \<and> wcet x < 2 ^ 63 \<and>
        (release_time x \<le> kernel_now s \<longrightarrow> kernel_now s \<le> deadline x) \<and>
        (etime x \<noteq> 0 \<or> lastdisp s = Some a \<longrightarrow>
           kernel_now s \<le> release_time x + period x + dcb_deadline x))"

text \<open>\<open>t\<close> is the first task of the queue that is released, and it has budget left.\<close>

definition selected :: "kernel \<Rightarrow> addr list \<Rightarrow> addr \<Rightarrow> bool" where
  "selected s xs t \<longleftrightarrow>
     first_of (dropWhile (\<lambda>a. release_time (dcbs s a) > kernel_now s) xs) = Some t \<and>
     etime (dcbs s t) < wcet (dcbs s t)"

lemma skip_future_spec:
  assumes "lseg (snext s) h xs None"
  shows "skip_future s h = Some (first_of (dropWhile (\<lambda>a. release_time (dcbs s a) > kernel_now s) xs))"
  using assms
proof (induction xs arbitrary: h)
  case Nil
  then show ?case by (simp add: skip_future.simps)
next
  case (Cons x xs)
  from Cons.prems have h: "h = Some x" "lseg (snext s) (dcb_next (dcbs s x)) xs None"
    by (auto simp: snext_def [symmetric])
  from Cons.IH [OF h(2)] h(1) show ?case
    by (auto simp: skip_future.simps [of s "Some x"])
qed

lemma first_dropWhile:
  assumes "first_of (dropWhile P xs) = Some t"
  shows "t \<in> set xs" "\<not> P t"
  using assms set_dropWhileD [of _ P xs] hd_dropWhile [of P xs]
  by (cases "dropWhile P xs"; force)+

lemma first_dropWhile_None: "first_of (dropWhile P xs) = None \<longleftrightarrow> (\<forall>a \<in> set xs. P a)"
  by (induction xs) auto

text \<open>The state in which the selected task has its budget: only that task's timing changes.\<close>

definition same_but :: "addr \<Rightarrow> kernel \<Rightarrow> kernel \<Rightarrow> bool" where
  "same_but t s s' \<longleftrightarrow>
     (\<exists>f. s' = upd_dcb t f s \<and>
        (\<forall>x. dcb_next (f x) = dcb_next x \<and> dcb_type (f x) = dcb_type x \<and> weight (f x) = weight x \<and>
          etime (f x) = etime x))"

lemma same_butD:
  assumes "same_but t s s'"
  shows "rbed_queue s' xs = rbed_queue s xs" "cur s' = cur s" "kernel_now s' = kernel_now s"
    "kernel_timeslice s' = kernel_timeslice s" "lastdisp s' = lastdisp s"
    "dcb_current s' = dcb_current s" "config_oneshot_timer s' = config_oneshot_timer s"
    "timer_good s' = timer_good s" "be_ok s' w = be_ok s w" "be_wcet s' w = be_wcet s w"
    "a \<noteq> t \<Longrightarrow> dcbs s' a = dcbs s a" "dcb_type (dcbs s' a) = dcb_type (dcbs s a)"
    "weight (dcbs s' a) = weight (dcbs s a)" "etime (dcbs s' a) = etime (dcbs s a)"
  using assms
  by (auto simp: same_but_def rbed_queue_def rbed_links_def be_ok_def be_wcet_def be_u_actual_def)

lemma allocate_selected_spec:
  assumes ok: "task_ok s t" and rel: "release_time (dcbs s t) \<le> kernel_now s"
    and now: "kernel_now s < 2 ^ 63"
  shows "\<exists>s'. allocate_selected t s = Some s' \<and> same_but t s s' \<and>
           kernel_now s \<le> deadline (dcbs s' t) \<and> release_time (dcbs s' t) \<le> kernel_now s \<and>
           0 < wcet (dcbs s' t) \<and> wcet (dcbs s' t) < 2 ^ 63 \<and>
           (dcb_type (dcbs s t) \<noteq> TASK_TYPE_BEST_EFFORT \<longrightarrow> s' = s)"
proof (cases "dcb_type (dcbs s t) = TASK_TYPE_BEST_EFFORT")
  case False
  have "same_but t s s" by (rule same_but_def [THEN iffD2]) (rule exI [of _ id], simp add: upd_dcb_def)
  with False assms show ?thesis
    by (auto simp: allocate_selected_def task_ok_def Let_def)
next
  case True
  with ok have be: "be_ok s (weight (dcbs s t))" by (simp add: task_ok_def)
  let ?p = "ucast (n_be (cur s) * kernel_timeslice s) :: u64"
  let ?f = "\<lambda>x. x\<lparr>period := ?p, dcb_deadline := ?p, wcet := be_wcet s (weight x)\<rparr>"
  let ?late = "deadline (?f (dcbs s t)) < kernel_now s"
  let ?g = "\<lambda>x. if ?late then (?f x)\<lparr>release_time := kernel_now s\<rparr> else ?f x"
  have "unat ?p < 2 ^ 32" using unat_lt_u32 [of "n_be (cur s) * kernel_timeslice s"] by simp
  then have "kernel_now s \<le> kernel_now s + ?p"
    using now by (simp add: word_le_nat_alt word_less_nat_alt unat_word_ariths)
  moreover have "be_wcet s (weight (dcbs s t)) < 2 ^ 63" by (rule be_wcet_less)
  moreover have "allocate_selected t s = Some (upd_dcb t ?g s)"
    using True set_best_effort_wcet_ok [OF be True]
    by (auto simp: allocate_selected_def upd_dcb_def)
  moreover have "same_but t s (upd_dcb t ?g s)"
    unfolding same_but_def by (rule exI [of _ ?g]) auto
  ultimately show ?thesis using be rel True by (auto simp: deadline_def be_ok_def)
qed

lemma rbed_queue_cong:
  "dcb_next \<circ> dcbs s' = dcb_next \<circ> dcbs s \<Longrightarrow> cur s' = cur s \<Longrightarrow> g_queue_tail s' = g_queue_tail s \<Longrightarrow>
   rbed_queue s' xs = rbed_queue s xs"
  unfolding rbed_queue_def rbed_links_def snext_def [abs_def] comp_def by metis

lemma rbed_queue_upd_lastdisp [simp]:
  "rbed_queue (s\<lparr>lastdisp := l\<rparr>) xs = rbed_queue s xs"
  by (rule rbed_queue_cong) simp_all

lemma erase_queue_upd_lastdisp:
  "erase_queue (s\<lparr>lastdisp := l\<rparr>) = (erase_queue s)\<lparr>lastdisp := l\<rparr>"
  by (rule kernel.equality) (simp_all add: erase_queue_def)

lemma be_ok_upd_lastdisp [simp]: "be_ok (s\<lparr>lastdisp := l\<rparr>) w = be_ok s w"
  by (simp add: be_ok_def be_wcet_def be_u_actual_def)

lemma be_ok_erase: "erase_queue s' = erase_queue s \<Longrightarrow> be_ok s' w = be_ok s w"
  by (simp add: be_ok_def be_wcet_def be_u_actual_def erase_queue_sel(10-13) [of s' s]
      erase_queue_eqD(7) [of s' s])

definition rerelease :: "u64 \<Rightarrow> dcb \<Rightarrow> dcb" where
  "rerelease now x = (if dcb_type x \<noteq> TASK_TYPE_BEST_EFFORT
     then (if now > release_time x then x\<lparr>release_time := release_time x + period x\<rparr> else x)
     else x\<lparr>release_time := now\<rparr>)\<lparr>etime := 0\<rparr>"

lemma rerelease_sel [simp]:
  "dcb_next (rerelease now x) = dcb_next x" "dcb_type (rerelease now x) = dcb_type x"
  "weight (rerelease now x) = weight x" "etime (rerelease now x) = 0"
  "wcet (rerelease now x) = wcet x" "period (rerelease now x) = period x"
  "dcb_deadline (rerelease now x) = dcb_deadline x"
  by (simp_all add: rerelease_def)

text \<open>
  Requeueing the selected task: everything but the task's own release time, its executed time
  and the links stays, and the task is inserted according to its new deadline.
\<close>

lemma requeue_selected_spec:
  assumes q: "rbed_queue s xs" and t: "t \<in> set xs"
  shows "\<exists>s'. requeue_selected t s = Some s' \<and>
           rbed_queue s' (rbed_insort (dcbs s') t (remove1 t xs)) \<and>
           erase_queue s' = erase_queue ((upd_dcb t (rerelease (kernel_now s)) s)\<lparr>lastdisp := None\<rparr>)"
proof -
  from queue_remove_spec [OF assms] obtain s1 where
    s1: "queue_remove t s = Some s1" "rbed_queue s1 (remove1 t xs)" "erase_queue s1 = erase_queue s"
    by blast
  let ?s2 = "upd_dcb t (rerelease (kernel_now s)) s1"
  have q2: "rbed_queue ?s2 (remove1 t xs)" using s1(2) by (simp add: rbed_queue_def rbed_links_def)
  have "distinct xs" using q by (auto simp: rbed_queue_def rbed_links_def dest: lseg_distinct)
  then have "t \<notin> set (remove1 t xs)" by simp
  from queue_insert_spec [OF q2 this] obtain s3 where
    s3: "queue_insert t ?s2 = Some s3" "rbed_queue s3 (rbed_insort (dcbs ?s2) t (remove1 t xs))"
      "erase_queue s3 = erase_queue ?s2" by blast
  have "queue_skips (dcbs s3 t) (dcbs s3 a) = queue_skips (dcbs ?s2 t) (dcbs ?s2 a)" for a
    by (simp only: queue_skips_def erase_queue_sel [OF s3(3)])
  then have "rbed_insort (dcbs s3) t (remove1 t xs) = rbed_insort (dcbs ?s2) t (remove1 t xs)"
    by (simp only: rbed_insort_def)
  with s3(2) have "rbed_queue (s3\<lparr>lastdisp := None\<rparr>)
      (rbed_insort (dcbs (s3\<lparr>lastdisp := None\<rparr>)) t (remove1 t xs))" by simp
  moreover have "upd_dcb t (etime_update (\<lambda>_. 0)) (upd_dcb t (\<lambda>x.
       if dcb_type x \<noteq> TASK_TYPE_BEST_EFFORT
       then (if kernel_now s1 > release_time x then x\<lparr>release_time := release_time x + period x\<rparr> else x)
       else x\<lparr>release_time := kernel_now s1\<rparr>) s1) = ?s2"
    using erase_queue_frame(4) [OF s1(3)] by (simp add: upd_dcb_def rerelease_def)
  then have "requeue_selected t s = Some (s3\<lparr>lastdisp := None\<rparr>)"
    using s1(1) s3(1) by (simp add: requeue_selected_def Let_def)
  moreover have "erase_queue (s3\<lparr>lastdisp := None\<rparr>) =
      erase_queue ((upd_dcb t (rerelease (kernel_now s)) s)\<lparr>lastdisp := None\<rparr>)"
  proof -
    have "erase_queue (upd_dcb t (rerelease n) r) = upd_dcb t (rerelease n) (erase_queue r)" for n r
      by (rule kernel.equality) (auto simp: erase_queue_def rerelease_def)
    with s1(3) s3(3) have "erase_queue s3 = erase_queue (upd_dcb t (rerelease (kernel_now s)) s)"
      by (simp only:)
    then show ?thesis by (simp only: erase_queue_upd_lastdisp)
  qed
  ultimately show ?thesis by blast
qed

lemma dispatch_selected_spec:
  assumes q: "rbed_queue s xs" and t: "etime (dcbs s t) < wcet (dcbs s t)" "wcet (dcbs s t) < 2 ^ 63"
    and now: "kernel_now s < 2 ^ 63" and tg: "timer_good s"
  shows "\<exists>r s'. dispatch_selected t s = Some (r, s') \<and>
           (r = Some t \<or> r = dcb_current s \<and> (\<exists>c \<in> set xs. r = Some c)) \<and>
           dcbs s' = (dcbs s)(t := (dcbs s t)\<lparr>last_dispatch := kernel_now s\<rparr>) \<and>
           rbed_queue s' xs \<and> lastdisp s' = Some t \<and> kernel_now s' = kernel_now s \<and> timer_good s'"
proof -
  let ?s = "upd_dcb t (last_dispatch_update (\<lambda>_. kernel_now s)) s"
  let ?w = "kernel_now s + (wcet (dcbs s t) - etime (dcbs s t))"
  have q': "rbed_queue ?s xs" using q by (simp add: rbed_queue_def rbed_links_def)
  show ?thesis
  proof (cases "lastdisp s = Some t \<and> (case dcb_current s of None \<Rightarrow> False | Some c \<Rightarrow> in_queue c ?s)")
    case True
    with q' tg in_queue_iff [OF q'] show ?thesis
      by (auto simp: dispatch_selected_def split: option.splits)
  next
    case False
    show ?thesis
    proof (cases "config_oneshot_timer s")
      case off: False
      with False q' tg show ?thesis
        by (auto simp: dispatch_selected_def Let_def timer_good_def)
    next
      case True
      have "unat ?w = unat (kernel_now s) + (unat (wcet (dcbs s t)) - unat (etime (dcbs s t)))"
        using t now by (simp add: unat_word_ariths unat_sub word_less_nat_alt word_le_nat_alt)
      then have "unat ?w \<noteq> 0" using t(1) by (simp add: word_less_nat_alt)
      then have w: "?w \<noteq> 0" by (metis unat_0)
      have "timer_inv (?s\<lparr>lastdisp := Some t\<rparr>)"
        using tg True by (simp add: timer_good_def timer_inv_def)
      from update_sched_timer_correct [OF this w] obtain s' where
        s': "update_sched_timer ?w (?s\<lparr>lastdisp := Some t\<rparr>) = Some s'" "timer_inv s'" by blast
      note fr = update_sched_timer_frame [OF s'(1)]
      have "rbed_queue s' xs" using q' fr rbed_queue_cong [of s' ?s xs] by simp
      moreover have "dispatch_selected t s = Some (Some t, s')"
        using False True s'(1) by (auto simp: dispatch_selected_def Let_def)
      ultimately show ?thesis using fr s'(2) by (auto simp: timer_good_def)
    qed
  qed
qed

text \<open>What a call of \<^verbatim>\<open>schedule\<close> leaves behind.\<close>

definition schedule_post :: "kernel \<Rightarrow> addr list \<Rightarrow> ptr \<Rightarrow> kernel \<Rightarrow> addr list \<Rightarrow> bool" where
  "schedule_post s xs r s' xs' \<longleftrightarrow>
     rbed_queue s' xs' \<and> set xs' = set xs \<and> kernel_now s' = kernel_now s \<and> timer_good s' \<and>
     (edf (dcbs s) xs \<longrightarrow> edf (dcbs s') xs') \<and>
     (case lastdisp s' of
        None \<Rightarrow> r = None \<and> (\<forall>a \<in> set xs'. release_time (dcbs s' a) > kernel_now s')
      | Some t \<Rightarrow> selected s' xs' t \<and>
          (r = Some t \<or> r = dcb_current s \<and> (\<exists>c \<in> set xs. r = Some c)))"

lemma task_ok_requeued:
  assumes ok: "task_ok s a" and sb: "same_but t s s1" "0 < wcet (dcbs s1 t)" "wcet (dcbs s1 t) < 2 ^ 63"
      "dcb_type (dcbs s t) \<noteq> TASK_TYPE_BEST_EFFORT \<longrightarrow> s1 = s" "kernel_now s \<le> deadline (dcbs s1 t)"
    and over: "etime (dcbs s1 t) \<ge> wcet (dcbs s1 t)"
    and er: "erase_queue s2 = erase_queue ((upd_dcb t (rerelease (kernel_now s1)) s1)\<lparr>lastdisp := None\<rparr>)"
  shows "task_ok s2 a"
proof -
  note fr = erase_queue_frame [OF er]
  note sd = same_butD [OF sb(1)]
  have now: "kernel_now s2 = kernel_now s" "lastdisp s2 = None" using fr sd by simp_all
  have be: "be_ok s2 w = be_ok s w" for w
    using be_ok_erase [OF er, of w] sd(9) [of w] by (simp add: be_ok_def be_wcet_def be_u_actual_def)
  show ?thesis
  proof (cases "a = t")
    case False
    then show ?thesis
      using ok fr(8-15) [of a] sd(11) [of a] now be
      by (auto simp: task_ok_def Let_def deadline_def)
  next
    case True
    show ?thesis
    proof (cases "dcb_type (dcbs s t) = TASK_TYPE_BEST_EFFORT")
      case be_t: True
      with True ok fr(8,14) [of t] sd(12,13) [of t] be show ?thesis by (simp add: task_ok_def Let_def)
    next
      case False
      then have s1: "s1 = s" using sb(4) by simp
      have "etime (dcbs s t) \<noteq> 0" using over sb(2) s1 by (auto simp: word_le_nat_alt word_less_nat_alt)
      then have "kernel_now s \<le> release_time (dcbs s t) + period (dcbs s t) + dcb_deadline (dcbs s t)"
        using ok True False by (simp add: task_ok_def Let_def)
      then have "kernel_now s \<le> deadline (rerelease (kernel_now s) (dcbs s t))"
        using sb(5) s1 False by (simp add: rerelease_def deadline_def)
      with True False s1 fr(8-15) [of t] sb now show ?thesis
        by (simp add: task_ok_def Let_def)
    qed
  qed
qed

lemma edf_requeued:
  assumes "edf (dcbs s) xs" "t \<in> set xs" "distinct xs"
    "erase_queue s2 = erase_queue ((upd_dcb t (rerelease n) s)\<lparr>lastdisp := None\<rparr>)"
  shows "edf (dcbs s2) (rbed_insort (dcbs s2) t (remove1 t xs))"
proof -
  note fr = erase_queue_sel [OF assms(4)]
  have t: "t \<notin> set (remove1 t xs)" using assms(3) by simp
  then have "edf (dcbs s2) (remove1 t xs) = edf (dcbs s) (remove1 t xs)"
    using fr(1,8) by (intro edf_cong) auto
  then show ?thesis
    using edf_remove1 [OF assms(1)] edf_insort [OF _ _ t] assms(1,2) fr(1) [of t]
    by (simp add: edf_def)
qed

lemma rbed_start_over_spec:
  assumes "rbed_queue s xs" "\<And>a. a \<in> set xs \<Longrightarrow> task_ok s a" "kernel_now s < 2 ^ 63" "timer_good s"
  shows "\<exists>r s' xs'. rbed_start_over s = Some (r, s') \<and> schedule_post s xs r s' xs'"
  using assms
proof (induction "card {a \<in> set xs. etime (dcbs s a) \<noteq> 0}" arbitrary: s xs rule: less_induct)
  case less
  let ?fut = "\<lambda>a. release_time (dcbs s a) > kernel_now s"
  from less.prems(1) have seg: "lseg (snext s) (queue_head (cur s)) xs None"
    by (simp add: rbed_queue_def rbed_links_def)
  note skip = skip_future_spec [OF seg]
  show ?case
  proof (cases "first_of (dropWhile ?fut xs)")
    case None
    then have "rbed_start_over s = Some (None, s\<lparr>lastdisp := None\<rparr>)"
      by (simp add: rbed_start_over.simps [of s] skip)
    moreover have "schedule_post s xs None (s\<lparr>lastdisp := None\<rparr>) xs"
      using None less.prems(1,4)
      by (auto simp: schedule_post_def first_dropWhile_None timer_good_def timer_inv_def)
    ultimately show ?thesis by blast
  next
    case (Some t)
    note t = first_dropWhile [OF Some]
    from t(2) have rel: "release_time (dcbs s t) \<le> kernel_now s" by simp
    from allocate_selected_spec [OF less.prems(2) [OF t(1)] rel less.prems(3)] obtain s1 where
      s1: "allocate_selected t s = Some s1" "same_but t s s1" "kernel_now s \<le> deadline (dcbs s1 t)"
        "release_time (dcbs s1 t) \<le> kernel_now s" "0 < wcet (dcbs s1 t)" "wcet (dcbs s1 t) < 2 ^ 63"
        "dcb_type (dcbs s t) \<noteq> TASK_TYPE_BEST_EFFORT \<longrightarrow> s1 = s"
      by blast
    note sd = same_butD [OF s1(2)]
    have q1: "rbed_queue s1 xs" using less.prems(1) sd(1) by simp
    have unf: "rbed_start_over s =
        (if etime (dcbs s1 t) < wcet (dcbs s1 t) then dispatch_selected t s1
         else Option.bind (requeue_selected t s1) rbed_start_over)"
      using s1(1,3) sd(3) by (auto simp: rbed_start_over.simps [of s] skip Some)
    show ?thesis
    proof (cases "etime (dcbs s1 t) < wcet (dcbs s1 t)")
      case True
      from dispatch_selected_spec [OF q1 True s1(6)] less.prems(3,4) sd obtain r s' where
        s': "dispatch_selected t s1 = Some (r, s')"
          "r = Some t \<or> r = dcb_current s \<and> (\<exists>c \<in> set xs. r = Some c)"
          "dcbs s' = (dcbs s1)(t := (dcbs s1 t)\<lparr>last_dispatch := kernel_now s1\<rparr>)"
          "rbed_queue s' xs" "lastdisp s' = Some t" "kernel_now s' = kernel_now s" "timer_good s'"
        by auto
      have fut: "release_time (dcbs s' a) > kernel_now s' \<longleftrightarrow> ?fut a" for a
        using s'(3,6) s1(4) rel sd(11) [of a] by (cases "a = t") auto
      have "selected s' xs t"
        unfolding selected_def fut using Some True s'(3) by simp
      moreover have "edf (dcbs s') xs" if "edf (dcbs s) xs"
      proof -
        have "s1 = s" using that s1(7) t(1) by (simp add: edf_def)
        then show ?thesis
          using that edf_cong [of xs "dcbs s'" "dcbs s"] s'(3) by (auto simp: deadline_def)
      qed
      ultimately show ?thesis
        using unf True s' by (auto simp: schedule_post_def)
    next
      case False
      from requeue_selected_spec [OF q1 t(1)] obtain s2 where
        s2: "requeue_selected t s1 = Some s2"
          "rbed_queue s2 (rbed_insort (dcbs s2) t (remove1 t xs))"
          "erase_queue s2 = erase_queue ((upd_dcb t (rerelease (kernel_now s1)) s1)\<lparr>lastdisp := None\<rparr>)"
        by blast
      let ?ys = "rbed_insort (dcbs s2) t (remove1 t xs)"
      note fr = erase_queue_frame [OF s2(3)]
      have dist: "distinct xs" by (rule lseg_distinct [OF seg])
      have ys: "set ?ys = set xs" using t(1) dist by auto
      have et: "etime (dcbs s2 a) = (if a = t then 0 else etime (dcbs s a))" for a
        using fr(10) [of a] sd(14) [of a] by simp
      have "etime (dcbs s t) \<noteq> 0"
        using False s1(5) sd(14) [of t] by (auto simp: word_less_nat_alt)
      then have "{a \<in> set ?ys. etime (dcbs s2 a) \<noteq> 0} \<subset> {a \<in> set xs. etime (dcbs s a) \<noteq> 0}"
        unfolding ys et using t(1) by auto
      then have card: "card {a \<in> set ?ys. etime (dcbs s2 a) \<noteq> 0} < card {a \<in> set xs. etime (dcbs s a) \<noteq> 0}"
        by (rule psubset_card_mono [rotated]) simp
      have ok2: "task_ok s2 a" if "a \<in> set ?ys" for a
        using task_ok_requeued [OF less.prems(2) s1(2,5,6,7,3) _ s2(3), of a] that False
        unfolding ys by simp
      have now2: "kernel_now s2 = kernel_now s" "dcb_current s2 = dcb_current s" "timer_good s2"
        using fr sd less.prems(4) by (simp_all add: timer_good_def timer_inv_def)
      from less.hyps [OF card s2(2) ok2] now2 less.prems(3) obtain r s' xs' where
        post: "rbed_start_over s2 = Some (r, s')" "schedule_post s2 ?ys r s' xs'" by auto
      have "edf (dcbs s2) ?ys" if "edf (dcbs s) xs"
        using that edf_requeued [OF _ t(1) dist s2(3)] s1(7) t(1) by (auto simp: edf_def)
      with post(2) have "schedule_post s xs r s' xs'"
        unfolding schedule_post_def ys now2 by blast
      with unf False s2(1) post(1) show ?thesis by auto
    qed
  qed
qed

text \<open>Accounting the last task changes at most its executed time.\<close>

lemma account_last_spec:
  assumes "\<And>l. lastdisp s = Some l \<Longrightarrow> last_dispatch (dcbs s l) \<le> kernel_now s"
  shows "\<exists>e. account_last s = Some (case lastdisp s of None \<Rightarrow> s
           | Some l \<Rightarrow> upd_dcb l (etime_update (\<lambda>_. e)) s)"
proof (cases "lastdisp s")
  case (Some l)
  then have "account_last s = Some (upd_dcb l (etime_update (\<lambda>_.
     if release_time (dcbs s l) \<le> kernel_now s
     then etime (dcbs s l) + (kernel_now s - (if last_dispatch (dcbs s l) > release_time (dcbs s l)
                                    then last_dispatch (dcbs s l) else release_time (dcbs s l)))
     else etime (dcbs s l))) s)"
    using assms [OF Some] by (simp add: account_last_def upd_dcb_def)
  with Some show ?thesis by auto
qed (simp add: account_last_def)

lemma rbed_schedule_spec:
  assumes q: "rbed_queue s xs" and ok: "\<And>a. a \<in> set xs \<Longrightarrow> task_ok s a"
    and now: "kernel_now s < 2 ^ 63" and tg: "timer_good s"
    and load: "u_hrt (cur s) + u_srt (cur s) + BETA32 \<le> SPECTRUM32"
    and last: "\<And>l. lastdisp s = Some l \<Longrightarrow> last_dispatch (dcbs s l) \<le> kernel_now s"
  shows "\<exists>r s' xs'. rbed_schedule s = Some (r, s') \<and> schedule_post s xs r s' xs'"
proof -
  from account_last_spec [OF last] obtain e where
    e: "account_last s = Some (case lastdisp s of None \<Rightarrow> s
           | Some l \<Rightarrow> upd_dcb l (etime_update (\<lambda>_. e)) s)" by blast
  define s0 where "s0 = (case lastdisp s of None \<Rightarrow> s
           | Some l \<Rightarrow> upd_dcb l (etime_update (\<lambda>_. e)) s)"
  have s0: "rbed_queue s0 xs" "kernel_now s0 = kernel_now s" "timer_good s0"
    "dcb_current s0 = dcb_current s" "edf (dcbs s0) xs = edf (dcbs s) xs"
    using q tg by (auto simp: s0_def rbed_queue_def rbed_links_def deadline_def split: option.splits
        intro!: edf_cong)
  have "task_ok s0 a" if "a \<in> set xs" for a
    using ok [OF that]
    by (auto simp: s0_def task_ok_def Let_def deadline_def be_ok_def be_wcet_def be_u_actual_def
        split: option.splits)
  from rbed_start_over_spec [OF s0(1) this] s0(2,3) now obtain r s' xs' where
    "rbed_start_over s0 = Some (r, s')" "schedule_post s0 xs r s' xs'" by auto
  moreover have "rbed_schedule s = rbed_start_over s0"
    using load e by (simp add: rbed_schedule_def s0_def)
  moreover have "schedule_post s0 xs r s' xs' = schedule_post s xs r s' xs'"
    unfolding schedule_post_def s0(2,4,5) ..
  ultimately show ?thesis by auto
qed



section \<open>Examples\<close>

text \<open>Two best-effort tasks of weight 1, and two hard real-time tasks.\<close>

definition example_be :: kernel where
  "example_be = kernel0\<lparr>
     dcbs := (\<lambda>_. dcb0)(1 := dcb0\<lparr>dcb_next := Some 2, weight := 1\<rparr>, 2 := dcb0\<lparr>weight := 1\<rparr>),
     kcbs := (\<lambda>_. kcb0)(0 := kcb0\<lparr>sched := SCHED_RBED, queue_head := Some 1, queue_tail := Some 2,
                                 w_be := 2, n_be := 2\<rparr>),
     g_queue_tail := Some 2\<rparr>"

definition example_rt :: kernel where
  "example_rt = kernel0\<lparr>
     dcbs := (\<lambda>_. dcb0)
       (1 := dcb0\<lparr>dcb_next := Some 2, dcb_type := TASK_TYPE_HARD_REALTIME, wcet := 10, period := 100,
                   dcb_deadline := 50\<rparr>,
        2 := dcb0\<lparr>dcb_type := TASK_TYPE_HARD_REALTIME, wcet := 20, period := 200, dcb_deadline := 90\<rparr>,
        3 := dcb0\<lparr>dcb_type := TASK_TYPE_HARD_REALTIME, wcet := 2 ^ 32, period := 1000000\<rparr>),
     kcbs := (\<lambda>_. kcb0)(0 := kcb0\<lparr>sched := SCHED_RBED, queue_head := Some 1, queue_tail := Some 2,
                                 u_hrt := 200000\<rparr>),
     g_queue_tail := Some 2\<rparr>"

lemma example_be_queue: "rbed_queue example_be [1, 2]"
  by (auto simp: rbed_queue_def rbed_links_def snext_def example_be_def kernel0_def dcb0_def kcb0_def)

lemma example_rt_queue: "rbed_queue example_rt [1, 2]"
  by (auto simp: rbed_queue_def rbed_links_def snext_def example_rt_def kernel0_def dcb0_def kcb0_def)

lemma example_be_tasks: "a \<in> {1, 2} \<Longrightarrow> task_ok example_be a"
  by (auto simp: task_ok_def be_ok_def be_wcet_def be_u_actual_def example_be_def kernel0_def dcb0_def
      kcb0_def SPECTRUM_def BETA_def UINT_MAX_def Let_def)

lemma example_rt_tasks: "a \<in> {1, 2} \<Longrightarrow> task_ok example_rt a"
  by (auto simp: task_ok_def deadline_def example_rt_def kernel0_def dcb0_def Let_def)

lemma example_load:
  "u_hrt (cur example_be) + u_srt (cur example_be) + BETA32 \<le> SPECTRUM32"
  "u_hrt (cur example_rt) + u_srt (cur example_rt) + BETA32 \<le> SPECTRUM32"
  by (simp_all add: example_be_def example_rt_def kernel0_def kcb0_def SPECTRUM_def BETA_def)

lemma example_sel:
  "kernel_now example_be = 0" "kernel_now example_rt = 0" "timer_good example_be" "timer_good example_rt"
  "lastdisp example_be = None" "lastdisp example_rt = None" "dcb_current example_be = None"
  by (simp_all add: example_be_def example_rt_def kernel0_def timer_good_def)



end
