(* ===== verification/RBED_Admission.thy ===== *)
theory RBED_Admission
  imports Sched_RBED Sched_RR
begin

text \<open>
  Which tasks the RBED scheduler of kernel/schedule_rbed.c accepts and how it keeps its
  utilization counters: admission by \<^verbatim>\<open>make_runnable\<close>, \<^verbatim>\<open>scheduler_remove\<close>, \<^verbatim>\<open>scheduler_yield\<close>, the
  take-over of the round-robin ring, the reset of the clock, and the service to the timeout
  queue.  The operations are defined in \<^theory_text>\<open>Sched_RBED\<close>.
\<close>

section \<open>Utilization accounting\<close>

text \<open>
  The counters of a kcb \<open>k\<close> describe the set \<open>A\<close> of runnable tasks: \<open>u_hrt\<close> is the total
  utilization of the hard real-time tasks, \<open>w_be\<close> the total weight and \<open>n_be\<close> the number
  of the best-effort tasks, and the reserve \<open>BETA\<close> is never given away.
\<close>

definition rbed_acct :: "(addr \<Rightarrow> dcb) \<Rightarrow> kcb \<Rightarrow> addr set \<Rightarrow> bool" where
  "rbed_acct D k A \<longleftrightarrow>
     finite A \<and>
     (\<forall>a \<in> A. dcb_type (D a) \<noteq> TASK_TYPE_SOFT_REALTIME) \<and>
     (\<forall>a \<in> A. dcb_type (D a) = TASK_TYPE_HARD_REALTIME \<longrightarrow> period (D a) \<noteq> 0) \<and>
     (\<forall>a \<in> A. dcb_type (D a) = TASK_TYPE_BEST_EFFORT \<longrightarrow> weight (D a) \<noteq> 0) \<and>
     unat (u_hrt k) =
       (\<Sum>a | a \<in> A \<and> dcb_type (D a) = TASK_TYPE_HARD_REALTIME. unat (the (u_target (D a)))) \<and>
     w_be k = (\<Sum>a | a \<in> A \<and> dcb_type (D a) = TASK_TYPE_BEST_EFFORT. ucast (weight (D a))) \<and>
     n_be k = of_nat (card {a \<in> A. dcb_type (D a) = TASK_TYPE_BEST_EFFORT}) \<and>
     unat (u_hrt k) + unat (u_srt k) + BETA \<le> SPECTRUM"

lemma rbed_acct_cong:
  assumes "\<And>a. a \<in> A \<Longrightarrow> dcb_type (D' a) = dcb_type (D a) \<and> weight (D' a) = weight (D a) \<and>
      period (D' a) = period (D a) \<and> u_target (D' a) = u_target (D a)"
    "u_hrt k' = u_hrt k" "u_srt k' = u_srt k" "w_be k' = w_be k" "n_be k' = n_be k"
  shows "rbed_acct D' k' A = rbed_acct D k A"
proof -
  have s: "{a \<in> A. dcb_type (D' a) = ty} = {a \<in> A. dcb_type (D a) = ty}" for ty
    using assms(1) by auto
  have "(\<Sum>a | a \<in> A \<and> dcb_type (D a) = ty. unat (the (u_target (D' a)))) =
        (\<Sum>a | a \<in> A \<and> dcb_type (D a) = ty. unat (the (u_target (D a))))"
    "(\<Sum>a | a \<in> A \<and> dcb_type (D a) = ty. ucast (weight (D' a)) :: u32) =
        (\<Sum>a | a \<in> A \<and> dcb_type (D a) = ty. ucast (weight (D a)))" for ty
    using assms(1) by (auto intro!: sum.cong)
  with s assms show ?thesis unfolding rbed_acct_def by auto
qed

lemma rbed_acct_upd: "d \<notin> A \<Longrightarrow> rbed_acct (D(d := x)) k A = rbed_acct D k A"
  by (rule rbed_acct_cong) auto

lemma Collect_insert_split:
  "{a \<in> insert d A. P a} = (if P d then insert d {a \<in> A. P a} else {a \<in> A. P a})"
  by auto

lemma rbed_acct_add_be:
  assumes "rbed_acct D k A" "d \<notin> A" "dcb_type (D d) = TASK_TYPE_BEST_EFFORT" "weight (D d) \<noteq> 0"
  shows "rbed_acct D (k\<lparr>w_be := w_be k + ucast (weight (D d)), n_be := n_be k + 1\<rparr>) (insert d A)"
  using assms unfolding rbed_acct_def Collect_insert_split by (auto simp: algebra_simps)

lemma rbed_acct_add_hrt:
  assumes "rbed_acct D k A" "d \<notin> A" "dcb_type (D d) = TASK_TYPE_HARD_REALTIME" "period (D d) \<noteq> 0"
    "u_target (D d) = Some u" "unat (u_hrt k) + unat u + unat (u_srt k) + BETA \<le> SPECTRUM"
  shows "rbed_acct D (k\<lparr>u_hrt := u_hrt k + u\<rparr>) (insert d A)"
proof -
  have "unat (u_hrt k + u) = unat (u_hrt k) + unat u"
    using assms(6) by (simp add: unat_word_ariths SPECTRUM_def)
  with assms show ?thesis unfolding rbed_acct_def Collect_insert_split by auto
qed

lemma rbed_acct_remove_be:
  assumes "rbed_acct D k A" "d \<in> A" "dcb_type (D d) = TASK_TYPE_BEST_EFFORT"
  shows "rbed_acct D (k\<lparr>w_be := w_be k - ucast (weight (D d)), n_be := n_be k - 1\<rparr>) (A - {d})"
proof -
  let ?B = "{a \<in> A. dcb_type (D a) = TASK_TYPE_BEST_EFFORT}"
  let ?H = "{a \<in> A. dcb_type (D a) = TASK_TYPE_HARD_REALTIME}"
  have B: "finite ?B" "d \<in> ?B" using assms by (auto simp: rbed_acct_def)
  have eq: "{a \<in> A - {d}. dcb_type (D a) = TASK_TYPE_BEST_EFFORT} = ?B - {d}"
    "{a \<in> A - {d}. dcb_type (D a) = TASK_TYPE_HARD_REALTIME} = ?H" using assms(3) by auto
  have "(of_nat (card ?B) :: u32) = of_nat (card (?B - {d})) + 1"
    unfolding card.remove [OF B] by simp
  with assms(1) sum.remove [OF B, of "\<lambda>a. ucast (weight (D a)) :: u32"] show ?thesis
    unfolding rbed_acct_def eq by simp
qed

lemma rbed_acct_remove_hrt:
  assumes "rbed_acct D k A" "d \<in> A" "dcb_type (D d) = TASK_TYPE_HARD_REALTIME" "u_target (D d) = Some u"
  shows "rbed_acct D (k\<lparr>u_hrt := u_hrt k - u\<rparr>) (A - {d})"
proof -
  let ?B = "{a \<in> A. dcb_type (D a) = TASK_TYPE_BEST_EFFORT}"
  let ?H = "{a \<in> A. dcb_type (D a) = TASK_TYPE_HARD_REALTIME}"
  have H: "finite ?H" "d \<in> ?H" using assms by (auto simp: rbed_acct_def)
  have eq: "{a \<in> A - {d}. dcb_type (D a) = TASK_TYPE_BEST_EFFORT} = ?B"
    "{a \<in> A - {d}. dcb_type (D a) = TASK_TYPE_HARD_REALTIME} = ?H - {d}" using assms(3) by auto
  have s: "unat (u_hrt k) = unat u + (\<Sum>a \<in> ?H - {d}. unat (the (u_target (D a))))"
    using assms sum.remove [OF H, of "\<lambda>a. unat (the (u_target (D a)))"] by (simp add: rbed_acct_def)
  then have "u \<le> u_hrt k" by (simp add: word_le_nat_alt)
  then have e: "unat (u_hrt k - u) = (\<Sum>a \<in> ?H - {d}. unat (the (u_target (D a))))"
    using s by (simp add: unat_sub)
  have "(\<Sum>a \<in> ?H - {d}. unat (the (u_target (D a)))) + unat (u_srt k) + BETA \<le> SPECTRUM"
    using assms(1) s by (simp add: rbed_acct_def)
  with e assms(1) show ?thesis unfolding rbed_acct_def eq by simp
qed

lemma overload_iff:
  assumes "unat h + unat r + BETA < 2 ^ 32"
  shows "h + r + BETA32 \<le> SPECTRUM32 \<longleftrightarrow> unat h + unat r + BETA \<le> SPECTRUM"
proof -
  have "unat (h + r + BETA32) = unat h + unat r + BETA"
    using assms by (simp add: unat_word_ariths BETA_def SPECTRUM_def)
  then show ?thesis by (simp add: word_le_nat_alt SPECTRUM_def)
qed

text \<open>A task that \<^verbatim>\<open>make_runnable\<close> accepts.\<close>

definition rbed_admits :: "kernel \<Rightarrow> addr \<Rightarrow> bool" where
  "rbed_admits s d \<longleftrightarrow>
     (case dcb_type (dcbs s d) of
        TASK_TYPE_BEST_EFFORT \<Rightarrow> True
      | TASK_TYPE_SOFT_REALTIME \<Rightarrow> False
      | TASK_TYPE_HARD_REALTIME \<Rightarrow>
          period (dcbs s d) \<noteq> 0 \<and> kernel_now s \<le> release_time (dcbs s d) \<and>
          unat (u_hrt (cur s)) + unat (the (u_target (dcbs s d))) + unat (u_srt (cur s)) + BETA \<le> SPECTRUM)"

definition be_release :: "kernel \<Rightarrow> dcb \<Rightarrow> dcb" where
  "be_release s x = x\<lparr>weight := (if weight x = 0 then 1 else weight x),
     period := ucast ((n_be (cur s) + 1) * kernel_timeslice s),
     dcb_deadline := ucast ((n_be (cur s) + 1) * kernel_timeslice s), release_time := kernel_now s\<rparr>"

lemma be_release_sel [simp]:
  "dcb_next (be_release s x) = dcb_next x" "dcb_type (be_release s x) = dcb_type x"
  "weight (be_release s x) \<noteq> 0" "release_time (be_release s x) = kernel_now s"
  by (simp_all add: be_release_def)

lemma rbed_make_runnable_be:
  assumes "\<not> in_queue d s" "dcb_type (dcbs s d) = TASK_TYPE_BEST_EFFORT"
    "u_hrt (cur s) + u_srt (cur s) + BETA32 \<le> SPECTRUM32"
  shows "rbed_make_runnable d s =
    queue_insert d (upd_dcb d (\<lambda>x. (be_release s x)\<lparr>etime := 0\<rparr>)
      (upd_cur (\<lambda>k. k\<lparr>w_be := w_be k + ucast (weight (be_release s (dcbs s d))), n_be := n_be k + 1\<rparr>) s))"
  using assms(1,2) leD [OF assms(3)]
  by (simp add: rbed_make_runnable_def be_release_def Let_def upd_dcb_def upd_cur_def upd_kcb_def)

lemma rbed_make_runnable_hrt:
  assumes "\<not> in_queue d s" "dcb_type (dcbs s d) = TASK_TYPE_HARD_REALTIME"
    "unat (u_hrt (cur s)) + unat (u_srt (cur s)) + BETA \<le> SPECTRUM"
    "u_target (dcbs s d) = Some u" "unat u \<le> SPECTRUM"
  shows "rbed_make_runnable d s =
    (if rbed_admits s d
     then queue_insert d (upd_dcb d (etime_update (\<lambda>_. 0))
            (upd_cur (\<lambda>k. k\<lparr>u_hrt := u_hrt k + u\<rparr>) s)) else None)"
proof -
  have "unat (u_hrt (cur s) + u) = unat (u_hrt (cur s)) + unat u"
    using assms(3,5) by (simp add: unat_word_ariths SPECTRUM_def)
  then have "\<not> u_hrt (cur s) + u + u_srt (cur s) + BETA32 > SPECTRUM32 \<longleftrightarrow>
      unat (u_hrt (cur s)) + unat u + unat (u_srt (cur s)) + BETA \<le> SPECTRUM"
    using overload_iff [of "u_hrt (cur s) + u" "u_srt (cur s)"] assms(3,5)
    by (simp add: not_less SPECTRUM_def)
  moreover have "period (dcbs s d) \<noteq> 0" using assms(4) by (auto simp: u_target_def split: if_splits)
  ultimately show ?thesis
    using assms by (auto simp: rbed_make_runnable_def rbed_admits_def not_less)
qed

lemma rbed_make_runnable_adds:
  assumes q: "rbed_queue s xs" and acct: "rbed_acct (dcbs s) (cur s) (set xs)" and d: "d \<notin> set xs"
    and adm: "rbed_admits s d"
    and u: "dcb_type (dcbs s d) = TASK_TYPE_HARD_REALTIME \<Longrightarrow> unat (the (u_target (dcbs s d))) \<le> SPECTRUM"
  shows "\<exists>s'. rbed_make_runnable d s = Some s' \<and> rbed_queue s' (rbed_insort (dcbs s') d xs) \<and>
           rbed_acct (dcbs s') (cur s') (insert d (set xs)) \<and> etime (dcbs s' d) = 0"
proof -
  have nq: "\<not> in_queue d s" using in_queue_iff [OF q] d by simp
  have load: "unat (u_hrt (cur s)) + unat (u_srt (cur s)) + BETA \<le> SPECTRUM"
    using acct by (simp add: rbed_acct_def)
  have "\<exists>f g. rbed_make_runnable d s = queue_insert d (upd_dcb d f (upd_cur g s)) \<and>
      (\<forall>x. dcb_next (f x) = dcb_next x) \<and> etime (f (dcbs s d)) = 0 \<and>
      (\<forall>k. queue_head (g k) = queue_head k \<and> queue_tail (g k) = queue_tail k) \<and>
      rbed_acct ((dcbs s)(d := f (dcbs s d))) (g (cur s)) (insert d (set xs))"
  proof (cases "dcb_type (dcbs s d) = TASK_TYPE_BEST_EFFORT")
    case True
    have w: "u_hrt (cur s) + u_srt (cur s) + BETA32 \<le> SPECTRUM32"
      using overload_iff [of "u_hrt (cur s)"] load by (simp add: SPECTRUM_def)
    let ?f = "\<lambda>x. (be_release s x)\<lparr>etime := 0\<rparr>"
    let ?D = "(dcbs s)(d := ?f (dcbs s d))"
    have "rbed_acct ?D (cur s) (set xs)"
      using acct d by (simp add: rbed_acct_upd)
    from rbed_acct_add_be [OF this d] True rbed_make_runnable_be [OF nq True w] show ?thesis
      by (intro exI [of _ ?f] exI [of _ "\<lambda>k. k\<lparr>w_be := w_be k + ucast (weight (be_release s (dcbs s d))),
           n_be := n_be k + 1\<rparr>"]) simp
  next
    case False
    with adm have h: "dcb_type (dcbs s d) = TASK_TYPE_HARD_REALTIME" and p: "period (dcbs s d) \<noteq> 0"
      by (auto simp: rbed_admits_def split: task_type.splits)
    then obtain u where ut: "u_target (dcbs s d) = Some u" by (auto simp: u_target_def)
    let ?f = "etime_update (\<lambda>_. 0)"
    let ?D = "(dcbs s)(d := ?f (dcbs s d))"
    have a: "rbed_acct ?D (cur s) (set xs)"
      using acct d by (simp add: rbed_acct_upd)
    have "u_target (?D d) = Some u" using ut by simp
    from rbed_acct_add_hrt [OF a d _ _ this] rbed_make_runnable_hrt [OF nq h load ut] h p u adm ut
    show ?thesis
      by (intro exI [of _ ?f] exI [of _ "\<lambda>k. k\<lparr>u_hrt := u_hrt k + u\<rparr>"])
        (auto simp: rbed_admits_def fun_upd_def)
  qed
  then obtain f g where fg: "rbed_make_runnable d s = queue_insert d (upd_dcb d f (upd_cur g s))"
      "\<And>x. dcb_next (f x) = dcb_next x" "etime (f (dcbs s d)) = 0"
      "\<And>k. queue_head (g k) = queue_head k" "\<And>k. queue_tail (g k) = queue_tail k"
      "rbed_acct ((dcbs s)(d := f (dcbs s d))) (g (cur s)) (insert d (set xs))" by blast
  let ?s1 = "upd_dcb d f (upd_cur g s)"
  have "rbed_queue ?s1 xs" using q fg(2,4,5) by (simp add: rbed_queue_def rbed_links_def)
  from queue_insert_spec [OF this d] obtain s' where
    s': "queue_insert d ?s1 = Some s'" "rbed_queue s' (rbed_insort (dcbs ?s1) d xs)"
      "erase_queue s' = erase_queue ?s1" by blast
  note fr = erase_queue_sel [OF s'(3)]
  have "rbed_insort (dcbs s') d xs = rbed_insort (dcbs ?s1) d xs"
    by (simp only: rbed_insort_def queue_skips_def fr)
  moreover have "rbed_acct (dcbs s') (cur s') (insert d (set xs))"
    using fg(6) rbed_acct_cong [of "insert d (set xs)" "dcbs s'" "dcbs ?s1" "cur s'" "cur ?s1"] fr by simp
  ultimately show ?thesis using fg(1,3) s' fr(3) [of d] by auto
qed

lemma rbed_make_runnable_on: "rbed_queue s xs \<Longrightarrow> d \<in> set xs \<Longrightarrow> rbed_make_runnable d s = Some s"
  by (simp add: rbed_make_runnable_def in_queue_iff)

lemma rbed_make_runnable_refuses:
  assumes "rbed_queue s xs" "rbed_acct (dcbs s) (cur s) (set xs)" "d \<notin> set xs" "\<not> rbed_admits s d"
    "dcb_type (dcbs s d) = TASK_TYPE_HARD_REALTIME \<Longrightarrow> unat (the (u_target (dcbs s d))) \<le> SPECTRUM"
  shows "rbed_make_runnable d s = None"
proof -
  have nq: "\<not> in_queue d s" using in_queue_iff [OF assms(1)] assms(3) by simp
  have load: "unat (u_hrt (cur s)) + unat (u_srt (cur s)) + BETA \<le> SPECTRUM"
    using assms(2) by (simp add: rbed_acct_def)
  show ?thesis
  proof (cases "dcb_type (dcbs s d)")
    case TASK_TYPE_HARD_REALTIME
    show ?thesis
    proof (cases "u_target (dcbs s d)")
      case None
      with nq TASK_TYPE_HARD_REALTIME show ?thesis by (simp add: rbed_make_runnable_def)
    next
      case (Some u)
      with rbed_make_runnable_hrt [OF nq TASK_TYPE_HARD_REALTIME load] assms(4,5)
        TASK_TYPE_HARD_REALTIME show ?thesis by simp
    qed
  next
    case TASK_TYPE_BEST_EFFORT
    with assms(4) show ?thesis by (simp add: rbed_admits_def)
  next
    case TASK_TYPE_SOFT_REALTIME
    with nq show ?thesis by (simp add: rbed_make_runnable_def)
  qed
qed


text \<open>
  C34. \<^verbatim>\<open>scheduler_remove\<close> always succeeds on a schedule with consistent counters, takes the task
  out of the queue and gives its share back.
\<close>

theorem rbed_scheduler_remove_correct:
  assumes q: "rbed_queue s xs" and acct: "rbed_acct (dcbs s) (cur s) (set xs)"
  shows "\<exists>s'. rbed_scheduler_remove d s = Some s' \<and> rbed_queue s' (remove1 d xs) \<and>
           rbed_acct (dcbs s') (cur s') (set xs - {d})"
proof (cases "d \<in> set xs")
  case False
  with assms in_queue_iff [OF q, of d] show ?thesis
    by (auto simp: rbed_scheduler_remove_def remove1_idem)
next
  case True
  from queue_remove_spec [OF q True] obtain s1 where
    s1: "queue_remove d s = Some s1" "rbed_queue s1 (remove1 d xs)" "erase_queue s1 = erase_queue s"
    by blast
  note fr = erase_queue_sel [OF s1(3)]
  have a1: "rbed_acct (dcbs s1) (cur s1) (set xs)"
    using acct rbed_acct_cong [of "set xs" "dcbs s1" "dcbs s" "cur s1" "cur s"] fr by simp
  have keep: "rbed_queue (upd_cur g s1) ys = rbed_queue s1 ys"
    if "\<And>k. queue_head (g k) = queue_head k" "\<And>k. queue_tail (g k) = queue_tail k" for g ys
    using that by (simp add: rbed_queue_def rbed_links_def)
  have start: "rbed_scheduler_remove d s = (case dcb_type (dcbs s1 d) of
      TASK_TYPE_BEST_EFFORT \<Rightarrow>
        Some (upd_cur (\<lambda>k. k\<lparr>w_be := w_be k - ucast (weight (dcbs s1 d)), n_be := n_be k - 1\<rparr>) s1)
    | TASK_TYPE_SOFT_REALTIME \<Rightarrow> None
    | TASK_TYPE_HARD_REALTIME \<Rightarrow> do {
        u \<leftarrow> u_target (dcbs s1 d);
        Some (upd_cur (\<lambda>k. k\<lparr>u_hrt := u_hrt k - u\<rparr>) s1)
      })"
    using True in_queue_iff [OF q] s1(1) by (simp add: rbed_scheduler_remove_def)
  show ?thesis
  proof (cases "dcb_type (dcbs s1 d)")
    case TASK_TYPE_BEST_EFFORT
    with start rbed_acct_remove_be [OF a1 True TASK_TYPE_BEST_EFFORT] s1(2) show ?thesis
      by (simp add: keep)
  next
    case TASK_TYPE_SOFT_REALTIME
    with a1 True show ?thesis by (simp add: rbed_acct_def)
  next
    case TASK_TYPE_HARD_REALTIME
    with a1 True obtain u where "u_target (dcbs s1 d) = Some u"
      by (auto simp: rbed_acct_def u_target_def)
    with start rbed_acct_remove_hrt [OF a1 True TASK_TYPE_HARD_REALTIME] s1(2)
      TASK_TYPE_HARD_REALTIME show ?thesis
      by (simp add: keep)
  qed
qed

section \<open>Yielding\<close>

lemma rbed_insort_tail:
  "(\<And>a. a \<in> set xs \<Longrightarrow> queue_skips (D d) (D a)) \<Longrightarrow> rbed_insort D d xs = xs @ [d]"
  by (simp add: rbed_insort_def)

text \<open>
  \<^verbatim>\<open>scheduler_yield\<close> of a queued, released task always succeeds.  The task is requeued with a
  fresh budget: a real-time task one period later, at the place of its new deadline; a
  best-effort task behind all the other tasks when none of them is released in the future,
  so that best-effort tasks take turns.
\<close>

theorem rbed_scheduler_yield_correct:
  assumes q: "rbed_queue s xs" and d: "d \<in> set xs" "release_time (dcbs s d) \<le> kernel_now s"
  shows "\<exists>s' ys. rbed_scheduler_yield d s = Some s' \<and> rbed_queue s' ys \<and>
     ys = rbed_insort (dcbs s') d (remove1 d xs) \<and> etime (dcbs s' d) = 0 \<and> lastdisp s' = None \<and>
     release_time (dcbs s' d) =
       (if dcb_type (dcbs s d) = TASK_TYPE_BEST_EFFORT then kernel_now s
        else release_time (dcbs s d) + period (dcbs s d)) \<and>
     (dcb_type (dcbs s d) = TASK_TYPE_BEST_EFFORT \<and>
        (\<forall>a \<in> set xs. release_time (dcbs s a) \<le> kernel_now s) \<longrightarrow> ys = remove1 d xs @ [d])"
proof -
  from queue_remove_spec [OF q d(1)] obtain s1 where
    s1: "queue_remove d s = Some s1" "rbed_queue s1 (remove1 d xs)" "erase_queue s1 = erase_queue s"
    by blast
  note fr = erase_queue_frame [OF s1(3)]
  define f where "f x = (case dcb_type x of
       TASK_TYPE_HARD_REALTIME \<Rightarrow> x\<lparr>release_time := release_time x + period x\<rparr>
     | TASK_TYPE_SOFT_REALTIME \<Rightarrow> x\<lparr>release_time := release_time x + period x\<rparr>
     | TASK_TYPE_BEST_EFFORT \<Rightarrow> x\<lparr>release_time := kernel_now s1\<rparr>)" for x :: dcb
  let ?s2 = "(upd_dcb d (etime_update (\<lambda>_. 0)) (upd_dcb d f s1))\<lparr>lastdisp := None\<rparr>"
  have f: "dcb_next (f x) = dcb_next x" "dcb_type (f x) = dcb_type x"
    "release_time (f x) = (if dcb_type x = TASK_TYPE_BEST_EFFORT then kernel_now s
                           else release_time x + period x)" for x
    using fr(4) by (auto simp: f_def split: task_type.splits)
  have q2: "rbed_queue ?s2 (remove1 d xs)"
    using s1(2) f(1) by (simp add: rbed_queue_def rbed_links_def)
  have "distinct xs" using q by (auto simp: rbed_queue_def rbed_links_def dest: lseg_distinct)
  then have dn: "d \<notin> set (remove1 d xs)" by simp
  from queue_insert_spec [OF q2 dn] obtain s3 where
    s3: "queue_insert d ?s2 = Some s3" "rbed_queue s3 (rbed_insort (dcbs ?s2) d (remove1 d xs))"
      "erase_queue s3 = erase_queue ?s2" by blast
  note fr3 = erase_queue_frame [OF s3(3)]
  have ins: "rbed_insort (dcbs s3) d (remove1 d xs) = rbed_insort (dcbs ?s2) d (remove1 d xs)"
    by (simp only: rbed_insort_def queue_skips_def fr3)
  have "rbed_scheduler_yield d s = queue_insert d ?s2"
    using d in_queue_iff [OF q] s1(1)
    by (auto simp: rbed_scheduler_yield_def f_def [abs_def] Let_def not_le)
  moreover have "rbed_insort (dcbs ?s2) d (remove1 d xs) = remove1 d xs @ [d]"
    if be: "dcb_type (dcbs s d) = TASK_TYPE_BEST_EFFORT"
      "\<forall>a \<in> set xs. release_time (dcbs s a) \<le> kernel_now s"
  proof (rule rbed_insort_tail)
    fix a
    assume "a \<in> set (remove1 d xs)"
    then have "a \<in> set xs" "a \<noteq> d" using dn notin_set_remove1 by fastforce+
    with be fr(8,9) f show "queue_skips (dcbs ?s2 d) (dcbs ?s2 a)"
      by (simp add: queue_skips_def)
  qed
  ultimately show ?thesis
    using s3(1,2) ins fr3(2,9,10) fr(8,9,12) f
    by (intro exI [of _ s3] exI [of _ "rbed_insort (dcbs s3) d (remove1 d xs)"]) auto
qed

section \<open>Taking over the ring of the round-robin scheduler\<close>

lemma rbed_make_runnable_be_links:
  assumes l: "rbed_links s ps" and i: "i \<notin> set ps" "snext s i = None"
    and be: "dcb_type (dcbs s i) = TASK_TYPE_BEST_EFFORT"
    and acct: "rbed_acct (dcbs s) (cur s) (set ps)"
    and rel: "\<And>a. a \<in> set ps \<Longrightarrow> release_time (dcbs s a) \<le> kernel_now s"
  shows "\<exists>s'. rbed_make_runnable i s = Some s' \<and> rbed_links s' (ps @ [i]) \<and>
     rbed_acct (dcbs s') (cur s') (set (ps @ [i])) \<and>
     (\<forall>a. a \<notin> set ps \<longrightarrow> a \<noteq> i \<longrightarrow> snext s' a = snext s a) \<and>
     (\<forall>a. release_time (dcbs s' a) = (if a = i then kernel_now s else release_time (dcbs s a))) \<and>
     kernel_now s' = kernel_now s \<and> ring_current (cur s') = ring_current (cur s)"
proof -
  let ?f = "\<lambda>x. (be_release s x)\<lparr>etime := 0\<rparr>"
  let ?g = "\<lambda>k. k\<lparr>w_be := w_be k + ucast (weight (be_release s (dcbs s i))), n_be := n_be k + 1\<rparr>"
  let ?s1 = "upd_dcb i ?f (upd_cur ?g s)"
  have nq: "\<not> in_queue i s"
    using l i last_or_in [of None ps i]
    by (auto simp: in_queue_def rbed_links_def snext_def [symmetric])
  have load: "u_hrt (cur s) + u_srt (cur s) + BETA32 \<le> SPECTRUM32"
    using acct overload_iff [of "u_hrt (cur s)" "u_srt (cur s)"] by (simp add: rbed_acct_def SPECTRUM_def)
  have "rbed_links ?s1 ps" "snext ?s1 i = None" using l i by (simp_all add: rbed_links_def)
  from queue_insert_links [OF this(1) i(1) this(2)] obtain s' where
    s': "queue_insert i ?s1 = Some s'" "rbed_links s' (rbed_insort (dcbs ?s1) i ps)"
      "erase_queue s' = erase_queue ?s1"
      "\<And>a. a \<notin> set ps \<Longrightarrow> a \<noteq> i \<Longrightarrow> snext s' a = snext ?s1 a" by blast
  note fr = erase_queue_frame [OF s'(3)]
  have ins: "rbed_insort (dcbs ?s1) i ps = ps @ [i]"
    using rel i(1) be by (intro rbed_insort_tail) (auto simp: queue_skips_def)
  have "rbed_acct ((dcbs s)(i := ?f (dcbs s i))) (cur s) (set ps)"
    using acct i(1) by (simp add: rbed_acct_upd)
  from rbed_acct_add_be [OF this i(1)] be
  have a1: "rbed_acct (dcbs ?s1) (cur ?s1) (insert i (set ps))" by simp
  have "rbed_acct (dcbs s') (cur s') (set (ps @ [i]))"
    using a1 rbed_acct_cong [of "insert i (set ps)" "dcbs s'" "dcbs ?s1" "cur s'" "cur ?s1"] fr by simp
  moreover have "release_time (dcbs s' a) = (if a = i then kernel_now s else release_time (dcbs s a))" for a
    using fr(9) [of a] by simp
  moreover have "rbed_make_runnable i s = Some s'"
    using rbed_make_runnable_be [OF nq be load] s'(1) by simp
  ultimately show ?thesis
    using s'(2,4) fr(4,21) unfolding ins by (intro exI [of _ s']) auto
qed

text \<open>One iteration of the conversion loop.\<close>

lemma convert_step:
  assumes l: "rbed_links s ps" and i: "i \<notin> set ps" and acct: "rbed_acct (dcbs s) (cur s) (set ps)"
    and rel: "\<And>a. a \<in> set ps \<Longrightarrow> release_time (dcbs s a) = kernel_now s"
  shows "\<exists>s'. rbed_make_runnable i (upd_dcb i (\<lambda>x. x\<lparr>dcb_next := None, dcb_prev := None\<rparr>)
               (upd_dcb i (dcb_type_update (\<lambda>_. TASK_TYPE_BEST_EFFORT)) s)) = Some s' \<and>
     rbed_links s' (ps @ [i]) \<and> rbed_acct (dcbs s') (cur s') (set (ps @ [i])) \<and>
     (\<forall>a. a \<notin> set ps \<longrightarrow> a \<noteq> i \<longrightarrow> snext s' a = snext s a) \<and>
     (\<forall>a \<in> set (ps @ [i]). release_time (dcbs s' a) = kernel_now s') \<and>
     kernel_now s' = kernel_now s \<and> ring_current (cur s') = ring_current (cur s)"
proof -
  let ?s1 = "upd_dcb i (\<lambda>x. x\<lparr>dcb_next := None, dcb_prev := None\<rparr>)
               (upd_dcb i (dcb_type_update (\<lambda>_. TASK_TYPE_BEST_EFFORT)) s)"
  have l1: "rbed_links ?s1 ps" and a1: "rbed_acct (dcbs ?s1) (cur ?s1) (set ps)"
    using l i acct by (simp_all add: rbed_links_def rbed_acct_upd)
  have r1: "release_time (dcbs ?s1 a) \<le> kernel_now ?s1" if "a \<in> set ps" for a
    using rel [OF that] that i by auto
  have "snext ?s1 i = None" "dcb_type (dcbs ?s1 i) = TASK_TYPE_BEST_EFFORT" by simp_all
  from rbed_make_runnable_be_links [OF l1 i this a1 r1] obtain s' where
    s': "rbed_make_runnable i ?s1 = Some s'" "rbed_links s' (ps @ [i])"
      "rbed_acct (dcbs s') (cur s') (set (ps @ [i]))"
      "\<And>a. a \<notin> set ps \<Longrightarrow> a \<noteq> i \<Longrightarrow> snext s' a = snext ?s1 a"
      "\<And>a. release_time (dcbs s' a) = (if a = i then kernel_now ?s1 else release_time (dcbs ?s1 a))"
      "kernel_now s' = kernel_now ?s1" "ring_current (cur s') = ring_current (cur ?s1)"
    by blast
  have "release_time (dcbs s' a) = kernel_now s'" if "a \<in> set (ps @ [i])" for a
    using s'(5) [of a] s'(6) rel [of a] that by (cases "a = i") auto
  with s' show ?thesis by (intro exI [of _ s']) simp
qed

lemma convert_ring_unfold:
  assumes "rbed_make_runnable i (upd_dcb i (\<lambda>x. x\<lparr>dcb_next := None, dcb_prev := None\<rparr>)
             (upd_dcb i (dcb_type_update (\<lambda>_. TASK_TYPE_BEST_EFFORT)) s)) = Some s'"
  shows "convert_ring i s = (if snext s i = ring_current (cur s') then Some s'
           else Option.bind (snext s i) (\<lambda>j. convert_ring j s'))"
  using assms by (auto simp: convert_ring.simps [of i s] snext_def split: option.splits)

lemma convert_ring_spec:
  assumes "rbed_links s ps" "lseg (snext s) (Some i) (i # rs) (Some c)" "distinct (ps @ i # rs)"
    "ring_current (cur s) = Some c" "c = hd (ps @ i # rs)"
    "rbed_acct (dcbs s) (cur s) (set ps)"
    "\<And>a. a \<in> set ps \<Longrightarrow> release_time (dcbs s a) = kernel_now s"
    "\<And>a. a \<notin> set (ps @ i # rs) \<Longrightarrow> snext s a = None"
  shows "\<exists>s'. convert_ring i s = Some s' \<and> rbed_queue s' (ps @ i # rs) \<and>
     rbed_acct (dcbs s') (cur s') (set (ps @ i # rs)) \<and>
     (\<forall>a \<in> set (ps @ i # rs). release_time (dcbs s' a) = kernel_now s')"
  using assms
proof (induction rs arbitrary: ps i s)
  case Nil
  from Nil.prems(3) have i: "i \<notin> set ps" by simp
  from convert_step [OF Nil.prems(1) i Nil.prems(6,7)] obtain s' where
    s': "rbed_make_runnable i (upd_dcb i (\<lambda>x. x\<lparr>dcb_next := None, dcb_prev := None\<rparr>)
               (upd_dcb i (dcb_type_update (\<lambda>_. TASK_TYPE_BEST_EFFORT)) s)) = Some s'"
      "rbed_links s' (ps @ [i])" "rbed_acct (dcbs s') (cur s') (set (ps @ [i]))"
      "\<And>a. a \<notin> set ps \<Longrightarrow> a \<noteq> i \<Longrightarrow> snext s' a = snext s a"
      "\<forall>a \<in> set (ps @ [i]). release_time (dcbs s' a) = kernel_now s'"
      "kernel_now s' = kernel_now s" "ring_current (cur s') = ring_current (cur s)"
    by blast
  have "convert_ring i s = Some s'"
    using convert_ring_unfold [OF s'(1)] Nil.prems(2,4) s'(7) by simp
  moreover have "rbed_queue s' (ps @ [i])" using s'(2,4) Nil.prems(8) by (simp add: rbed_queue_def)
  ultimately show ?case using s'(3,5) by blast
next
  case (Cons j rs)
  from Cons.prems(3) have i: "i \<notin> set ps" by simp
  from convert_step [OF Cons.prems(1) i Cons.prems(6,7)] obtain s1 where
    s1: "rbed_make_runnable i (upd_dcb i (\<lambda>x. x\<lparr>dcb_next := None, dcb_prev := None\<rparr>)
               (upd_dcb i (dcb_type_update (\<lambda>_. TASK_TYPE_BEST_EFFORT)) s)) = Some s1"
      "rbed_links s1 (ps @ [i])" "rbed_acct (dcbs s1) (cur s1) (set (ps @ [i]))"
      "\<And>a. a \<notin> set ps \<Longrightarrow> a \<noteq> i \<Longrightarrow> snext s1 a = snext s a"
      "\<And>a. a \<in> set (ps @ [i]) \<Longrightarrow> release_time (dcbs s1 a) = kernel_now s1"
      "kernel_now s1 = kernel_now s" "ring_current (cur s1) = ring_current (cur s)"
    by blast
  have nx: "snext s i = Some j" "j \<noteq> c"
    using Cons.prems(2,3,5) by (cases ps; auto)+
  have "lseg (snext s1) (Some j) (j # rs) (Some c) = lseg (snext s) (Some j) (j # rs) (Some c)"
    using s1(4) Cons.prems(3) by (intro lseg_cong) auto
  then have seg: "lseg (snext s1) (Some j) (j # rs) (Some c)"
    using Cons.prems(2) by simp
  have off: "snext s1 a = None" if "a \<notin> set ((ps @ [i]) @ j # rs)" for a
    using that s1(4) [of a] Cons.prems(8) [of a] by auto
  have "distinct ((ps @ [i]) @ j # rs)" "ring_current (cur s1) = Some c" "c = hd ((ps @ [i]) @ j # rs)"
    using Cons.prems(3-5) s1(7) by (auto simp: hd_append)
  from Cons.IH [OF s1(2) seg this s1(3,5) off]
  have "\<exists>s'. convert_ring j s1 = Some s' \<and> rbed_queue s' (ps @ i # j # rs) \<and>
     rbed_acct (dcbs s') (cur s') (set (ps @ i # j # rs)) \<and>
     (\<forall>a \<in> set (ps @ i # j # rs). release_time (dcbs s' a) = kernel_now s')" by simp
  moreover have "convert_ring i s = convert_ring j s1"
    using convert_ring_unfold [OF s1(1)] nx Cons.prems(4) s1(7) by simp
  ultimately show ?case by simp
qed

text \<open>
  Converting from the round-robin scheduler: a non-empty ring becomes the run queue in ring
  order, starting with the current dispatcher; every task is best-effort, released now, and
  counted in the utilization counters.
\<close>

theorem rbed_scheduler_convert_queue:
  assumes "sched (cur s) = SCHED_RR" "rr_ring s xs" "xs \<noteq> []" "rbed_links s []"
    "rbed_acct (dcbs s) (cur s) {}"
  shows "\<exists>s'. rbed_scheduler_convert s = Some s' \<and> rbed_queue s' xs \<and>
     rbed_acct (dcbs s') (cur s') (set xs) \<and>
     (\<forall>a \<in> set xs. release_time (dcbs s' a) = kernel_now s')"
proof -
  obtain c ys where xs: "xs = c # ys" using assms(3) by (cases xs) auto
  from assms(2) have "lseg (snext s) (Some c) (c # ys) (Some c)" "distinct (c # ys)"
    "ring_current (cur s) = Some c" "\<And>a. a \<notin> set (c # ys) \<Longrightarrow> snext s a = None"
    unfolding xs rr_ring_def cyc_def by (auto dest: dseg_lseg)
  with convert_ring_spec [of s "[]" c ys c] assms show ?thesis
    by (auto simp: rbed_scheduler_convert_def xs)
qed

section \<open>Resetting the clock\<close>

definition cleared :: "addr set \<Rightarrow> (addr \<Rightarrow> dcb) \<Rightarrow> addr \<Rightarrow> dcb" where
  "cleared A D d = (if d \<in> A then (D d)\<lparr>release_time := 0, etime := 0, last_dispatch := 0\<rparr> else D d)"

lemma cleared_sel [simp]:
  "dcb_next (cleared A D d) = dcb_next (D d)"
  by (simp add: cleared_def)

lemma cleared_empty [simp]: "cleared {} D = D"
  by (simp add: cleared_def fun_eq_iff)

lemma cleared_union: "cleared B (cleared A D) = cleared (A \<union> B) D"
  by (auto simp: cleared_def fun_eq_iff)

lemma snext_upd_dcbs: "snext (s\<lparr>dcbs := cleared A (dcbs s)\<rparr>) = snext s"
  by (auto simp: snext_def)

lemma reset_queue_spec:
  "lseg (snext s) i xs None \<Longrightarrow> reset_queue i s = Some (s\<lparr>dcbs := cleared (set xs) (dcbs s)\<rparr>)"
proof (induction xs arbitrary: i s)
  case Nil
  then show ?case by (simp add: reset_queue.simps)
next
  case (Cons x xs)
  let ?s = "upd_dcb x (\<lambda>x. x\<lparr>release_time := 0, etime := 0, last_dispatch := 0\<rparr>) s"
  from Cons.prems have i: "i = Some x" "lseg (snext ?s) (dcb_next (dcbs ?s x)) xs None"
    by (auto simp: snext_def [symmetric])
  have "?s = s\<lparr>dcbs := cleared {x} (dcbs s)\<rparr>"
    by (auto simp: upd_dcb_def cleared_def fun_eq_iff intro!: arg_cong [of _ _ "\<lambda>D. s\<lparr>dcbs := D\<rparr>"])
  with Cons.IH [OF i(2)] i(1) show ?case
    by (simp add: reset_queue.simps [of "Some x"] Let_def cleared_union)
qed

lemma reset_kcbs_spec:
  assumes "lseg (\<lambda>k. kcb_next (kcbs s k)) (Some k) (k # ks) e" "e = None \<or> e = Some (kcb_current s)"
    "kcb_current s \<notin> set ks" "\<And>k'. k' \<in> set (k # ks) \<Longrightarrow> lseg (snext s) (queue_head (kcbs s k')) (Q k') None"
  shows "reset_kcbs k s = Some (s\<lparr>dcbs := cleared (\<Union>k' \<in> set (k # ks). set (Q k')) (dcbs s)\<rparr>)"
  using assms
proof (induction ks arbitrary: k s)
  case Nil
  then have "reset_queue (queue_head (kcbs s k)) s = Some (s\<lparr>dcbs := cleared (set (Q k)) (dcbs s)\<rparr>)"
    by (intro reset_queue_spec) simp
  with Nil.prems show ?case by (auto simp: reset_kcbs.simps [of k s])
next
  case (Cons j ks)
  let ?s = "s\<lparr>dcbs := cleared (set (Q k)) (dcbs s)\<rparr>"
  have r: "reset_queue (queue_head (kcbs s k)) s = Some ?s"
    using Cons.prems by (intro reset_queue_spec) simp
  have "reset_kcbs j ?s = Some (?s\<lparr>dcbs := cleared (\<Union>k' \<in> set (j # ks). set (Q k')) (dcbs ?s)\<rparr>)"
    by (rule Cons.IH) (use Cons.prems in \<open>auto simp: snext_upd_dcbs\<close>)
  with r Cons.prems show ?case by (auto simp: reset_kcbs.simps [of k s] cleared_union Un_assoc)
qed

text \<open>
  \<^verbatim>\<open>scheduler_reset_time\<close> always returns: it walks the kcbs from the current one, whether
  they form a ring or end in \<^verbatim>\<open>NULL\<close>, re-releases exactly the tasks queued on them at time 0
  with a fresh budget, and forgets the last dispatched task; no link changes.
\<close>

theorem rbed_scheduler_reset_time_correct:
  assumes "lseg (\<lambda>k. kcb_next (kcbs s k)) (Some (kcb_current s)) (kcb_current s # ks) e"
    "e = None \<or> e = Some (kcb_current s)" "kcb_current s \<notin> set ks"
    "\<forall>k \<in> set (kcb_current s # ks). lseg (snext s) (queue_head (kcbs s k)) (Q k) None"
  shows "rbed_scheduler_reset_time s = Some (s\<lparr>kernel_now := 0, lastdisp := None,
     dcbs := cleared (\<Union>k \<in> set (kcb_current s # ks). set (Q k)) (dcbs s)\<rparr>)"
proof -
  let ?s = "s\<lparr>kernel_now := 0\<rparr>"
  have sn: "snext ?s = snext s" by (auto simp: snext_def)
  have "reset_kcbs (kcb_current s) ?s =
      Some (?s\<lparr>dcbs := cleared (\<Union>k \<in> set (kcb_current s # ks). set (Q k)) (dcbs ?s)\<rparr>)"
    by (rule reset_kcbs_spec) (use assms in \<open>auto simp: sn\<close>)
  then have "rbed_scheduler_reset_time s =
      Some (?s\<lparr>dcbs := cleared (\<Union>k \<in> set (kcb_current s # ks). set (Q k)) (dcbs s), lastdisp := None\<rparr>)"
    by (simp add: rbed_scheduler_reset_time_def)
  moreover have "?s\<lparr>dcbs := D, lastdisp := None\<rparr> = s\<lparr>kernel_now := 0, lastdisp := None, dcbs := D\<rparr>" for D
    by (rule kernel.equality) simp_all
  ultimately show ?thesis by simp
qed

section \<open>Limits of the 32-bit arithmetic\<close>

text \<open>
  C36. The admission test is blind to a utilization that overflows: \<^verbatim>\<open>u_target\<close> is truncated to 32
  bits, so a hard real-time task that asks for a multiple of \<open>2 ^ 32\<close> millionths of the
  processor is admitted as if it needed nothing, and \<open>u_hrt\<close> does not change.
\<close>

theorem rbed_admission_overflow:
  assumes "rbed_queue s xs" "rbed_acct (dcbs s) (cur s) (set xs)" "d \<notin> set xs"
    "dcb_type (dcbs s d) = TASK_TYPE_HARD_REALTIME" "kernel_now s \<le> release_time (dcbs s d)"
    "period (dcbs s d) \<noteq> 0" "unat (wcet (dcbs s d)) * SPECTRUM < 2 ^ 64"
    "(unat (wcet (dcbs s d)) * SPECTRUM div unat (period (dcbs s d))) mod 2 ^ 32 = 0"
  shows "\<exists>s'. rbed_make_runnable d s = Some s' \<and> rbed_queue s' (rbed_insort (dcbs s') d xs) \<and>
           u_hrt (cur s') = u_hrt (cur s)"
proof -
  let ?q = "wcet (dcbs s d) * of_nat SPECTRUM div period (dcbs s d)"
  have "unat ?q = unat (wcet (dcbs s d)) * SPECTRUM div unat (period (dcbs s d))"
    using assms(7) by (simp add: unat_div unat_word_ariths SPECTRUM_def)
  then have "unat (ucast ?q :: u32) = 0"
    using assms(8) by (simp add: unsigned_ucast_eq take_bit_eq_mod)
  then have "(ucast ?q :: u32) = 0" by (simp add: unat_eq_zero)
  then have ut: "u_target (dcbs s d) = Some 0" using assms(6) by (simp add: u_target_def)
  have nq: "\<not> in_queue d s" using in_queue_iff [OF assms(1)] assms(3) by simp
  have load: "unat (u_hrt (cur s)) + unat (u_srt (cur s)) + BETA \<le> SPECTRUM"
    using assms(2) by (simp add: rbed_acct_def)
  let ?s1 = "upd_dcb d (etime_update (\<lambda>_. 0)) (upd_cur (\<lambda>k. k\<lparr>u_hrt := u_hrt k + 0\<rparr>) s)"
  have "rbed_admits s d" using assms(4,5,6) ut load by (simp add: rbed_admits_def)
  with rbed_make_runnable_hrt [OF nq assms(4) load ut]
  have mk: "rbed_make_runnable d s = queue_insert d ?s1" by simp
  have "rbed_queue ?s1 xs" using assms(1) by (simp add: rbed_queue_def rbed_links_def)
  from queue_insert_spec [OF this assms(3)] obtain s' where
    s': "queue_insert d ?s1 = Some s'" "rbed_queue s' (rbed_insort (dcbs ?s1) d xs)"
      "erase_queue s' = erase_queue ?s1" by blast
  note fr = erase_queue_sel [OF s'(3)]
  have "rbed_insort (dcbs s') d xs = rbed_insort (dcbs ?s1) d xs"
    by (simp only: rbed_insort_def queue_skips_def fr)
  with mk s' fr(10) show ?thesis by auto
qed

lemma sum_const_word: "finite A \<Longrightarrow> (\<And>a. a \<in> A \<Longrightarrow> f a = 1) \<Longrightarrow> sum f A = (of_nat (card A) :: u32)"
  by simp


section \<open>The RBED scheduler as a provider for the timeout queue\<close>

text \<open>
  On a kernel that runs best-effort dispatchers only, within its load limit, every call of
  \<^verbatim>\<open>make_runnable\<close> succeeds.
\<close>

definition rbed_be_only :: "kernel \<Rightarrow> bool" where
  "rbed_be_only s \<longleftrightarrow>
     (\<exists>xs. rbed_queue s xs) \<and> (\<forall>d. dcb_type (dcbs s d) = TASK_TYPE_BEST_EFFORT) \<and>
     u_hrt (cur s) + u_srt (cur s) + BETA32 \<le> SPECTRUM32"

definition rbed_runnable :: "kernel \<Rightarrow> addr \<Rightarrow> bool" where
  "rbed_runnable s d \<longleftrightarrow> in_queue d s"

lemma wakeup_sel_upd_tail [simp]:
  "wtime (s\<lparr>g_queue_tail := t\<rparr>) = wtime s" "wnext (s\<lparr>g_queue_tail := t\<rparr>) = wnext s"
  "wprev (s\<lparr>g_queue_tail := t\<rparr>) = wprev s" "timer_good (s\<lparr>g_queue_tail := t\<rparr>) = timer_good s"
  by (auto simp: wtime_def wnext_def wprev_def timer_good_def timer_inv_def)

lemma queue_insert_wakeup_frame:
  assumes "queue_insert d s = Some s'"
  shows "wakeup_frame s s'"
proof (cases "queue_head (cur s) = None")
  case True
  with assms show ?thesis by (auto simp: queue_insert_def wakeup_frame_def)
next
  case False
  with assms obtain p i where "queue_find s d None (queue_head (cur s)) = Some (p, i)"
    by (auto simp: queue_insert_def bind_eq_Some_conv)
  with False assms show ?thesis
    by (cases i; cases p) (auto simp: queue_insert_def wakeup_frame_def Let_def bind_eq_Some_conv)
qed

lemma rbed_make_runnable_frame: "rbed_make_runnable d s = Some s' \<Longrightarrow> wakeup_frame s s'"
  by (auto simp: rbed_make_runnable_def Let_def bind_eq_Some_conv wakeup_frame_def
      dest!: queue_insert_wakeup_frame split: if_splits task_type.splits)

lemma rbed_make_runnable_be_adds:
  assumes q: "rbed_queue s xs" and be: "\<And>a. dcb_type (dcbs s a) = TASK_TYPE_BEST_EFFORT"
    and load: "u_hrt (cur s) + u_srt (cur s) + BETA32 \<le> SPECTRUM32" and d: "d \<notin> set xs"
  shows "\<exists>s'. rbed_make_runnable d s = Some s' \<and> rbed_queue s' (rbed_insort (dcbs s') d xs) \<and> rbed_be_only s'"
proof -
  have nq: "\<not> in_queue d s" using in_queue_iff [OF q] d by simp
  let ?s1 = "upd_dcb d (\<lambda>x. (be_release s x)\<lparr>etime := 0\<rparr>)
    (upd_cur (\<lambda>k. k\<lparr>w_be := w_be k + ucast (weight (be_release s (dcbs s d))), n_be := n_be k + 1\<rparr>) s)"
  have "rbed_queue ?s1 xs" using q by (simp add: rbed_queue_def rbed_links_def)
  from queue_insert_spec [OF this d] obtain s' where
    s': "queue_insert d ?s1 = Some s'" "rbed_queue s' (rbed_insort (dcbs ?s1) d xs)"
      "erase_queue s' = erase_queue ?s1" by blast
  note fr = erase_queue_sel [OF s'(3)]
  have "rbed_insort (dcbs s') d xs = rbed_insort (dcbs ?s1) d xs"
    by (simp only: rbed_insort_def queue_skips_def fr)
  moreover have "rbed_be_only s'"
    unfolding rbed_be_only_def using s'(2) fr(1,10,11) be load by auto
  ultimately show ?thesis
    using rbed_make_runnable_be [OF nq be load] s' by auto
qed

lemma rbed_make_runnable_be_only:
  assumes "rbed_queue s xs" "rbed_be_only s"
  shows "\<exists>s' ys. rbed_make_runnable d s = Some s' \<and> rbed_queue s' ys \<and> set ys = insert d (set xs) \<and>
           rbed_be_only s'"
proof (cases "d \<in> set xs")
  case True
  with assms rbed_make_runnable_on [OF assms(1) True] show ?thesis by (auto simp: insert_absorb)
next
  case False
  with assms rbed_make_runnable_be_adds [OF assms(1) _ _ False] show ?thesis
    unfolding rbed_be_only_def by fastforce
qed

lemma rbed_queue_unique: "rbed_queue s xs \<Longrightarrow> rbed_queue s ys \<Longrightarrow> set xs = set ys"
  using in_queue_iff [of s xs] in_queue_iff [of s ys] by blast

interpretation rbed: runnable_provider rbed_make_runnable rbed_runnable rbed_be_only
proof
  fix d a s s' t
  show "wakeup_frame s s'" if "rbed_make_runnable d s = Some s'"
    using that by (rule rbed_make_runnable_frame)
  show "rbed_runnable s' a \<longleftrightarrow> rbed_runnable s a \<or> a = d" "rbed_be_only s'"
    if "rbed_be_only s" "rbed_make_runnable d s = Some s'"
  proof -
    from that(1) obtain xs where xs: "rbed_queue s xs" by (auto simp: rbed_be_only_def)
    from rbed_make_runnable_be_only [OF xs that(1), of d] that(2) obtain ys where
      ys: "rbed_queue s' ys" "set ys = insert d (set xs)" "rbed_be_only s'" by auto
    with in_queue_iff [OF ys(1), of a] in_queue_iff [OF xs, of a]
    show "rbed_runnable s' a \<longleftrightarrow> rbed_runnable s a \<or> a = d" "rbed_be_only s'"
      by (auto simp: rbed_runnable_def)
  qed
  assume er: "erase_wakeup s = erase_wakeup t"
  note eq = erase_wakeup_eqD [OF er]
  have "in_queue a s \<longleftrightarrow> in_queue a t" for a
    using eq by (simp add: in_queue_def snext_def [symmetric])
  then show "rbed_runnable s a \<longleftrightarrow> rbed_runnable t a" by (simp add: rbed_runnable_def)
  have "rbed_queue s xs = rbed_queue t xs" for xs
    unfolding rbed_queue_def rbed_links_def eq ..
  moreover have "dcb_type (dcbs s d) = dcb_type (dcbs t d)" for d
    using arg_cong [OF er, of "\<lambda>s. dcb_type (dcbs s d)"] by (simp add: erase_wakeup_def)
  moreover have "u_hrt (cur s) = u_hrt (cur t)" "u_srt (cur s) = u_srt (cur t)"
    using arg_cong [OF er, of "\<lambda>s. u_hrt (cur s)"] arg_cong [OF er, of "\<lambda>s. u_srt (cur s)"]
    by (simp_all add: erase_wakeup_def)
  ultimately show "rbed_be_only t" if "rbed_be_only s"
    using that by (simp add: rbed_be_only_def)
qed

text \<open>
  C32. With the RBED scheduler on a kernel of best-effort dispatchers, \<^verbatim>\<open>wakeup_check\<close> always
  returns: the dispatchers whose wakeup time has come join the run queue and leave the
  timeout queue, the others stay queued in order, and the run queue loses no one.
\<close>

theorem rbed_wakeup_check_correct:
  assumes "wakeup_queue s xs" "rbed_queue s rs" "rbed_be_only s" "timer_good s"
  shows "\<exists>s' rs'. wakeup_check rbed_make_runnable now s = Some s' \<and>
           wakeup_queue s' (filter (\<lambda>d. now < wtime s d) xs) \<and> rbed_queue s' rs' \<and>
           set rs' = set rs \<union> {d \<in> set xs. wtime s d \<le> now}"
proof -
  have tot: "\<exists>t'. rbed_make_runnable d t = Some t'" if "rbed_be_only t" for d t
  proof -
    from that obtain ys where "rbed_queue t ys" by (auto simp: rbed_be_only_def)
    from rbed_make_runnable_be_only [OF this that, of d] show ?thesis by blast
  qed
  from rbed.check_total [OF assms(1,3,4) tot, of now] obtain s' rs' where
    s': "wakeup_check rbed_make_runnable now s = Some s'"
      "wakeup_queue s' (filter (\<lambda>d. now < wtime s d) xs)" "rbed_queue s' rs'"
      "\<And>a. rbed_runnable s' a \<longleftrightarrow> rbed_runnable s a \<or> a \<in> set xs \<and> wtime s a \<le> now"
    by (auto simp: rbed_be_only_def)
  have "a \<in> set rs' \<longleftrightarrow> a \<in> set rs \<or> a \<in> set xs \<and> wtime s a \<le> now" for a
    using s'(4) [of a] in_queue_iff [OF s'(3), of a] in_queue_iff [OF assms(2), of a]
    by (auto simp: rbed_runnable_def)
  then have "set rs' = set rs \<union> {d \<in> set xs. wtime s d \<le> now}" by blast
  with s' show ?thesis by blast
qed

section \<open>Examples\<close>

lemma example_be_acct: "rbed_acct (dcbs example_be) (cur example_be) (set [1, 2])"
proof -
  have t: "dcb_type (dcbs example_be a) = TASK_TYPE_BEST_EFFORT" for a
    by (simp add: example_be_def dcb0_def)
  show ?thesis unfolding rbed_acct_def t
    by (simp add: example_be_def kernel0_def kcb0_def SPECTRUM_def BETA_def Collect_insert_split
        Collect_disj_eq conj_disj_distribR)
qed

lemma example_rt_acct: "rbed_acct (dcbs example_rt) (cur example_rt) (set [1, 2])"
proof -
  have s: "{a \<in> set [1, 2 :: nat]. dcb_type (dcbs example_rt a) = TASK_TYPE_HARD_REALTIME} = {1, 2}"
    "{a \<in> set [1, 2 :: nat]. dcb_type (dcbs example_rt a) = TASK_TYPE_BEST_EFFORT} = {}"
    by (auto simp: example_rt_def dcb0_def)
  show ?thesis unfolding rbed_acct_def s
    by (simp add: example_rt_def kernel0_def kcb0_def dcb0_def SPECTRUM_def BETA_def u_target_def)
qed


theorem rbed_scheduler_remove_correct_witness:
  "\<exists>s'. rbed_scheduler_remove 1 example_be = Some s' \<and> rbed_queue s' [2]"
  using rbed_scheduler_remove_correct [OF example_be_queue example_be_acct, of 1] by auto

theorem rbed_scheduler_yield_correct_witness:
  "\<exists>s'. rbed_scheduler_yield 1 example_be = Some s' \<and> rbed_queue s' [2, 1]"
proof -
  have "dcb_type (dcbs example_be a) = TASK_TYPE_BEST_EFFORT" "release_time (dcbs example_be a) = 0" for a
    by (simp_all add: example_be_def dcb0_def)
  with rbed_scheduler_yield_correct [OF example_be_queue, of 1] show ?thesis
    by (auto simp: example_sel)
qed

theorem rbed_scheduler_convert_queue_witness:
  "\<exists>s'. rbed_scheduler_convert example_ring = Some s' \<and> rbed_queue s' [1, 2]"
proof -
  have "sched (cur example_ring) = SCHED_RR" "rbed_links example_ring []"
    "rbed_acct (dcbs example_ring) (cur example_ring) {}"
    by (simp_all add: example_ring_def kernel0_def kcb0_def rbed_links_def rbed_acct_def
        SPECTRUM_def BETA_def)
  from rbed_scheduler_convert_queue [OF this(1) example_ring_ring _ this(2,3)] show ?thesis by auto
qed

theorem rbed_scheduler_reset_time_correct_witness:
  "rbed_scheduler_reset_time example_be = Some (example_be\<lparr>kernel_now := 0, lastdisp := None,
     dcbs := cleared {1, 2} (dcbs example_be)\<rparr>)"
proof -
  have "lseg (\<lambda>k. kcb_next (kcbs example_be k)) (Some (kcb_current example_be)) [kcb_current example_be] None"
    "\<forall>k \<in> set [kcb_current example_be]. lseg (snext example_be) (queue_head (kcbs example_be k)) [1, 2] None"
    by (simp_all add: example_be_def kernel0_def kcb0_def dcb0_def snext_def)
  from rbed_scheduler_reset_time_correct [OF this(1) _ _ this(2)] show ?thesis by simp
qed

theorem rbed_admission_overflow_witness:
  "\<exists>s'. rbed_make_runnable 3 example_rt = Some s' \<and> u_hrt (cur s') = 200000"
proof -
  have "dcb_type (dcbs example_rt 3) = TASK_TYPE_HARD_REALTIME" "release_time (dcbs example_rt 3) = 0"
    "period (dcbs example_rt 3) = 1000000" "wcet (dcbs example_rt 3) = 2 ^ 32"
    "u_hrt (cur example_rt) = 200000"
    by (simp_all add: example_rt_def dcb0_def kernel0_def)
  with rbed_admission_overflow [OF example_rt_queue example_rt_acct, of 3] show ?thesis
    by (auto simp: example_sel SPECTRUM_def)
qed


theorem rbed_wakeup_check_correct_witness:
  "\<exists>s' rs'. wakeup_check rbed_make_runnable 6 example_timeouts = Some s' \<and>
     wakeup_queue s' [2] \<and> rbed_queue s' rs' \<and> set rs' = {1}"
proof -
  have q: "rbed_queue example_timeouts []"
    by (simp add: rbed_queue_def rbed_links_def example_timeouts_def kernel0_def kcb0_def dcb0_def snext_def)
  then have b: "rbed_be_only example_timeouts"
    by (auto simp: rbed_be_only_def example_timeouts_def kernel0_def kcb0_def dcb0_def
        SPECTRUM_def BETA_def)
  have "{} \<union> {d \<in> set [1, 2 :: nat]. wtime example_timeouts d \<le> 6} = {1}"
    by (auto simp: example_timeouts_sel)
  with rbed_wakeup_check_correct [OF example_timeouts_queue q b, of 6] show ?thesis
    by (auto simp: example_timeouts_sel)
qed

end
