(* ===== verification/Errors.thy ===== *)
theory Errors
  imports Prelude
begin

text \<open>
  The error codes of errors/errno.fugu that the modelled functions return.  A code is a failure unless errno.fugu
  declares it a success.  An error value is a stack of codes of which \<^verbatim>\<open>err_no\<close> reads the topmost; the model keeps
  only that one, so \<^verbatim>\<open>err_push\<close> gives the code that is pushed.
\<close>

datatype errval =
    SYS_ERR_OK
  | SYS_ERR_RAM_CAP_CREATED
  | SYS_ERR_KCB_NOT_FOUND
  | SYS_ERR_CAP_NOT_FOUND
  | SYS_ERR_NO_LOCAL_COPIES
  | SYS_ERR_CAP_LOCKED
  | SYS_ERR_DELETE_LAST_OWNED
  | SYS_ERR_DELETE_REMOTE_LOCAL
  | SYS_ERR_RETRY_THROUGH_MONITOR
  | SYS_ERR_SLOT_IN_USE
  | SYS_ERR_SLOTS_IN_USE
  | SYS_ERR_SLOTS_INVALID
  | SYS_ERR_ID_SPACE_EXHAUSTED
  | SYS_ERR_CNODE_TYPE
  | SYS_ERR_CNODE_RIGHTS
  | SYS_ERR_DEPTH_EXCEEDED
  | SYS_ERR_GUARD_MISMATCH
  | SYS_ERR_GUARD_SIZE_OVERFLOW
  | SYS_ERR_SLOT_LOOKUP_FAIL
  | SYS_ERR_RETYPE_MAPPING_EXPLICIT
  | SYS_ERR_RETYPE_CREATE
  | SYS_ERR_INVALID_RETYPE
  | SYS_ERR_INVALID_SIZE_BITS
  | SYS_ERR_INVALID_SOURCE_TYPE
  | SYS_ERR_INVALID_EPLEN
  | SYS_ERR_REVOKE_FIRST
  | SYS_ERR_VNODE_TYPE
  | SYS_ERR_VNODE_NOT_INSTALLED
  | SYS_ERR_VNODE_LOOKUP_NEXT
  | SYS_ERR_VNODE_SLOT_INVALID
  | SYS_ERR_LMP_NO_TARGET
  | SYS_ERR_LMP_EP_STATE_INVALID
  | SYS_ERR_LMP_BUF_OVERFLOW
  | SYS_ERR_LMP_CAPTRANSFER_DST_CNODE_LOOKUP
  | SYS_ERR_LMP_CAPTRANSFER_DST_CNODE_INVALID
  | SYS_ERR_LMP_CAPTRANSFER_DST_SLOT_OCCUPIED
  | SYS_ERR_LMP_CAPTRANSFER_SRC_LOOKUP
  | CAPS_ERR_MDB_DUPLICATE_ENTRY
  | CAPS_ERR_MDB_ENTRY_NOTFOUND
  | CAPS_ERR_CAP_NOT_FOUND
  | CAPS_ERR_INVALID_ARGS
  | LIB_ERR_NO_LMP_MSG
  | LIB_ERR_LMP_RECV_BUF_OVERFLOW
  | LIB_ERR_SLOT_ALLOC_NO_SPACE
  | LIB_ERR_SLOT_UNALLOCATED
  | LIB_ERR_SLOT_ALLOC_WRONG_CNODE

definition err_is_fail :: "errval \<Rightarrow> bool" where
  "err_is_fail e \<longleftrightarrow> e \<noteq> SYS_ERR_OK \<and> e \<noteq> SYS_ERR_RAM_CAP_CREATED"

abbreviation err_is_ok :: "errval \<Rightarrow> bool" where
  "err_is_ok e \<equiv> \<not> err_is_fail e"

definition err_push :: "errval \<Rightarrow> errval \<Rightarrow> errval" where
  "err_push e code = code"

lemma err_is_fail_simps [simp]:
  "\<not> err_is_fail SYS_ERR_OK"
  "\<not> err_is_fail SYS_ERR_RAM_CAP_CREATED"
  "e \<noteq> SYS_ERR_OK \<Longrightarrow> e \<noteq> SYS_ERR_RAM_CAP_CREATED \<Longrightarrow> err_is_fail e"
  by (simp_all add: err_is_fail_def)

end
