(* ===== verification/Kcb.thy ===== *)
theory Kcb
  imports Kernel_State Errors
begin

text \<open>
  Kernel control blocks of a CPU driver that runs several kernel states: kernel/kcb.c and
  \<^verbatim>\<open>switch_kcb\<close> of kernel/include/kcb.h.  A single kcb has both links \<^verbatim>\<open>NULL\<close>; two or more form
  a ring.  \<^verbatim>\<open>kcb_update_core_id\<close> only writes the dispatchers' shared frames and is not modelled.
\<close>

section \<open>Operations\<close>

definition kcb_add :: "addr \<Rightarrow> kernel \<Rightarrow> kernel option" where
  "kcb_add new_kcb s =
     (let c = kcb_current s in
      case kcb_next (kcbs s c) of
        Some n \<Rightarrow> do {
          _ \<leftarrow> assert_that (kcb_prev (kcbs s c) \<noteq> None);
          let s = upd_kcb new_kcb (\<lambda>k. k\<lparr>kcb_next := Some n, kcb_prev := Some c\<rparr>) s;
          let s = upd_kcb n (kcb_prev_update (\<lambda>_. Some new_kcb)) s;
          Some (upd_kcb c (kcb_next_update (\<lambda>_. Some new_kcb)) s)
        }
      | None \<Rightarrow>
          (let s = upd_kcb c (\<lambda>k. k\<lparr>kcb_next := Some new_kcb, kcb_prev := Some new_kcb\<rparr>) s in
           Some (upd_kcb new_kcb (\<lambda>k. k\<lparr>kcb_next := Some c, kcb_prev := Some c\<rparr>) s)))"

text \<open>The loop of \<^verbatim>\<open>kcb_remove\<close>: whether \<open>to_remove\<close> is met on the way round the ring.\<close>

partial_function (option) kcb_find :: "kernel \<Rightarrow> addr \<Rightarrow> ptr \<Rightarrow> bool option" where
  "kcb_find s to_remove k =
     (if k = Some (kcb_current s) then Some False
      else if k = Some to_remove then Some True
      else (case k of None \<Rightarrow> None | Some a \<Rightarrow> kcb_find s to_remove (kcb_next (kcbs s a))))"

text \<open>The body of that loop for the kcb found.\<close>

definition kcb_unlink :: "addr \<Rightarrow> kernel \<Rightarrow> kernel option" where
  "kcb_unlink k s = do {
     p \<leftarrow> kcb_prev (kcbs s k);
     let s = upd_kcb p (kcb_next_update (\<lambda>_. kcb_next (kcbs s k))) s;
     n \<leftarrow> kcb_next (kcbs s k);
     let s = upd_kcb n (kcb_prev_update (\<lambda>_. kcb_prev (kcbs s k))) s;
     let s = (if kcb_next (kcbs s n) = Some n
              then upd_kcb n (\<lambda>k. k\<lparr>kcb_next := None, kcb_prev := None\<rparr>) s else s);
     let s = upd_kcb k (\<lambda>k. k\<lparr>kcb_next := None, kcb_prev := None\<rparr>) s;
     Some (upd_kcb k (kernel_off_update (\<lambda>_. kernel_now s)) s)
   }"

definition kcb_remove :: "addr \<Rightarrow> kernel \<Rightarrow> (errval \<times> kernel) option" where
  "kcb_remove to_remove s =
     (if to_remove = kcb_current s then do {
        n \<leftarrow> kcb_next (kcbs s to_remove);
        s \<leftarrow> (if kcb_next (kcbs s n) = Some to_remove then do {
                _ \<leftarrow> assert_that (kcb_prev (kcbs s n) = Some to_remove);
                Some (upd_kcb n (\<lambda>k. k\<lparr>kcb_next := None, kcb_prev := None\<rparr>) s)
              } else do {
                p \<leftarrow> kcb_prev (kcbs s to_remove);
                let s = upd_kcb p (kcb_next_update (\<lambda>_. kcb_next (kcbs s to_remove))) s;
                n' \<leftarrow> kcb_next (kcbs s to_remove);
                Some (upd_kcb n' (kcb_prev_update (\<lambda>_. kcb_prev (kcbs s to_remove))) s)
              });
        Some (SYS_ERR_OK, upd_kcb to_remove (\<lambda>k. k\<lparr>kcb_prev := None, kernel_off := kernel_now s\<rparr>) s)
      } else do {
        found \<leftarrow> kcb_find s to_remove (kcb_next (cur s));
        if found then do {
          s \<leftarrow> kcb_unlink to_remove s;
          Some (SYS_ERR_OK, s)
        } else Some (SYS_ERR_KCB_NOT_FOUND, s)
      })"

definition mdb_init :: "addr \<Rightarrow> kernel \<Rightarrow> kernel" where
  "mdb_init k s =
     (let s = s\<lparr>my_kcb := Some k\<rparr> in
      if \<not> is_valid (kcbs s k) then s else s\<lparr>g_mdb_root := kcb_mdb_root (kcbs s k)\<rparr>)"

definition switch_kcb :: "ptr \<Rightarrow> kernel \<Rightarrow> kernel option" where
  "switch_kcb nxt s = do {
     k \<leftarrow> nxt;
     let s = mdb_init k (s\<lparr>kcb_current := k\<rparr>);
     Some (s\<lparr>g_queue_tail := queue_tail (cur s)\<rparr>)
   }"

section \<open>The ring as a list\<close>

definition kn :: "kernel \<Rightarrow> addr \<Rightarrow> ptr" where
  "kn s k = kcb_next (kcbs s k)"

definition kp :: "kernel \<Rightarrow> addr \<Rightarrow> ptr" where
  "kp s k = kcb_prev (kcbs s k)"

lemma kcb_sel_upd_frame [simp]:
  "(\<And>x. kcb_next (f x) = kcb_next x) \<Longrightarrow> kn (upd_kcb k f s) = kn s"
  "(\<And>x. kcb_prev (f x) = kcb_prev x) \<Longrightarrow> kp (upd_kcb k f s) = kp s"
  by (auto simp: kn_def kp_def)

lemma kcb_sel_upd [simp]:
  "kcb_next (f (kcbs s k)) = p \<Longrightarrow> kn (upd_kcb k f s) = (kn s)(k := p)"
  "kcb_prev (f (kcbs s k)) = p \<Longrightarrow> kp (upd_kcb k f s) = (kp s)(k := p)"
  by (auto simp: kn_def kp_def)

text \<open>The links of the kcbs \<open>ks\<close>, in ring order.\<close>

definition kcb_links :: "kernel \<Rightarrow> addr list \<Rightarrow> bool" where
  "kcb_links s ks \<longleftrightarrow> distinct ks \<and>
     (case ks of [k] \<Rightarrow> kn s k = None \<and> kp s k = None | _ \<Rightarrow> cyc (kn s) (kp s) ks)"

text \<open>The invariant: the ring starts at the current kcb.\<close>

definition kcb_ring :: "kernel \<Rightarrow> addr list \<Rightarrow> bool" where
  "kcb_ring s ks \<longleftrightarrow> ks \<noteq> [] \<and> kcb_current s = hd ks \<and> kcb_links s ks"

lemma kcb_links_two: "kcb_links s (a # b # ks) \<longleftrightarrow> distinct (a # b # ks) \<and> cyc (kn s) (kp s) (a # b # ks)"
  by (simp add: kcb_links_def)

text \<open>The neighbours of the first kcb of a ring of at least two.\<close>

lemma kcb_links_hd:
  assumes "kcb_links s (k # b # ks)"
  shows "kn s k = Some b" "kp s k = Some (last (b # ks))"
  using cyc_hd_neighbours [of "kn s" "kp s" k "b # ks"] assms last_or_nonempty [of "b # ks" "Some k"]
  by (simp_all add: kcb_links_two del: last.simps last_or.simps)

lemma kcb_add_ring:
  assumes "kcb_ring s (c # ks)" "k \<notin> set (c # ks)"
  shows "\<exists>s'. kcb_add k s = Some s' \<and> kcb_ring s' (c # k # ks)"
proof (cases ks)
  case Nil
  with assms show ?thesis
    by (auto simp: kcb_ring_def kcb_links_def kcb_add_def Let_def cyc_def kn_def [symmetric] kp_def [symmetric])
next
  case (Cons b bs)
  with assms have c: "kcb_current s = c" "distinct (c # ks)" "cyc (kn s) (kp s) (c # ks)"
    by (auto simp: kcb_ring_def kcb_links_two)
  have nb: "kn s c = Some b" and pv: "kp s c \<noteq> None"
    using kcb_links_hd [of s c b bs] assms(1) Cons by (simp_all add: kcb_ring_def)
  let ?s = "upd_kcb c (kcb_next_update (\<lambda>_. Some k)) (upd_kcb b (kcb_prev_update (\<lambda>_. Some k))
     (upd_kcb k (\<lambda>x. x\<lparr>kcb_next := Some b, kcb_prev := Some c\<rparr>) s))"
  have "kcb_add k s = Some ?s"
    using nb pv by (simp add: kcb_add_def c(1) kn_def kp_def)
  moreover have "kcb_ring ?s (c # k # ks)"
    using cyc_link_snd [OF c(3,2), of k b] assms(2) c nb Cons
    by (auto simp: kcb_ring_def kcb_links_two)
  ultimately show ?thesis by blast
qed


lemma kcb_links_long: "2 \<le> length ks \<Longrightarrow> kcb_links s ks \<longleftrightarrow> distinct ks \<and> cyc (kn s) (kp s) ks"
  by (auto simp: kcb_links_def split: list.splits)

lemma kcb_links_rotate: "kcb_links s (us @ vs) \<longleftrightarrow> kcb_links s (vs @ us)"
proof (cases "2 \<le> length (us @ vs)")
  case True
  then show ?thesis
    using cyc_append_commute [of "kn s" "kp s" us vs] by (auto simp: kcb_links_long)
next
  case False
  then show ?thesis by (cases us; cases vs) auto
qed

lemma kcb_unlink_links:
  assumes l: "kcb_links s (k # b # ks)"
  shows "\<exists>s'. kcb_unlink k s = Some s' \<and> kcb_links s' (b # ks) \<and> kn s' k = None \<and> kp s' k = None \<and>
           kernel_off (kcbs s' k) = kernel_now s \<and> kcb_current s' = kcb_current s \<and>
           (\<forall>a. a \<notin> set (k # b # ks) \<longrightarrow> kn s' a = kn s a \<and> kp s' a = kp s a)"
proof -
  from l have dist: "distinct (k # b # ks)" and c: "cyc (kn s) (kp s) (k # b # ks)"
    by (simp_all add: kcb_links_two)
  note pn = kcb_links_hd(2,1) [OF l]
  let ?p = "last (b # ks)"
  have p: "?p \<in> set (b # ks)" by simp
  let ?s1 = "upd_kcb b (kcb_prev_update (\<lambda>_. Some ?p)) (upd_kcb ?p (kcb_next_update (\<lambda>_. Some b)) s)"
  let ?s2 = "if ks = [] then upd_kcb b (\<lambda>k. k\<lparr>kcb_next := None, kcb_prev := None\<rparr>) ?s1 else ?s1"
  let ?s3 = "upd_kcb k (kernel_off_update (\<lambda>_. kernel_now s))
               (upd_kcb k (\<lambda>k. k\<lparr>kcb_next := None, kcb_prev := None\<rparr>) ?s2)"
  have u: "cyc ((kn s)(?p := Some b, k := None)) ((kp s)(b := Some ?p, k := None)) (b # ks)"
    using cyc_unlink_hd [OF c dist pn] pn by simp
  have nn: "kcb_next (kcbs ?s1 b) = Some b \<longleftrightarrow> ks = []"
  proof (cases ks)
    case (Cons d ds)
    then have "kn s b = Some d" using c by (simp add: cyc_def)
    with Cons dist show ?thesis by (auto simp: kn_def)
  qed simp
  have "kcb_unlink k s = Some ?s3"
    using pn dist p nn by (cases "ks = []") (auto simp: kcb_unlink_def Let_def kn_def kp_def)
  moreover have "kcb_links ?s3 (b # ks)"
    using u dist by (cases ks) (auto simp: kcb_links_def fun_upd_twist)
  moreover have "kn ?s3 a = kn s a \<and> kp ?s3 a = kp s a" if "a \<notin> set (k # b # ks)" for a
    using that p by auto
  moreover have "kn ?s3 k = None" "kp ?s3 k = None" "kernel_off (kcbs ?s3 k) = kernel_now s"
    "kcb_current ?s3 = kcb_current s" by auto
  ultimately show ?thesis by blast
qed


section \<open>Removing a kcb\<close>

lemma kcb_find_spec:
  assumes "lseg (kn s) p xs (Some (kcb_current s))" "kcb_current s \<notin> set xs" "k \<noteq> kcb_current s"
  shows "kcb_find s k p = Some (k \<in> set xs)"
  using assms
proof (induction xs arbitrary: p)
  case Nil
  then show ?case by (simp add: kcb_find.simps)
next
  case (Cons x xs)
  then have p: "p = Some x" "lseg (kn s) (kcb_next (kcbs s x)) xs (Some (kcb_current s))"
    by (auto simp: kn_def [symmetric])
  with Cons show ?case by (simp add: kcb_find.simps [of s k "Some x"])
qed

lemma kcb_ring_lseg:
  assumes "kcb_ring s (c # ks)" "ks \<noteq> []"
  shows "lseg (kn s) (kn s c) ks (Some c)"
proof -
  from assms obtain b bs where "ks = b # bs" by (cases ks) auto
  with assms have "cyc (kn s) (kp s) (c # ks)" by (simp add: kcb_ring_def kcb_links_two)
  then show ?thesis by (auto simp: cyc_def dest: dseg_lseg)
qed

lemma kcb_remove_other:
  assumes r: "kcb_ring s (c # ks)" and k: "k \<in> set ks"
  shows "\<exists>s'. kcb_remove k s = Some (SYS_ERR_OK, s') \<and> kcb_ring s' (c # remove1 k ks) \<and>
           kn s' k = None \<and> kp s' k = None \<and> kernel_off (kcbs s' k) = kernel_now s"
proof -
  have c: "kcb_current s = c" "distinct (c # ks)" and l: "kcb_links s (c # ks)"
    using r by (auto simp: kcb_ring_def kcb_links_def)
  from k obtain us vs where ks: "ks = us @ k # vs" "k \<notin> set us" by (meson split_list_first)
  then have rem: "remove1 k ks = us @ vs" by (simp add: remove1_append)
  have f: "kcb_find s k (kcb_next (cur s)) = Some True"
  proof -
    have "k \<noteq> c" "ks \<noteq> []" using c(2) k by auto
    then show ?thesis
      using kcb_find_spec [of s "kn s c" ks k] kcb_ring_lseg [OF r] c k by (simp add: kn_def)
  qed
  have "kcb_links s (k # vs @ c # us)"
    using l kcb_links_rotate [of s "c # us" "k # vs"] by (simp add: ks)
  moreover obtain b bs where bs: "vs @ c # us = b # bs" by (cases "vs @ c # us") auto
  ultimately obtain s' where s': "kcb_unlink k s = Some s'" "kcb_links s' (vs @ c # us)"
    "kn s' k = None" "kp s' k = None" "kernel_off (kcbs s' k) = kernel_now s" "kcb_current s' = kcb_current s"
    using kcb_unlink_links [of s k b bs] by auto
  have "kcb_links s' (c # us @ vs)" using s'(2) kcb_links_rotate [of s' vs "c # us"] by simp
  with s' f c k show ?thesis by (auto simp: kcb_remove_def kcb_ring_def rem)
qed

lemma kcb_remove_absent:
  assumes "kcb_ring s (c # ks)" "ks \<noteq> []" "k \<notin> set (c # ks)"
  shows "kcb_remove k s = Some (SYS_ERR_KCB_NOT_FOUND, s)"
proof -
  have c: "kcb_current s = c" "distinct (c # ks)"
    using assms(1) by (auto simp: kcb_ring_def kcb_links_def)
  with kcb_find_spec [of s "kn s c" ks k] kcb_ring_lseg [OF assms(1,2)] assms(3)
  show ?thesis by (auto simp: kcb_remove_def kn_def)
qed


text \<open>
  Removing the current kcb of a ring and switching to the next one, which the removed kcb
  still points to, leaves the ring of the others, entered at that next kcb, with the
  globals of the scheduler and of the capability database following it.
\<close>

theorem kcb_remove_current_and_switch:
  assumes r: "kcb_ring s (c # b # bs)"
  shows "\<exists>s1 s2. kcb_remove c s = Some (SYS_ERR_OK, s1) \<and> kernel_off (kcbs s1 c) = kernel_now s \<and>
     switch_kcb (kcb_next (kcbs s1 c)) s1 = Some s2 \<and> kcb_ring s2 (b # bs) \<and>
     g_queue_tail s2 = queue_tail (kcbs s2 b) \<and> my_kcb s2 = Some b"
proof -
  have c: "kcb_current s = c" and dist: "distinct (c # b # bs)" and cy: "cyc (kn s) (kp s) (c # b # bs)"
    and l: "kcb_links s (c # b # bs)"
    using r by (auto simp: kcb_ring_def kcb_links_two)
  note pn = kcb_links_hd(2,1) [OF l]
  let ?p = "last (b # bs)"
  have u: "cyc ((kn s)(?p := Some b, c := None)) ((kp s)(b := Some ?p, c := None)) (b # bs)"
    using cyc_unlink_hd [OF cy dist pn] pn by simp
  have nn: "kcb_next (kcbs s b) = Some c \<longleftrightarrow> bs = []"
  proof (cases bs)
    case (Cons d ds)
    then have "kn s b = Some d" using cy by (simp add: cyc_def)
    with Cons dist show ?thesis by (auto simp: kn_def)
  qed (use cy in \<open>simp add: cyc_def kn_def\<close>)
  have pb: "bs = [] \<Longrightarrow> kcb_prev (kcbs s b) = Some c" using cy by (simp add: cyc_def kp_def)
  let ?s0 = "if bs = [] then upd_kcb b (\<lambda>k. k\<lparr>kcb_next := None, kcb_prev := None\<rparr>) s
             else upd_kcb b (kcb_prev_update (\<lambda>_. Some ?p)) (upd_kcb ?p (kcb_next_update (\<lambda>_. Some b)) s)"
  let ?s1 = "upd_kcb c (\<lambda>k. k\<lparr>kcb_prev := None, kernel_off := kernel_now s\<rparr>) ?s0"
  have cp: "c \<noteq> ?p" using dist last_in_set [of "b # bs"] by (metis distinct.simps(2) list.distinct(1))
  have rm: "kcb_remove c s = Some (SYS_ERR_OK, ?s1)"
    using pn nn pb cp dist by (auto simp: kcb_remove_def c kn_def kp_def)
  have nx: "kcb_next (kcbs ?s1 c) = Some b" using pn(2) cp dist by (auto simp: kn_def)
  let ?s2 = "(mdb_init b (?s1\<lparr>kcb_current := b\<rparr>))\<lparr>g_queue_tail := queue_tail (kcbs ?s1 b)\<rparr>"
  have k: "kcbs ?s2 = kcbs ?s1" "kcb_current ?s2 = b" "my_kcb ?s2 = Some b"
    by (simp_all add: mdb_init_def Let_def)
  have sw: "switch_kcb (kcb_next (kcbs ?s1 c)) ?s1 = Some ?s2"
    unfolding nx by (simp add: switch_kcb_def mdb_init_def Let_def)
  have "kcb_links ?s1 (b # bs)"
  proof (cases bs)
    case Nil
    then show ?thesis using dist by (simp add: kcb_links_def)
  next
    case (Cons d ds)
    have "cyc (kn ?s1) (kp ?s1) (b # bs) = cyc ((kn s)(?p := Some b, c := None)) ((kp s)(b := Some ?p, c := None)) (b # bs)"
      using dist Cons by (intro cyc_cong) auto
    with u Cons dist show ?thesis by (simp add: kcb_links_two)
  qed
  moreover have "kn ?s2 = kn ?s1" "kp ?s2 = kp ?s1" using k(1) by (auto simp: kn_def kp_def)
  ultimately have "kcb_ring ?s2 (b # bs)" using k(2) by (simp add: kcb_ring_def kcb_links_def)
  with rm sw k show ?thesis by (intro exI [of _ ?s1] exI [of _ ?s2]) simp
qed

text \<open>
  C38. \<^verbatim>\<open>kcb_remove\<close> relies on a ring: when the current kcb is alone every call follows a \<^verbatim>\<open>NULL\<close>
  pointer, for the current kcb as well as for one that should be reported as not found.
\<close>

theorem kcb_remove_single_faults:
  assumes "kcb_ring s [c]"
  shows "kcb_remove k s = None"
  using assms by (auto simp: kcb_remove_def kcb_ring_def kcb_links_def kn_def kcb_find.simps)

section \<open>An example\<close>

definition example_kcbs :: kernel where
  "example_kcbs = kernel0\<lparr>
     kcbs := (\<lambda>_. kcb0)(0 := kcb0\<lparr>kcb_next := Some 1, kcb_prev := Some 2\<rparr>,
                       1 := kcb0\<lparr>kcb_next := Some 2, kcb_prev := Some 0\<rparr>,
                       2 := kcb0\<lparr>kcb_next := Some 0, kcb_prev := Some 1\<rparr>)\<rparr>"

lemma example_kcbs_ring: "kcb_ring example_kcbs [0, 1, 2]"
  by (simp add: kcb_ring_def kcb_links_two cyc_def kn_def kp_def example_kcbs_def kernel0_def)


theorem kcb_remove_current_and_switch_witness:
  "\<exists>s1 s2. kcb_remove 0 example_kcbs = Some (SYS_ERR_OK, s1) \<and>
     switch_kcb (kcb_next (kcbs s1 0)) s1 = Some s2 \<and> kcb_ring s2 [1, 2]"
  using kcb_remove_current_and_switch [OF example_kcbs_ring] by auto

theorem kcb_remove_single_faults_witness: "kcb_remove 0 kernel0 = None"
proof -
  have "kcb_ring kernel0 [0]"
    by (simp add: kcb_ring_def kcb_links_def kn_def kp_def kernel0_def kcb0_def)
  then show ?thesis by (rule kcb_remove_single_faults)
qed

end
