(* ===== verification/Cap_Order.thy ===== *)
theory Cap_Order
  imports Prelude "HOL-Library.List_Lexorder"
begin

text \<open>
  The predicates on capabilities that tools/hamlet/HamletBackend.lhs generates, over the
  per-type facts that it takes from the capability definitions: the comparison that orders
  the capability database, \<^verbatim>\<open>is_copy\<close> and \<^verbatim>\<open>is_ancestor\<close>.  The facts are the components of a
  record \<open>cap_ops\<close>; theory \<^theory_text>\<open>Hamlet\<close> computes them from a definition file, and
  the theories of the capability database take them as an argument.

  The comparison is the lexicographic order of a key (\<open>compare_caps_less\<close>), hence
  a linear order.  The locale \<open>cap_forest\<close> states what the type forest promises; from it follows
  that an ancestor precedes its descendants.
\<close>

section \<open>Facts about types\<close>

record 'c cap_ops =
  type_of :: "'c \<Rightarrow> nat"
  get_type_root :: "nat \<Rightarrow> u8"
  get_address :: "'c \<Rightarrow> u64"
  get_size :: "'c \<Rightarrow> u64"
  eq_fields :: "nat \<Rightarrow> ('c \<Rightarrow> u64) list"
  general_equality :: "nat \<Rightarrow> bool option"
  is_well_founded :: "nat \<Rightarrow> nat \<Rightarrow> bool"

abbreviation root_of :: "'c cap_ops \<Rightarrow> 'c \<Rightarrow> u8" where
  "root_of K c \<equiv> get_type_root K (type_of K c)"

abbreviation cap_end :: "'c cap_ops \<Rightarrow> 'c \<Rightarrow> u64" where
  "cap_end K c \<equiv> get_address K c + get_size K c"

section \<open>Comparison\<close>

text \<open>
  The generated function is a sequence of tests, each of which returns if its two sides
  differ.
\<close>

fun cmp_seq :: "(nat \<times> nat) list \<Rightarrow> int" where
  "cmp_seq [] = 0"
| "cmp_seq ((l, r) # ts) = (if l \<noteq> r then (if l < r then -1 else 1) else cmp_seq ts)"

definition compare_caps :: "'c cap_ops \<Rightarrow> 'c \<times> addr \<Rightarrow> 'c \<times> addr \<Rightarrow> bool \<Rightarrow> int" where
  "compare_caps K left right tiebreak =
     (case left of (lc, lp) \<Rightarrow> case right of (rc, rp) \<Rightarrow>
      cmp_seq
        ([(unat (root_of K lc), unat (root_of K rc)),
          (unat (get_address K lc), unat (get_address K rc)),
          (unat (get_size K rc), unat (get_size K lc)),
          (type_of K lc, type_of K rc)] @
         map (\<lambda>f. (unat (f lc), unat (f rc))) (eq_fields K (type_of K lc)) @
         (if tiebreak then [(lp, rp)] else [])))"

definition is_copy :: "'c cap_ops \<Rightarrow> 'c \<times> addr \<Rightarrow> 'c \<times> addr \<Rightarrow> bool" where
  "is_copy K left right =
     (if type_of K (fst left) \<noteq> type_of K (fst right) then False
      else case general_equality K (type_of K (fst left)) of
             Some b \<Rightarrow> b
           | None \<Rightarrow> compare_caps K left right False = 0)"

definition is_ancestor :: "'c cap_ops \<Rightarrow> 'c \<Rightarrow> 'c \<Rightarrow> bool" where
  "is_ancestor K child parent =
     (if \<not> is_well_founded K (type_of K parent) (type_of K child) then False
      else
        let parentAddr = get_address K parent; childAddr = get_address K child;
            parentEnd = parentAddr + get_size K parent; childEnd = childAddr + get_size K child
        in if type_of K child = type_of K parent
           then (parentAddr < childAddr \<and> parentEnd \<ge> childEnd) \<or>
                (parentAddr \<le> childAddr \<and> parentEnd > childEnd)
           else parentAddr \<le> childAddr \<and> parentEnd \<ge> childEnd)"

section \<open>The comparison as an order of keys\<close>

definition size_rank :: "u64 \<Rightarrow> nat" where
  "size_rank sz = 2 ^ 64 - unat sz"

definition cap_key :: "'c cap_ops \<Rightarrow> 'c \<Rightarrow> nat list" where
  "cap_key K c =
     [unat (root_of K c), unat (get_address K c), size_rank (get_size K c), type_of K c] @
     map (\<lambda>f. unat (f c)) (eq_fields K (type_of K c))"

definition cte_key :: "'c cap_ops \<Rightarrow> 'c \<times> addr \<Rightarrow> bool \<Rightarrow> nat list" where
  "cte_key K c tiebreak = cap_key K (fst c) @ (if tiebreak then [snd c] else [])"

lemma cmp_seq_less: "cmp_seq ts < 0 \<longleftrightarrow> map fst ts < map snd ts"
  by (induction ts rule: cmp_seq.induct) auto

lemma cmp_seq_eq: "cmp_seq ts = 0 \<longleftrightarrow> map fst ts = map snd ts"
  by (induction ts rule: cmp_seq.induct) auto

lemma cmp_seq_range: "cmp_seq ts = -1 \<or> cmp_seq ts = 0 \<or> cmp_seq ts = 1"
  by (induction ts rule: cmp_seq.induct) auto

lemma size_rank_less [simp]: "size_rank a < size_rank b \<longleftrightarrow> unat b < unat a"
  using unat_lt_u64 [of a] unat_lt_u64 [of b] unfolding size_rank_def by linarith

lemma size_rank_eq [simp]: "size_rank a = size_rank b \<longleftrightarrow> unat b = unat a"
  using unat_lt_u64 [of a] unat_lt_u64 [of b] unfolding size_rank_def by linarith

lemma compare_caps_eq: "compare_caps K l r tb = 0 \<longleftrightarrow> cte_key K l tb = cte_key K r tb"
  by (cases l; cases r)
     (auto simp: compare_caps_def cmp_seq_eq cte_key_def cap_key_def o_def simp del: cmp_seq.simps)

lemma compare_caps_less: "compare_caps K l r tb < 0 \<longleftrightarrow> cte_key K l tb < cte_key K r tb"
  by (cases l; cases r)
     (auto simp: compare_caps_def cmp_seq_less cte_key_def cap_key_def o_def simp del: cmp_seq.simps)

lemma compare_caps_greater: "compare_caps K l r tb > 0 \<longleftrightarrow> cte_key K l tb > cte_key K r tb"
  using compare_caps_less [of K l r tb] compare_caps_eq [of K l r tb]
  by (metis linorder_less_linear less_asym less_irrefl)

lemma compare_caps_range: "compare_caps K l r tb = -1 \<or> compare_caps K l r tb = 0 \<or> compare_caps K l r tb = 1"
  by (cases l; cases r) (simp add: compare_caps_def cmp_seq_range del: cmp_seq.simps)

lemma compare_caps_cases:
  "compare_caps K l r tb =
     (if cte_key K l tb < cte_key K r tb then -1 else if cte_key K l tb = cte_key K r tb then 0 else 1)"
  using compare_caps_range [of K l r tb] compare_caps_less [of K l r tb] compare_caps_eq [of K l r tb]
  by fastforce

lemmas compare_caps_iff = compare_caps_less compare_caps_eq compare_caps_greater

lemma compare_caps_not: "\<not> compare_caps K l r tb < 0 \<Longrightarrow> \<not> compare_caps K l r tb > 0 \<Longrightarrow> compare_caps K l r tb = 0"
  by simp

text \<open>Keys without the address of the slot are ordered like keys with it, up to ties.\<close>

lemma cte_key_no_tiebreak: "cte_key K c False = cap_key K (fst c)"
  by (simp add: cte_key_def)

lemma cap_key_length_eq: "type_of K c = type_of K d \<Longrightarrow> length (cap_key K c) = length (cap_key K d)"
  by (simp add: cap_key_def)

lemma cap_key_parts:
  assumes "cap_key K c = cap_key K d"
  shows "root_of K c = root_of K d" "get_address K c = get_address K d" "get_size K c = get_size K d"
    "type_of K c = type_of K d"
  using assms by (auto simp: cap_key_def word_unat_eq_iff)

lemma append_less_tie:
  fixes xs ys :: "nat list"
  assumes "length xs = length ys"
  shows "xs @ us < ys @ vs \<longleftrightarrow> xs < ys \<or> xs = ys \<and> us < vs"
  using assms by (induction xs ys rule: list_induct2) auto

lemma cap_key_less_append: "cap_key K c < cap_key K d \<Longrightarrow> cap_key K c @ us < cap_key K d @ vs"
proof (cases "type_of K c = type_of K d")
  case True
  assume "cap_key K c < cap_key K d"
  then show ?thesis by (simp add: append_less_tie [OF cap_key_length_eq [OF True]])
next
  case False
  assume "cap_key K c < cap_key K d"
  then show ?thesis using False by (auto simp: cap_key_def)
qed

lemma cte_key_less:
  "cte_key K (c, p) True < cte_key K (d, q) True \<longleftrightarrow>
     cap_key K c < cap_key K d \<or> cap_key K c = cap_key K d \<and> p < q"
proof (cases "cap_key K c" "cap_key K d" rule: linorder_cases)
  case less
  then show ?thesis using cap_key_less_append by (simp add: cte_key_def)
next
  case equal
  then show ?thesis by (simp add: cte_key_def append_less_tie)
next
  case greater
  then have "cte_key K (d, q) True < cte_key K (c, p) True"
    using cap_key_less_append by (simp add: cte_key_def)
  then have "\<not> cte_key K (c, p) True < cte_key K (d, q) True" by (rule less_not_sym)
  with greater show ?thesis by auto
qed

lemma cte_key_inj: "cte_key K (c, p) True = cte_key K (d, q) True \<Longrightarrow> p = q"
  by (simp add: cte_key_def)

lemma cap_key_sorted:
  assumes "cap_key K c \<le> cap_key K d"
  shows "root_of K c \<le> root_of K d"
    and "root_of K c = root_of K d \<Longrightarrow> get_address K c \<le> get_address K d"
  using assms by (auto simp: cap_key_def le_less word_less_nat_alt word_unat_eq_iff)

section \<open>Copies\<close>

lemma is_copy_iff:
  "is_copy K l r \<longleftrightarrow> type_of K (fst l) = type_of K (fst r) \<and>
     (general_equality K (type_of K (fst l)) = Some True \<or>
      general_equality K (type_of K (fst l)) = None \<and> cap_key K (fst l) = cap_key K (fst r))"
  by (auto simp: is_copy_def compare_caps_eq cte_key_no_tiebreak split: option.splits)

section \<open>Ancestors\<close>

definition no_wrap :: "'c cap_ops \<Rightarrow> 'c \<Rightarrow> bool" where
  "no_wrap K c \<longleftrightarrow> unat (get_address K c) + unat (get_size K c) < 2 ^ 64"

lemma unat_cap_end: "no_wrap K c \<Longrightarrow> unat (cap_end K c) = unat (get_address K c) + unat (get_size K c)"
  unfolding no_wrap_def by (subst unat_add_lem [THEN iffD1]) (simp_all add: word_size)

text \<open>
  What the type forest promises: a retype stays in the tree of its source, and a type is
  declared after the type it is derived from.
\<close>

locale cap_forest =
  fixes K :: "'c cap_ops"
  assumes wf_root: "is_well_founded K p c \<Longrightarrow> get_type_root K p = get_type_root K c"
    and wf_order: "is_well_founded K p c \<Longrightarrow> p \<le> c"
begin

lemma ancestor_root: "is_ancestor K child parent \<Longrightarrow> root_of K child = root_of K parent"
  by (auto simp: is_ancestor_def wf_root split: if_splits)

lemma ancestor_precedes:
  assumes anc: "is_ancestor K child parent" and wrap: "no_wrap K child" "no_wrap K parent"
  shows "compare_caps K (parent, p) (child, c) tb = -1"
proof -
  have ty: "type_of K parent \<le> type_of K child"
    using anc wf_order by (auto simp: is_ancestor_def split: if_splits)
  have addr: "get_address K parent \<le> get_address K child" "cap_end K parent \<ge> cap_end K child"
    and strict: "type_of K child = type_of K parent \<Longrightarrow>
      get_address K parent < get_address K child \<or> cap_end K parent > cap_end K child"
    using anc by (auto simp: is_ancestor_def Let_def split: if_splits)
  have size: "unat (get_size K child) \<le> unat (get_size K parent)"
    if "unat (get_address K parent) = unat (get_address K child)"
    using addr(2) that unat_cap_end [OF wrap(1)] unat_cap_end [OF wrap(2)] by (simp add: word_le_nat_alt)
  have "unat (get_address K parent) < unat (get_address K child) \<or>
     unat (get_address K parent) = unat (get_address K child) \<and>
       (unat (get_size K child) < unat (get_size K parent) \<or>
        unat (get_size K child) = unat (get_size K parent) \<and> type_of K parent < type_of K child)"
  proof (cases "unat (get_address K parent) = unat (get_address K child)")
    case True
    with size ty strict unat_cap_end [OF wrap(1)] unat_cap_end [OF wrap(2)] show ?thesis
      by (fastforce simp: word_less_nat_alt)
  next
    case False
    with addr(1) show ?thesis by (simp add: word_le_nat_alt)
  qed
  then have "cte_key K (parent, p) tb < cte_key K (child, c) tb"
    using ancestor_root [OF anc] by (auto simp: cte_key_def cap_key_def)
  then have "compare_caps K (parent, p) (child, c) tb < 0" by (simp add: compare_caps_less)
  with compare_caps_range [of K "(parent, p)" "(child, c)" tb] show ?thesis by auto
qed

end

section \<open>Properties\<close>

text \<open>
  C18. The generated comparison is a linear order on slots: swapping the arguments negates
  the result, and \<^verbatim>\<open><= 0\<close> is transitive; with the tie break it separates different slots.
\<close>

theorem compare_caps_linear:
  "compare_caps K l r tb = - compare_caps K r l tb \<and>
   (compare_caps K l m tb \<le> 0 \<and> compare_caps K m r tb \<le> 0 \<longrightarrow> compare_caps K l r tb \<le> 0) \<and>
   (compare_caps K l r True = 0 \<longrightarrow> snd l = snd r)"
proof -
  have "snd l = snd r" if "cte_key K l True = cte_key K r True"
    using that by (simp add: cte_key_def)
  then show ?thesis
    using less_asym less_trans by (auto simp: compare_caps_cases not_less split: if_splits)
qed

definition example_ops :: "(nat \<times> u64 \<times> u64) cap_ops" where
  "example_ops = \<lparr>type_of = fst, get_type_root = (\<lambda>t. 0), get_address = (\<lambda>c. fst (snd c)),
     get_size = (\<lambda>c. snd (snd c)), eq_fields = (\<lambda>t. []), general_equality = (\<lambda>t. None),
     is_well_founded = (\<lambda>p c. p \<le> c)\<rparr>"

theorem compare_caps_linear_witness:
  "compare_caps example_ops ((1, 0, 8), 5) ((1, 0, 4), 3) True \<le> 0 \<and>
   compare_caps example_ops ((1, 0, 4), 3) ((2, 2, 2), 7) True \<le> 0 \<and>
   compare_caps example_ops ((1, 0, 8), 5) ((2, 2, 2), 7) True \<le> 0"
  using compare_caps_linear [of example_ops "((1, 0, 8), 5)" "((2, 2, 2), 7)" True "((1, 0, 4), 3)"]
  by (simp add: compare_caps_def example_ops_def)

text \<open>
  Being a copy is symmetric and transitive, and a capability is a copy of itself unless
  its type declares that it never is.
\<close>

theorem is_copy_equivalence:
  "is_copy K l r = is_copy K r l \<and>
   (is_copy K l m \<and> is_copy K m r \<longrightarrow> is_copy K l r) \<and>
   (is_copy K l l \<longleftrightarrow> general_equality K (type_of K (fst l)) \<noteq> Some False)"
  by (auto simp: is_copy_iff)

theorem is_copy_equivalence_witness:
  "is_copy example_ops ((1, 0, 8), 5) ((1, 0, 8), 7) \<and> is_copy example_ops ((1, 0, 8), 7) ((1, 0, 8), 9) \<and>
   is_copy example_ops ((1, 0, 8), 5) ((1, 0, 8), 9)"
  using is_copy_equivalence [of example_ops "((1, 0, 8), 5)" "((1, 0, 8), 9)" "((1, 0, 8), 7)"]
  by (simp add: is_copy_def compare_caps_def example_ops_def)

end
