(* ===== verification/Hamlet.thy ===== *)
theory Hamlet
  imports Cap_Order
begin

text \<open>
  The capability type system: the Hamlet language of tools/hamlet, the definition file
  capabilities/caps.hl written in it, and the per-type facts that the generator
  computes from a definition file.

  \<^item> \<open>cap_decl\<close> is the abstract syntax of one definition; \<open>caps_decls\<close> transcribes caps.hl.
    \<open>capsFile\<close> is the semantic part of Parser.hs, which rejects ill-formed definitions.
  \<^item> A capability is a type number, its rights and the values of the fields of its union member.
    \<open>gen_address\<close> and \<open>gen_size\<close> evaluate what the generated functions compute.  They follow
    pointers to other capabilities, so they take the memory as an argument, together with
    \<^verbatim>\<open>mem_to_phys\<close>, which is the architecture's.
  \<^item> \<open>hamlet_ops\<close> packs the facts for \<^theory_text>\<open>Cap_Order\<close>, and the interpretation \<open>hamlet\<close>
    shows that caps.hl defines a forest in which types come after their source.
\<close>

section \<open>Abstract syntax\<close>

datatype field_type =
    UInt8 | UInt16 | UInt32 | UInt64 | IntT | GenPAddr | GenSize | LPAddr | GenVAddr | LVAddr
  | CAddr | Pointer string | CapRights | CoreId | PasId

datatype expr = AddExpr string string | NameExpr string

datatype address_expr = AddressExpr expr | MemToPhysOp expr | GetAddrOp expr

datatype size_expr = ZeroSize | SizeExpr expr | SizeBitsExpr expr

record capdef =
  cd_name :: string
  cd_generalEquality :: "bool option"
  cd_from :: "string option"
  cd_fromSelf :: bool
  cd_multiRetype :: bool
  cd_fields :: "(field_type \<times> string) list"
  cd_rangeExpr :: "(address_expr \<times> size_expr) option"
  cd_eqFields :: "string list"

record capabilities =
  cs_defines :: "(string \<times> nat) list"
  capdefs :: "capdef list"

section \<open>Parsing\<close>

text \<open>The items of a definition's body, and a definition, as they are written.\<close>

datatype cap_item =
    AddrField field_type string
  | AddrExpr address_expr
  | SizeField bool field_type string
  | SizeExprIs bool expr
  | EqField field_type string
  | RegField field_type string

datatype cap_decl = Cap string "bool option" "string option" bool bool "cap_item list"

definition mkSizeExpr :: "bool \<Rightarrow> expr \<Rightarrow> size_expr" where
  "mkSizeExpr isBits e = (if isBits then SizeBitsExpr e else SizeExpr e)"

fun capFieldOrExpr ::
  "cap_item \<Rightarrow> (field_type \<times> string) option \<times> address_expr option \<times> size_expr option \<times> string option"
where
  "capFieldOrExpr (AddrField t n) = (Some (t, n), Some (AddressExpr (NameExpr n)), None, None)"
| "capFieldOrExpr (AddrExpr e) = (None, Some e, None, None)"
| "capFieldOrExpr (SizeField isBits t n) = (Some (t, n), None, Some (mkSizeExpr isBits (NameExpr n)), None)"
| "capFieldOrExpr (SizeExprIs isBits e) = (None, None, Some (mkSizeExpr isBits e), None)"
| "capFieldOrExpr (EqField t n) = (Some (t, n), None, None, Some n)"
| "capFieldOrExpr (RegField t n) = (Some (t, n), None, None, None)"

definition catMaybes :: "'a option list \<Rightarrow> 'a list" where
  "catMaybes xs = map the (filter (\<lambda>x. x \<noteq> None) xs)"

definition capabilityDef ::
  "cap_item list \<Rightarrow>
   ((field_type \<times> string) list \<times> (address_expr \<times> size_expr) option \<times> string list) option"
where
  "capabilityDef items =
     (let annotatedFields = map capFieldOrExpr items;
          fs = catMaybes (map fst annotatedFields);
          addresses = catMaybes (map (fst \<circ> snd) annotatedFields);
          sizes = catMaybes (map (fst \<circ> snd \<circ> snd) annotatedFields);
          eqExprs = catMaybes (map (snd \<circ> snd \<circ> snd) annotatedFields);
          numAddrs = length addresses; numSizes = length sizes
      in if numAddrs > 1 then None
         else if numSizes > 1 then None
         else if numAddrs < 1 \<and> numSizes > 0 then None
         else Some (fs,
                    if addresses = [] then None
                    else Some (if sizes = [] then (hd addresses, ZeroSize) else (hd addresses, hd sizes)),
                    eqExprs))"

text \<open>
  A definition with a general equality has no source; otherwise the source is one of the
  types defined before.
\<close>

definition capabilitiesDef :: "capdef list \<Rightarrow> cap_decl \<Rightarrow> capdef option" where
  "capabilitiesDef caps d =
     (case d of Cap n geq frm fromSelf multi items \<Rightarrow>
      if geq \<noteq> None \<and> (frm \<noteq> None \<or> fromSelf) then None
      else if frm \<noteq> None \<and> the frm \<notin> set (map cd_name caps) then None
      else do {
        (fs, rng, eqs) \<leftarrow> capabilityDef items;
        Some \<lparr>cd_name = n, cd_generalEquality = geq, cd_from = frm, cd_fromSelf = fromSelf,
              cd_multiRetype = multi, cd_fields = fs, cd_rangeExpr = rng, cd_eqFields = eqs\<rparr>
      })"

fun capDefFold :: "capdef list \<Rightarrow> cap_decl list \<Rightarrow> capdef list option" where
  "capDefFold caps [] = Some (rev caps)"
| "capDefFold caps (d # ds) = do { c \<leftarrow> capabilitiesDef caps d; capDefFold (c # caps) ds }"

definition capsFile :: "(string \<times> nat) list \<Rightarrow> cap_decl list \<Rightarrow> capabilities option" where
  "capsFile defs ds = do { caps \<leftarrow> capDefFold [] ds; Some \<lparr>cs_defines = defs, capdefs = caps\<rparr> }"

section \<open>The definition file\<close>

definition caps_defines :: "(string \<times> nat) list" where
  "caps_defines =
     [(''cte_size'', 6), (''dispatcher_size'', 10), (''vnode_size'', 12), (''kcb_size'', 16)]"

definition caps_untyped :: "cap_decl list" where
  "caps_untyped = [
    Cap ''Null'' (Some False) None False False
      [],
    Cap ''PhysAddr'' None None True False
      [AddrField GenPAddr ''base'',
       RegField PasId ''pasid'',
       SizeField True UInt8 ''bits''],
    Cap ''RAM'' None (Some ''PhysAddr'') True False
      [AddrField GenPAddr ''base'',
       RegField PasId ''pasid'',
       SizeField True UInt8 ''bits''],
    Cap ''CNode'' None (Some ''RAM'') False False
      [RegField LPAddr ''cnode'',
       RegField CAddr ''guard'',
       RegField UInt8 ''bits'',
       RegField CapRights ''rightsmask'',
       RegField UInt8 ''guard_size'',
       AddrExpr (AddressExpr (NameExpr ''cnode'')),
       SizeExprIs True (AddExpr ''bits'' ''cte_size'')],
    Cap ''FCNode'' None None False False
      [EqField GenPAddr ''cnode'',
       EqField UInt8 ''bits'',
       RegField CapRights ''rightsmask'',
       EqField CoreId ''core_id'',
       RegField UInt8 ''guard_size'',
       RegField CAddr ''guard'']]"

definition caps_objects :: "cap_decl list" where
  "caps_objects = [
    Cap ''Dispatcher'' None (Some ''RAM'') False True
      [RegField (Pointer ''struct dcb'') ''dcb'',
       AddrExpr (MemToPhysOp (NameExpr ''dcb'')),
       SizeExprIs True (NameExpr ''dispatcher_size'')],
    Cap ''EndPoint'' None (Some ''Dispatcher'') False False
      [RegField (Pointer ''struct dcb'') ''listener'',
       RegField LVAddr ''epoffset'',
       RegField UInt32 ''epbuflen'',
       AddrExpr (MemToPhysOp (NameExpr ''listener''))],
    Cap ''Frame'' None (Some ''RAM'') True False
      [AddrField GenPAddr ''base'',
       RegField PasId ''pasid'',
       SizeField True UInt8 ''bits''],
    Cap ''Frame_Mapping'' None (Some ''Frame'') False False
      [RegField (Pointer ''struct capability'') ''frame'',
       EqField LVAddr ''pte'',
       RegField UInt16 ''pte_count'',
       AddrExpr (GetAddrOp (NameExpr ''frame''))],
    Cap ''DevFrame'' None (Some ''PhysAddr'') True False
      [AddrField GenPAddr ''base'',
       RegField PasId ''pasid'',
       SizeField True UInt8 ''bits''],
    Cap ''DevFrame_Mapping'' None (Some ''DevFrame'') False False
      [RegField (Pointer ''struct capability'') ''frame'',
       EqField LVAddr ''pte'',
       RegField UInt16 ''pte_count'',
       AddrExpr (GetAddrOp (NameExpr ''frame''))],
    Cap ''Kernel'' (Some True) None False False
      []]"

definition caps_x86_64 :: "cap_decl list" where
  "caps_x86_64 = [
    Cap ''VNode_x86_64_pml4'' None (Some ''RAM'') False False
      [AddrField GenPAddr ''base'',
       SizeExprIs True (NameExpr ''vnode_size'')],
    Cap ''VNode_x86_64_pml4_Mapping'' None (Some ''VNode_x86_64_pml4'') False False
      [RegField (Pointer ''struct capability'') ''frame'',
       EqField LVAddr ''pte'',
       RegField UInt16 ''pte_count'',
       AddrExpr (GetAddrOp (NameExpr ''frame''))],
    Cap ''VNode_x86_64_pdpt'' None (Some ''RAM'') False False
      [AddrField GenPAddr ''base'',
       SizeExprIs True (NameExpr ''vnode_size'')],
    Cap ''VNode_x86_64_pdpt_Mapping'' None (Some ''VNode_x86_64_pdpt'') False False
      [RegField (Pointer ''struct capability'') ''frame'',
       EqField LVAddr ''pte'',
       RegField UInt16 ''pte_count'',
       AddrExpr (GetAddrOp (NameExpr ''frame''))],
    Cap ''VNode_x86_64_pdir'' None (Some ''RAM'') False False
      [AddrField GenPAddr ''base'',
       SizeExprIs True (NameExpr ''vnode_size'')],
    Cap ''VNode_x86_64_pdir_Mapping'' None (Some ''VNode_x86_64_pdir'') False False
      [RegField (Pointer ''struct capability'') ''frame'',
       EqField LVAddr ''pte'',
       RegField UInt16 ''pte_count'',
       AddrExpr (GetAddrOp (NameExpr ''frame''))],
    Cap ''VNode_x86_64_ptable'' None (Some ''RAM'') False False
      [AddrField GenPAddr ''base'',
       SizeExprIs True (NameExpr ''vnode_size'')],
    Cap ''VNode_x86_64_ptable_Mapping'' None (Some ''VNode_x86_64_ptable'') False False
      [RegField (Pointer ''struct capability'') ''frame'',
       EqField LVAddr ''pte'',
       RegField UInt16 ''pte_count'',
       AddrExpr (GetAddrOp (NameExpr ''frame''))]]"

definition caps_x86_32 :: "cap_decl list" where
  "caps_x86_32 = [
    Cap ''VNode_x86_32_pdpt'' None (Some ''RAM'') False False
      [AddrField GenPAddr ''base'',
       SizeExprIs True (NameExpr ''vnode_size'')],
    Cap ''VNode_x86_32_pdpt_Mapping'' None (Some ''VNode_x86_32_pdpt'') False False
      [RegField (Pointer ''struct capability'') ''frame'',
       EqField LVAddr ''pte'',
       RegField UInt16 ''pte_count'',
       AddrExpr (GetAddrOp (NameExpr ''frame''))],
    Cap ''VNode_x86_32_pdir'' None (Some ''RAM'') False False
      [AddrField GenPAddr ''base'',
       SizeExprIs True (NameExpr ''vnode_size'')],
    Cap ''VNode_x86_32_pdir_Mapping'' None (Some ''VNode_x86_32_pdir'') False False
      [RegField (Pointer ''struct capability'') ''frame'',
       EqField LVAddr ''pte'',
       RegField UInt16 ''pte_count'',
       AddrExpr (GetAddrOp (NameExpr ''frame''))],
    Cap ''VNode_x86_32_ptable'' None (Some ''RAM'') False False
      [AddrField GenPAddr ''base'',
       SizeExprIs True (NameExpr ''vnode_size'')],
    Cap ''VNode_x86_32_ptable_Mapping'' None (Some ''VNode_x86_32_ptable'') False False
      [RegField (Pointer ''struct capability'') ''frame'',
       EqField LVAddr ''pte'',
       RegField UInt16 ''pte_count'',
       AddrExpr (GetAddrOp (NameExpr ''frame''))]]"

definition caps_arm :: "cap_decl list" where
  "caps_arm = [
    Cap ''VNode_ARM_l1'' None (Some ''RAM'') False False
      [AddrField GenPAddr ''base'',
       SizeExprIs True (NameExpr ''vnode_size'')],
    Cap ''VNode_ARM_l1_Mapping'' None (Some ''VNode_ARM_l1'') False False
      [RegField (Pointer ''struct capability'') ''frame'',
       EqField LVAddr ''pte'',
       RegField UInt16 ''pte_count'',
       AddrExpr (GetAddrOp (NameExpr ''frame''))],
    Cap ''VNode_ARM_l2'' None (Some ''RAM'') False False
      [AddrField GenPAddr ''base'',
       SizeExprIs True (NameExpr ''vnode_size'')],
    Cap ''VNode_ARM_l2_Mapping'' None (Some ''VNode_ARM_l2'') False False
      [RegField (Pointer ''struct capability'') ''frame'',
       EqField LVAddr ''pte'',
       RegField UInt16 ''pte_count'',
       AddrExpr (GetAddrOp (NameExpr ''frame''))]]"

definition caps_aarch64 :: "cap_decl list" where
  "caps_aarch64 = [
    Cap ''VNode_AARCH64_l1'' None (Some ''RAM'') False False
      [AddrField GenPAddr ''base'',
       SizeExprIs True (NameExpr ''vnode_size'')],
    Cap ''VNode_AARCH64_l1_Mapping'' None (Some ''VNode_AARCH64_l1'') False False
      [RegField (Pointer ''struct capability'') ''frame'',
       EqField LVAddr ''pte'',
       RegField UInt16 ''pte_count'',
       AddrExpr (GetAddrOp (NameExpr ''frame''))],
    Cap ''VNode_AARCH64_l2'' None (Some ''RAM'') False False
      [AddrField GenPAddr ''base'',
       SizeExprIs True (NameExpr ''vnode_size'')],
    Cap ''VNode_AARCH64_l2_Mapping'' None (Some ''VNode_AARCH64_l2'') False False
      [RegField (Pointer ''struct capability'') ''frame'',
       EqField LVAddr ''pte'',
       RegField UInt16 ''pte_count'',
       AddrExpr (GetAddrOp (NameExpr ''frame''))],
    Cap ''VNode_AARCH64_l3'' None (Some ''RAM'') False False
      [AddrField GenPAddr ''base'',
       SizeExprIs True (NameExpr ''vnode_size'')],
    Cap ''VNode_AARCH64_l3_Mapping'' None (Some ''VNode_AARCH64_l3'') False False
      [RegField (Pointer ''struct capability'') ''frame'',
       EqField LVAddr ''pte'',
       RegField UInt16 ''pte_count'',
       AddrExpr (GetAddrOp (NameExpr ''frame''))]]"

definition caps_other :: "cap_decl list" where
  "caps_other = [
    Cap ''IRQTable'' (Some True) None False False
      [],
    Cap ''IO'' None None False False
      [EqField UInt16 ''start'',
       EqField UInt16 ''end''],
    Cap ''Notify_RCK'' None None False False
      [EqField CoreId ''coreid'',
       EqField UInt16 ''chanid''],
    Cap ''Notify_IPI'' None None False False
      [EqField CoreId ''coreid'',
       EqField UInt16 ''chanid''],
    Cap ''ID'' None None False False
      [EqField CoreId ''coreid'',
       EqField UInt32 ''core_local_id''],
    Cap ''PerfMon'' (Some True) None False False
      [],
    Cap ''KernelControlBlock'' None (Some ''RAM'') False False
      [RegField (Pointer ''struct kcb'') ''kcb'',
       AddrExpr (MemToPhysOp (NameExpr ''kcb'')),
       SizeExprIs True (NameExpr ''kcb_size'')],
    Cap ''IPI'' (Some True) None False False
      []]"

definition caps_decls :: "cap_decl list" where
  "caps_decls = caps_untyped @ caps_objects @ caps_x86_64 @ caps_x86_32 @ caps_arm @ caps_aarch64 @ caps_other"

definition caps_hl :: capabilities where
  "caps_hl = the (capsFile caps_defines caps_decls)"

section \<open>Types\<close>

fun elemIndex :: "'a \<Rightarrow> 'a list \<Rightarrow> nat option" where
  "elemIndex x [] = None"
| "elemIndex x (y # ys) = (if x = y then Some 0 else map_option Suc (elemIndex x ys))"

text \<open>The enumeration of object types numbers the definitions in their order.\<close>

definition ofObjTypeEnum :: "capabilities \<Rightarrow> string \<Rightarrow> nat option" where
  "ofObjTypeEnum C n = elemIndex n (map cd_name (capdefs C))"

definition ObjType_Num :: "capabilities \<Rightarrow> nat" where
  "ObjType_Num C = length (capdefs C)"

definition nth_cap :: "capabilities \<Rightarrow> nat \<Rightarrow> capdef option" where
  "nth_cap C ty = (if ty < ObjType_Num C then Some (capdefs C ! ty) else None)"

definition lookup_cap :: "capabilities \<Rightarrow> string \<Rightarrow> capdef option" where
  "lookup_cap C n = find (\<lambda>c. cd_name c = n) (capdefs C)"

partial_function (option) typeRoot :: "capabilities \<Rightarrow> string \<Rightarrow> string option" where
  "typeRoot C n = do {
     c \<leftarrow> lookup_cap C n;
     case cd_from c of
       Some m \<Rightarrow> typeRoot C m
     | None \<Rightarrow> Some n
   }"

definition rootTypeNames :: "capabilities \<Rightarrow> string list" where
  "rootTypeNames C = map cd_name (filter (\<lambda>c. cd_from c = None) (capdefs C))"

definition gen_type_root :: "capabilities \<Rightarrow> nat \<Rightarrow> u8 option" where
  "gen_type_root C ty = do {
     c \<leftarrow> nth_cap C ty;
     r \<leftarrow> typeRoot C (cd_name c);
     i \<leftarrow> elemIndex r (rootTypeNames C);
     Some (of_nat i)
   }"

definition gen_well_founded :: "capabilities \<Rightarrow> nat \<Rightarrow> nat \<Rightarrow> bool" where
  "gen_well_founded C src_type dest_type =
     (case nth_cap C dest_type of
        None \<Rightarrow> False
      | Some c \<Rightarrow>
          (case cd_from c of Some n \<Rightarrow> ofObjTypeEnum C n = Some src_type | None \<Rightarrow> False) \<or>
          cd_fromSelf c \<and> ofObjTypeEnum C (cd_name c) = Some src_type)"

definition is_equal_type :: "nat \<Rightarrow> nat \<Rightarrow> bool" where
  "is_equal_type left_type right_type \<longleftrightarrow> left_type = right_type"

text \<open>The types that can be retyped, and whether more than once.\<close>

definition getChildren :: "capabilities \<Rightarrow> capdef \<Rightarrow> capdef list" where
  "getChildren C p =
     filter (\<lambda>c. cd_from c = Some (cd_name p)) (capdefs C) @ (if cd_fromSelf p then [p] else [])"

definition revokePath :: "capabilities \<Rightarrow> capdef \<Rightarrow> bool option" where
  "revokePath C c = (if getChildren C c = [] then None else Some (cd_multiRetype c))"

definition is_revoked_first :: "capabilities \<Rightarrow> bool \<Rightarrow> nat \<Rightarrow> bool" where
  "is_revoked_first C has_desc src_type =
     (case nth_cap C src_type of
        None \<Rightarrow> False
      | Some c \<Rightarrow> (case revokePath C c of
                    None \<Rightarrow> False
                  | Some mult \<Rightarrow> if mult then True else \<not> has_desc))"

section \<open>Capabilities\<close>

record capability =
  cap_type :: nat
  cap_rights :: u8
  cap_u :: "string \<Rightarrow> u64"

text \<open>The memory that pointers to capabilities refer to, and the kernel's address translation.\<close>

record cap_env =
  mem_to_phys :: "u64 \<Rightarrow> u64"
  cap_at :: "u64 \<Rightarrow> capability option"

definition lookupName :: "capabilities \<Rightarrow> capability \<Rightarrow> capdef \<Rightarrow> string \<Rightarrow> u64 option" where
  "lookupName C cap c n =
     (case map_of (cs_defines C) n of
        None \<Rightarrow> if n \<in> set (map snd (cd_fields c)) then Some (cap_u cap n) else None
      | Some val \<Rightarrow> Some (of_nat val))"

fun exprCode :: "capabilities \<Rightarrow> capability \<Rightarrow> capdef \<Rightarrow> expr \<Rightarrow> u64 option" where
  "exprCode C cap c (NameExpr n) = lookupName C cap c n"
| "exprCode C cap c (AddExpr l r) = do {
     lval \<leftarrow> lookupName C cap c l;
     rval \<leftarrow> lookupName C cap c r;
     Some (lval + rval)
   }"

text \<open>\<^verbatim>\<open>get_address\<close>, with the address expressions inlined because they call it.\<close>

partial_function (option) gen_address :: "cap_env \<Rightarrow> capabilities \<Rightarrow> capability \<Rightarrow> u64 option" where
  "gen_address E C cap = do {
     c \<leftarrow> nth_cap C (cap_type cap);
     case cd_rangeExpr c of
       None \<Rightarrow> Some 0
     | Some rng \<Rightarrow>
         (case fst rng of
            AddressExpr e \<Rightarrow> exprCode C cap c e
          | MemToPhysOp e \<Rightarrow> do { lval \<leftarrow> exprCode C cap c e; Some (mem_to_phys E lval) }
          | GetAddrOp e \<Rightarrow> do { lval \<leftarrow> exprCode C cap c e; frame \<leftarrow> cap_at E lval; gen_address E C frame })
   }"

text \<open>A shift by the width of the word or more is undefined.\<close>

definition mkSize :: "u64 \<Rightarrow> u64 option" where
  "mkSize bits = (if unat bits < 64 then Some (push_bit (unat bits) 1) else None)"

fun sizeExprCode :: "capabilities \<Rightarrow> capability \<Rightarrow> capdef \<Rightarrow> size_expr \<Rightarrow> u64 option" where
  "sizeExprCode C cap c ZeroSize = Some 0"
| "sizeExprCode C cap c (SizeExpr e) = exprCode C cap c e"
| "sizeExprCode C cap c (SizeBitsExpr e) = do { bits \<leftarrow> exprCode C cap c e; mkSize bits }"

definition gen_size :: "capabilities \<Rightarrow> capability \<Rightarrow> u64 option" where
  "gen_size C cap = do {
     c \<leftarrow> nth_cap C (cap_type cap);
     case cd_rangeExpr c of
       None \<Rightarrow> Some 0
     | Some rng \<Rightarrow> sizeExprCode C cap c (snd rng)
   }"

text \<open>The facts for a definition file, with 0 where the generated code has no result.\<close>

declare typeRoot.simps [code]

declare gen_address.simps [code]

definition or_zero :: "'a::zero option \<Rightarrow> 'a" where
  "or_zero x = (case x of Some y \<Rightarrow> y | None \<Rightarrow> 0)"

definition hamlet_ops :: "cap_env \<Rightarrow> capabilities \<Rightarrow> capability cap_ops" where
  "hamlet_ops E C = \<lparr>
     type_of = cap_type,
     get_type_root = (\<lambda>ty. or_zero (gen_type_root C ty)),
     get_address = (\<lambda>c. or_zero (gen_address E C c)),
     get_size = (\<lambda>c. or_zero (gen_size C c)),
     eq_fields = (\<lambda>ty. case nth_cap C ty of Some c \<Rightarrow> map (\<lambda>n cap. cap_u cap n) (cd_eqFields c) | None \<Rightarrow> []),
     general_equality = (\<lambda>ty. case nth_cap C ty of Some c \<Rightarrow> cd_generalEquality c | None \<Rightarrow> None),
     is_well_founded = gen_well_founded C\<rparr>"

section \<open>Definition files define forests\<close>

lemma elemIndex_Some:
  "elemIndex x xs = Some i \<Longrightarrow> i < length xs \<and> xs ! i = x \<and> (\<forall>j<i. xs ! j \<noteq> x)"
proof (induction xs arbitrary: i)
  case (Cons y ys)
  show ?case
  proof (cases "x = y")
    case False
    with Cons.prems obtain k where k: "elemIndex x ys = Some k" "i = Suc k" by auto
    from Cons.IH [OF k(1)] k(2) False show ?thesis by (auto simp: less_Suc_eq_0_disj)
  qed (use Cons.prems in simp)
qed simp

lemma elemIndex_in: "x \<in> set xs \<Longrightarrow> \<exists>i. elemIndex x xs = Some i"
  by (induction xs) auto

lemma elemIndex_nth: "distinct xs \<Longrightarrow> i < length xs \<Longrightarrow> elemIndex (xs ! i) xs = Some i"
proof (induction xs arbitrary: i)
  case (Cons y ys)
  then show ?case by (cases i) auto
qed simp

lemma elemIndex_le: "elemIndex x xs = Some i \<Longrightarrow> xs ! j = x \<Longrightarrow> i \<le> j"
  by (drule elemIndex_Some) (auto simp: not_less [symmetric])

lemma find_elemIndex:
  "elemIndex n (map f cs) = Some i \<Longrightarrow> find (\<lambda>c. f c = n) cs = Some (cs ! i)"
  by (induction cs arbitrary: i) (auto split: if_splits)

text \<open>Every source is declared before the type that names it.\<close>

definition sources_first :: "capdef list \<Rightarrow> bool" where
  "sources_first cs \<longleftrightarrow>
     (\<forall>i < length cs. \<forall>n. cd_from (cs ! i) = Some n \<longrightarrow> n \<in> set (map cd_name (take i cs)))"

lemma sources_first_snoc:
  "sources_first cs \<Longrightarrow> (\<And>n. cd_from c = Some n \<Longrightarrow> n \<in> set (map cd_name cs)) \<Longrightarrow> sources_first (cs @ [c])"
  by (auto simp: sources_first_def nth_append less_Suc_eq)

lemma capDefFold_sources:
  "capDefFold acc ds = Some cs \<Longrightarrow> sources_first (rev acc) \<Longrightarrow> sources_first cs"
proof (induction ds arbitrary: acc)
  case (Cons d ds)
  then obtain c where c: "capabilitiesDef acc d = Some c" "capDefFold (c # acc) ds = Some cs"
    by (auto split: bind_splits)
  have "sources_first (rev (c # acc))"
    using Cons.prems(2) c(1)
    by (auto simp: capabilitiesDef_def intro!: sources_first_snoc split: cap_decl.splits if_splits bind_splits)
  with Cons.IH c(2) show ?case by blast
qed simp

lemma capsFile_sources:
  assumes "capsFile defs ds = Some C"
  shows "sources_first (capdefs C)"
proof -
  from assms obtain cs where "capDefFold [] ds = Some cs" "capdefs C = cs"
    by (auto simp: capsFile_def split: bind_splits)
  with capDefFold_sources [of "[]" ds cs] show ?thesis by (simp add: sources_first_def)
qed

lemma sources_firstE:
  assumes "sources_first cs" "i < length cs" "cd_from (cs ! i) = Some m"
  obtains j where "elemIndex m (map cd_name cs) = Some j" "j < i"
proof -
  from assms have "m \<in> set (map cd_name (take i cs))" by (simp add: sources_first_def)
  then obtain k where k: "k < i" "map cd_name cs ! k = m" "k < length cs"
    by (auto simp: in_set_conv_nth take_map)
  then have "m \<in> set (map cd_name cs)" by force
  from elemIndex_in [OF this] obtain j where j: "elemIndex m (map cd_name cs) = Some j" by blast
  have "j \<le> k" using elemIndex_le [OF j k(2)] .
  with j k show ?thesis using that by auto
qed

lemma typeRoot_index:
  assumes "sources_first (capdefs C)" "elemIndex n (map cd_name (capdefs C)) = Some i"
  shows "\<exists>r. typeRoot C n = Some r \<and> r \<in> set (rootTypeNames C)"
  using assms(2)
proof (induction i arbitrary: n rule: less_induct)
  case (less i)
  from elemIndex_Some [OF less.prems] have i: "i < length (capdefs C)" "cd_name (capdefs C ! i) = n"
    by auto
  have look: "lookup_cap C n = Some (capdefs C ! i)"
    using find_elemIndex [OF less.prems] by (simp add: lookup_cap_def)
  show ?case
  proof (cases "cd_from (capdefs C ! i)")
    case None
    with i have "n \<in> set (rootTypeNames C)" by (force simp: rootTypeNames_def)
    with None look show ?thesis by (subst typeRoot.simps) simp
  next
    case (Some m)
    from sources_firstE [OF assms(1) i(1) Some] obtain j where "elemIndex m (map cd_name (capdefs C)) = Some j" "j < i" .
    with less.IH obtain r where "typeRoot C m = Some r" "r \<in> set (rootTypeNames C)" by blast
    with Some look show ?thesis by (subst typeRoot.simps) simp
  qed
qed

lemma gen_type_root_total:
  assumes "sources_first (capdefs C)" "ty < ObjType_Num C"
  shows "\<exists>i. i < length (rootTypeNames C) \<and> gen_type_root C ty = Some (of_nat i)"
proof -
  have "cd_name (capdefs C ! ty) \<in> set (map cd_name (capdefs C))"
    using assms(2) by (simp add: ObjType_Num_def)
  from elemIndex_in [OF this] typeRoot_index [OF assms(1)] obtain r where
    r: "typeRoot C (cd_name (capdefs C ! ty)) = Some r" "r \<in> set (rootTypeNames C)" by blast
  from elemIndex_in [OF r(2)] obtain i where i: "elemIndex r (rootTypeNames C) = Some i" by blast
  with r(1) assms(2) elemIndex_Some [OF i] show ?thesis
    by (auto simp: gen_type_root_def nth_cap_def)
qed

lemma typeRoot_from:
  assumes "distinct (map cd_name (capdefs C))" "nth_cap C ty = Some c" "cd_from c = Some m"
  shows "typeRoot C (cd_name c) = typeRoot C m"
proof -
  have "elemIndex (cd_name c) (map cd_name (capdefs C)) = Some ty"
    using elemIndex_nth [OF assms(1), of ty] assms(2) by (auto simp: nth_cap_def ObjType_Num_def split: if_splits)
  from find_elemIndex [OF this] assms(2) have "lookup_cap C (cd_name c) = Some c"
    by (auto simp: lookup_cap_def nth_cap_def split: if_splits)
  with assms(3) show ?thesis by (subst typeRoot.simps) simp
qed

lemma gen_well_founded_root:
  assumes dist: "distinct (map cd_name (capdefs C))" and wf: "gen_well_founded C p c"
  shows "gen_type_root C p = gen_type_root C c"
proof -
  obtain cd where cd: "nth_cap C c = Some cd" using wf by (auto simp: gen_well_founded_def split: option.splits)
  consider m where "cd_from cd = Some m" "ofObjTypeEnum C m = Some p"
    | "ofObjTypeEnum C (cd_name cd) = Some p"
    using wf cd by (auto simp: gen_well_founded_def split: option.splits)
  then show ?thesis
  proof cases
    case 1
    from elemIndex_Some [OF 1(2) [unfolded ofObjTypeEnum_def]]
    have "p < ObjType_Num C" "cd_name (capdefs C ! p) = m" by (auto simp: ObjType_Num_def)
    then have "gen_type_root C p = do { r \<leftarrow> typeRoot C m; i \<leftarrow> elemIndex r (rootTypeNames C); Some (of_nat i) }"
      by (simp add: gen_type_root_def nth_cap_def)
    with typeRoot_from [OF dist cd 1(1)] cd show ?thesis by (simp add: gen_type_root_def)
  next
    case 2
    with cd elemIndex_nth [OF dist, of c] have "p = c"
      by (auto simp: ofObjTypeEnum_def nth_cap_def ObjType_Num_def split: if_splits)
    then show ?thesis by simp
  qed
qed

lemma gen_well_founded_order:
  assumes src: "sources_first (capdefs C)" and wf: "gen_well_founded C p c"
  shows "p \<le> c"
proof -
  obtain cd where cd: "nth_cap C c = Some cd" using wf by (auto simp: gen_well_founded_def split: option.splits)
  then have c: "c < length (capdefs C)" "cd = capdefs C ! c" by (auto simp: nth_cap_def ObjType_Num_def split: if_splits)
  consider m where "cd_from cd = Some m" "elemIndex m (map cd_name (capdefs C)) = Some p"
    | "elemIndex (cd_name cd) (map cd_name (capdefs C)) = Some p"
    using wf cd by (auto simp: gen_well_founded_def ofObjTypeEnum_def split: option.splits)
  then show ?thesis
  proof cases
    case 1
    then show ?thesis using c by (auto elim: sources_firstE [OF src c(1)])
  next
    case 2
    then show ?thesis using c by (auto intro: elemIndex_le)
  qed
qed

section \<open>The capabilities of Barrelfish\<close>

lemma caps_accepted: "capsFile caps_defines caps_decls = Some caps_hl"
  by code_simp

lemma caps_distinct: "distinct (map cd_name (capdefs caps_hl))"
  by code_simp

lemma caps_Num: "ObjType_Num caps_hl = 44"
  by code_simp

lemma caps_roots: "length (rootTypeNames caps_hl) = 11"
  by code_simp

lemma caps_sources: "sources_first (capdefs caps_hl)"
  using caps_accepted by (rule capsFile_sources)

interpretation hamlet: cap_forest "hamlet_ops E caps_hl" for E
  by unfold_locales
     (auto simp: hamlet_ops_def gen_well_founded_root [OF caps_distinct] gen_well_founded_order [OF caps_sources])

text \<open>The names in the expressions of a definition are constants of the file or its own fields.\<close>

fun expr_names :: "expr \<Rightarrow> string list" where
  "expr_names (NameExpr n) = [n]"
| "expr_names (AddExpr l r) = [l, r]"

definition expr_ok :: "(string \<times> nat) list \<Rightarrow> capdef \<Rightarrow> expr \<Rightarrow> bool" where
  "expr_ok defs c e \<longleftrightarrow>
     list_all (\<lambda>n. map_of defs n \<noteq> None \<or> n \<in> set (map snd (cd_fields c))) (expr_names e)"

fun address_arg :: "address_expr \<Rightarrow> expr" where
  "address_arg (AddressExpr e) = e"
| "address_arg (MemToPhysOp e) = e"
| "address_arg (GetAddrOp e) = e"

text \<open>A definition whose address is that of another capability.\<close>

definition borrows_address :: "capdef \<Rightarrow> bool" where
  "borrows_address c \<longleftrightarrow>
     (case cd_rangeExpr c of Some (GetAddrOp e, _) \<Rightarrow> e = NameExpr ''frame'' | _ \<Rightarrow> False)"

definition address_ok :: "(string \<times> nat) list \<Rightarrow> capdef \<Rightarrow> bool" where
  "address_ok defs c \<longleftrightarrow>
     (case cd_rangeExpr c of
        None \<Rightarrow> True
      | Some (a, _) \<Rightarrow> expr_ok defs c (address_arg a) \<and>
          (case a of GetAddrOp e \<Rightarrow> e = NameExpr ''frame'' \<and> map_of defs ''frame'' = None | _ \<Rightarrow> True))"

text \<open>The exponents of sizes: the field \<^verbatim>\<open>bits\<close>, that plus the size of a slot, or a constant.\<close>

definition size_ok :: "(string \<times> nat) list \<Rightarrow> capdef \<Rightarrow> bool" where
  "size_ok defs c \<longleftrightarrow>
     (case cd_rangeExpr c of
        None \<Rightarrow> True
      | Some (_, ZeroSize) \<Rightarrow> True
      | Some (_, SizeExpr e) \<Rightarrow> expr_ok defs c e
      | Some (_, SizeBitsExpr e) \<Rightarrow> expr_ok defs c e \<and>
          (case e of
             NameExpr n \<Rightarrow> (case map_of defs n of None \<Rightarrow> n = ''bits'' | Some v \<Rightarrow> v < 64)
           | AddExpr l r \<Rightarrow> l = ''bits'' \<and> map_of defs l = None \<and>
               (case map_of defs r of None \<Rightarrow> False | Some v \<Rightarrow> v \<le> 6)))"

lemma caps_exprs_ok: "list_all (\<lambda>c. address_ok caps_defines c \<and> size_ok caps_defines c) (capdefs caps_hl)"
  by code_simp

lemma capsFile_defines: "capsFile defs ds = Some C \<Longrightarrow> cs_defines C = defs"
  by (auto simp: capsFile_def split: bind_splits)

lemma caps_hl_defines: "cs_defines caps_hl = caps_defines"
  using caps_accepted by (rule capsFile_defines)

lemma lookupName_ok:
  "map_of (cs_defines C) n \<noteq> None \<or> n \<in> set (map snd (cd_fields c)) \<Longrightarrow> \<exists>v. lookupName C cap c n = Some v"
  by (auto simp: lookupName_def split: option.splits)

lemma exprCode_ok: "expr_ok (cs_defines C) c e \<Longrightarrow> \<exists>v. exprCode C cap c e = Some v"
proof (cases e)
  case (AddExpr l r)
  assume "expr_ok (cs_defines C) c e"
  with AddExpr lookupName_ok [of C l c cap] lookupName_ok [of C r c cap] show ?thesis
    by (auto simp: expr_ok_def)
next
  case (NameExpr n)
  assume "expr_ok (cs_defines C) c e"
  with NameExpr lookupName_ok [of C n c cap] show ?thesis by (auto simp: expr_ok_def)
qed

lemma gen_address_own:
  assumes "nth_cap C (cap_type cap) = Some c" "address_ok (cs_defines C) c" "\<not> borrows_address c"
  shows "\<exists>a. gen_address E C cap = Some a"
proof (cases "cd_rangeExpr c")
  case None
  with assms(1) show ?thesis by (subst gen_address.simps) simp
next
  case (Some rng)
  obtain a sz where rng: "rng = (a, sz)" by fastforce
  with assms(2) Some exprCode_ok [of C c "address_arg a" cap] obtain v where
    v: "exprCode C cap c (address_arg a) = Some v" by (auto simp: address_ok_def)
  show ?thesis
  proof (cases a)
    case (GetAddrOp e)
    with assms(2,3) Some rng show ?thesis by (simp add: address_ok_def borrows_address_def)
  qed (use v assms(1) Some rng in \<open>simp_all add: gen_address.simps [of E C cap]\<close>)
qed

lemma gen_address_borrowed:
  assumes "nth_cap C (cap_type cap) = Some c" "address_ok (cs_defines C) c" "borrows_address c"
    "cap_at E (cap_u cap ''frame'') = Some frame"
  shows "gen_address E C cap = gen_address E C frame"
proof -
  from assms(3) obtain sz where rng: "cd_rangeExpr c = Some (GetAddrOp (NameExpr ''frame''), sz)"
    by (auto simp: borrows_address_def split: option.splits address_expr.splits)
  with assms(2) have "exprCode C cap c (NameExpr ''frame'') = Some (cap_u cap ''frame'')"
    by (auto simp: address_ok_def expr_ok_def lookupName_def)
  with rng assms(1,4) show ?thesis by (subst gen_address.simps) simp
qed

lemma mkSize_ok: "unat b < 64 \<Longrightarrow> \<exists>sz. mkSize b = Some sz"
  by (simp add: mkSize_def)

lemma gen_size_ok:
  assumes "nth_cap C (cap_type cap) = Some c" "size_ok (cs_defines C) c" "unat (cap_u cap ''bits'') < 58"
  shows "\<exists>sz. gen_size C cap = Some sz"
proof (cases "cd_rangeExpr c")
  case None
  with assms(1) show ?thesis by (simp add: gen_size_def)
next
  case (Some rng)
  obtain a sz where rng: "rng = (a, sz)" by fastforce
  show ?thesis
  proof (cases sz)
    case (SizeExpr e)
    with assms(1,2) Some rng exprCode_ok [of C c e cap] show ?thesis by (auto simp: gen_size_def size_ok_def)
  next
    case (SizeBitsExpr e)
    have "\<exists>b. exprCode C cap c e = Some b \<and> unat b < 64"
    proof (cases e)
      case (NameExpr n)
      from exprCode_ok [of C c e cap] assms(2) Some rng SizeBitsExpr obtain v where
        v: "lookupName C cap c n = Some v" by (auto simp: size_ok_def NameExpr)
      have n: "case map_of (cs_defines C) n of None \<Rightarrow> n = ''bits'' | Some v \<Rightarrow> v < 64"
        using assms(2) Some rng SizeBitsExpr by (simp add: size_ok_def NameExpr)
      show ?thesis
      proof (cases "map_of (cs_defines C) n")
        case None
        with n v assms(3) NameExpr show ?thesis by (simp add: lookupName_def split: if_splits)
      next
        case (Some k)
        with n have "unat (of_nat k :: u64) < 64" by (simp add: unat_of_nat)
        with Some NameExpr show ?thesis by (simp add: lookupName_def)
      qed
    next
      case (AddExpr l r)
      with assms(2) Some rng SizeBitsExpr obtain v where v: "l = ''bits''" "map_of (cs_defines C) l = None"
        "map_of (cs_defines C) r = Some v" "v \<le> 6" "''bits'' \<in> set (map snd (cd_fields c))"
        by (auto simp: size_ok_def expr_ok_def split: option.splits)
      have "unat (cap_u cap ''bits'' + of_nat v) < 64"
        using assms(3) v(4) by (simp add: unat_word_ariths unat_of_nat)
      with v AddExpr show ?thesis by (simp add: lookupName_def)
    qed
    with assms(1) Some rng SizeBitsExpr show ?thesis by (auto simp: gen_size_def mkSize_def)
  qed (use assms(1) Some rng in \<open>simp add: gen_size_def\<close>)
qed

section \<open>Properties\<close>

text \<open>
  C30. In every definition file that the parser accepts, following the sources of a type
  ends: each object type has a root, which is one of the types without a source.
\<close>

theorem type_root_total:
  assumes "capsFile defs ds = Some C" "ty < ObjType_Num C"
  shows "\<exists>i < length (rootTypeNames C). gen_type_root C ty = Some (of_nat i)"
  using gen_type_root_total [OF capsFile_sources [OF assms(1)] assms(2)] by blast

theorem type_root_total_witness:
  "\<exists>i < length (rootTypeNames caps_hl). gen_type_root caps_hl 43 = Some (of_nat i)"
  using type_root_total [OF caps_accepted, of 43] by (simp add: caps_Num)


definition example_frame :: capability where
  "example_frame = \<lparr>cap_type = 7, cap_rights = 0, cap_u = (\<lambda>n. if n = ''base'' then 0x2000 else 12)\<rparr>"

definition example_mapping :: capability where
  "example_mapping = \<lparr>cap_type = 8, cap_rights = 0, cap_u = (\<lambda>n. if n = ''frame'' then 64 else 0)\<rparr>"

definition example_env :: cap_env where
  "example_env = \<lparr>mem_to_phys = (\<lambda>a. a), cap_at = (\<lambda>p. if p = 64 then Some example_frame else None)\<rparr>"

lemma example_borrows: "borrows_address (capdefs caps_hl ! 8) \<and> \<not> borrows_address (capdefs caps_hl ! 7)"
  by code_simp


text \<open>
  C16. An ancestor precedes its descendants in the order of the capability database and lies in
  the same tree, for all capabilities of caps.hl whose extents do not wrap around.
\<close>

theorem ancestor_before_descendant:
  assumes "is_ancestor (hamlet_ops E caps_hl) child parent"
    "no_wrap (hamlet_ops E caps_hl) child" "no_wrap (hamlet_ops E caps_hl) parent"
  shows "compare_caps (hamlet_ops E caps_hl) (parent, p) (child, c) tb = -1 \<and>
    root_of (hamlet_ops E caps_hl) child = root_of (hamlet_ops E caps_hl) parent"
  using hamlet.ancestor_precedes [OF assms] hamlet.ancestor_root [OF assms(1)] by simp

definition example_ram :: capability where
  "example_ram = \<lparr>cap_type = 2, cap_rights = 0, cap_u = (\<lambda>n. if n = ''base'' then 0x2000 else 13)\<rparr>"

lemma example_extents:
  "gen_address example_env caps_hl example_ram = Some 0x2000 \<and> gen_size caps_hl example_ram = Some 0x2000 \<and>
   gen_address example_env caps_hl example_frame = Some 0x2000 \<and> gen_size caps_hl example_frame = Some 0x1000 \<and>
   gen_well_founded caps_hl 2 7"
  by code_simp

theorem ancestor_before_descendant_witness:
  "compare_caps (hamlet_ops example_env caps_hl) (example_ram, 8) (example_frame, 4) True = -1"
proof -
  have "is_ancestor (hamlet_ops example_env caps_hl) example_frame example_ram"
    using example_extents
    by (simp add: is_ancestor_def hamlet_ops_def or_zero_def Let_def) (simp add: example_frame_def example_ram_def)
  moreover have "no_wrap (hamlet_ops example_env caps_hl) example_frame" "no_wrap (hamlet_ops example_env caps_hl) example_ram"
    using example_extents by (simp_all add: no_wrap_def hamlet_ops_def or_zero_def)
  ultimately show ?thesis using ancestor_before_descendant [of example_env example_frame example_ram 8 4 True] by simp
qed

text \<open>
  C31. For definition files with distinct names, a type without descendants passes the check of
  retype exactly if some type can be made from it.
\<close>

theorem is_revoked_first_iff_retypable:
  assumes "distinct (map cd_name (capdefs C))"
  shows "is_revoked_first C False src \<longleftrightarrow> (\<exists>dest. gen_well_founded C src dest)"
proof (cases "src < ObjType_Num C")
  case True
  then have nth: "nth_cap C src = Some (capdefs C ! src)" by (simp add: nth_cap_def)
  have enum: "ofObjTypeEnum C n = Some src \<longleftrightarrow> n = cd_name (capdefs C ! src)" for n
    using elemIndex_Some [of n "map cd_name (capdefs C)" src] elemIndex_nth [OF assms, of src] True
    by (auto simp: ofObjTypeEnum_def ObjType_Num_def)
  have "is_revoked_first C False src \<longleftrightarrow> getChildren C (capdefs C ! src) \<noteq> []"
    by (simp add: is_revoked_first_def nth revokePath_def)
  also have "\<dots> \<longleftrightarrow> (\<exists>c \<in> set (capdefs C). cd_from c = Some (cd_name (capdefs C ! src))) \<or> cd_fromSelf (capdefs C ! src)"
    by (auto simp: getChildren_def filter_empty_conv)
  also have "\<dots> \<longleftrightarrow> (\<exists>dest. gen_well_founded C src dest)"
  proof
    assume "(\<exists>c \<in> set (capdefs C). cd_from c = Some (cd_name (capdefs C ! src))) \<or> cd_fromSelf (capdefs C ! src)"
    then show "\<exists>dest. gen_well_founded C src dest"
    proof
      assume "\<exists>c \<in> set (capdefs C). cd_from c = Some (cd_name (capdefs C ! src))"
      then obtain d where "d < ObjType_Num C" "cd_from (capdefs C ! d) = Some (cd_name (capdefs C ! src))"
        by (auto simp: in_set_conv_nth ObjType_Num_def)
      then have "gen_well_founded C src d" by (simp add: gen_well_founded_def nth_cap_def enum)
      then show ?thesis ..
    next
      assume "cd_fromSelf (capdefs C ! src)"
      then have "gen_well_founded C src src" by (simp add: gen_well_founded_def nth enum)
      then show ?thesis ..
    qed
  next
    assume "\<exists>dest. gen_well_founded C src dest"
    then obtain d where d: "gen_well_founded C src d" ..
    then have "d < length (capdefs C)" by (auto simp: gen_well_founded_def nth_cap_def ObjType_Num_def split: if_splits)
    with d show "(\<exists>c \<in> set (capdefs C). cd_from c = Some (cd_name (capdefs C ! src))) \<or> cd_fromSelf (capdefs C ! src)"
      using assms True nth_eq_iff_index_eq [OF assms, of d src]
      by (auto simp: gen_well_founded_def nth_cap_def enum ObjType_Num_def split: option.splits)
  qed
  finally show ?thesis .
next
  case False
  then have "\<not> gen_well_founded C src d" for d
    by (auto simp: gen_well_founded_def ofObjTypeEnum_def ObjType_Num_def dest: elemIndex_Some split: option.splits)
  with False show ?thesis by (simp add: is_revoked_first_def nth_cap_def)
qed

theorem is_revoked_first_iff_retypable_witness:
  "is_revoked_first caps_hl False 2 \<longleftrightarrow> (\<exists>dest. gen_well_founded caps_hl 2 dest)"
  using is_revoked_first_iff_retypable [OF caps_distinct, of 2] .

end
