(* ===== verification/Cap_Types.thy ===== *)
theory Cap_Types
  imports Hamlet
begin

text \<open>
  The object types as the kernel uses them: the enumeration generated from caps.hl and the functions on types of
  \<^verbatim>\<open>barrelfish_kpi/capabilities.h\<close> and \<^verbatim>\<open>barrelfish_kpi/distcaps.h\<close>.
\<close>

section \<open>The enumeration\<close>

abbreviation ObjType_Null :: nat where "ObjType_Null \<equiv> 0"
abbreviation ObjType_PhysAddr :: nat where "ObjType_PhysAddr \<equiv> 1"
abbreviation ObjType_RAM :: nat where "ObjType_RAM \<equiv> 2"
abbreviation ObjType_CNode :: nat where "ObjType_CNode \<equiv> 3"
abbreviation ObjType_FCNode :: nat where "ObjType_FCNode \<equiv> 4"
abbreviation ObjType_Dispatcher :: nat where "ObjType_Dispatcher \<equiv> 5"
abbreviation ObjType_EndPoint :: nat where "ObjType_EndPoint \<equiv> 6"
abbreviation ObjType_Frame :: nat where "ObjType_Frame \<equiv> 7"
abbreviation ObjType_Frame_Mapping :: nat where "ObjType_Frame_Mapping \<equiv> 8"
abbreviation ObjType_DevFrame :: nat where "ObjType_DevFrame \<equiv> 9"
abbreviation ObjType_DevFrame_Mapping :: nat where "ObjType_DevFrame_Mapping \<equiv> 10"
abbreviation ObjType_Kernel :: nat where "ObjType_Kernel \<equiv> 11"
abbreviation ObjType_VNode_x86_64_pml4 :: nat where "ObjType_VNode_x86_64_pml4 \<equiv> 12"
abbreviation ObjType_VNode_x86_64_pml4_Mapping :: nat where "ObjType_VNode_x86_64_pml4_Mapping \<equiv> 13"
abbreviation ObjType_VNode_x86_64_pdpt :: nat where "ObjType_VNode_x86_64_pdpt \<equiv> 14"
abbreviation ObjType_VNode_x86_64_pdpt_Mapping :: nat where "ObjType_VNode_x86_64_pdpt_Mapping \<equiv> 15"
abbreviation ObjType_VNode_x86_64_pdir :: nat where "ObjType_VNode_x86_64_pdir \<equiv> 16"
abbreviation ObjType_VNode_x86_64_pdir_Mapping :: nat where "ObjType_VNode_x86_64_pdir_Mapping \<equiv> 17"
abbreviation ObjType_VNode_x86_64_ptable :: nat where "ObjType_VNode_x86_64_ptable \<equiv> 18"
abbreviation ObjType_VNode_x86_64_ptable_Mapping :: nat where "ObjType_VNode_x86_64_ptable_Mapping \<equiv> 19"
abbreviation ObjType_VNode_x86_32_pdpt :: nat where "ObjType_VNode_x86_32_pdpt \<equiv> 20"
abbreviation ObjType_VNode_x86_32_pdpt_Mapping :: nat where "ObjType_VNode_x86_32_pdpt_Mapping \<equiv> 21"
abbreviation ObjType_VNode_x86_32_pdir :: nat where "ObjType_VNode_x86_32_pdir \<equiv> 22"
abbreviation ObjType_VNode_x86_32_pdir_Mapping :: nat where "ObjType_VNode_x86_32_pdir_Mapping \<equiv> 23"
abbreviation ObjType_VNode_x86_32_ptable :: nat where "ObjType_VNode_x86_32_ptable \<equiv> 24"
abbreviation ObjType_VNode_x86_32_ptable_Mapping :: nat where "ObjType_VNode_x86_32_ptable_Mapping \<equiv> 25"
abbreviation ObjType_VNode_ARM_l1 :: nat where "ObjType_VNode_ARM_l1 \<equiv> 26"
abbreviation ObjType_VNode_ARM_l1_Mapping :: nat where "ObjType_VNode_ARM_l1_Mapping \<equiv> 27"
abbreviation ObjType_VNode_ARM_l2 :: nat where "ObjType_VNode_ARM_l2 \<equiv> 28"
abbreviation ObjType_VNode_ARM_l2_Mapping :: nat where "ObjType_VNode_ARM_l2_Mapping \<equiv> 29"
abbreviation ObjType_VNode_AARCH64_l1 :: nat where "ObjType_VNode_AARCH64_l1 \<equiv> 30"
abbreviation ObjType_VNode_AARCH64_l1_Mapping :: nat where "ObjType_VNode_AARCH64_l1_Mapping \<equiv> 31"
abbreviation ObjType_VNode_AARCH64_l2 :: nat where "ObjType_VNode_AARCH64_l2 \<equiv> 32"
abbreviation ObjType_VNode_AARCH64_l2_Mapping :: nat where "ObjType_VNode_AARCH64_l2_Mapping \<equiv> 33"
abbreviation ObjType_VNode_AARCH64_l3 :: nat where "ObjType_VNode_AARCH64_l3 \<equiv> 34"
abbreviation ObjType_VNode_AARCH64_l3_Mapping :: nat where "ObjType_VNode_AARCH64_l3_Mapping \<equiv> 35"
abbreviation ObjType_IRQTable :: nat where "ObjType_IRQTable \<equiv> 36"
abbreviation ObjType_IO :: nat where "ObjType_IO \<equiv> 37"
abbreviation ObjType_Notify_RCK :: nat where "ObjType_Notify_RCK \<equiv> 38"
abbreviation ObjType_Notify_IPI :: nat where "ObjType_Notify_IPI \<equiv> 39"
abbreviation ObjType_ID :: nat where "ObjType_ID \<equiv> 40"
abbreviation ObjType_PerfMon :: nat where "ObjType_PerfMon \<equiv> 41"
abbreviation ObjType_KernelControlBlock :: nat where "ObjType_KernelControlBlock \<equiv> 42"
abbreviation ObjType_IPI :: nat where "ObjType_IPI \<equiv> 43"

text \<open>The numbers are those of the generated enumeration.\<close>

lemma enumeration:
  "map cd_name (capdefs caps_hl) =
     [''Null'', ''PhysAddr'', ''RAM'', ''CNode'', ''FCNode'', ''Dispatcher'', ''EndPoint'', ''Frame'', ''Frame_Mapping'',
      ''DevFrame'', ''DevFrame_Mapping'', ''Kernel'', ''VNode_x86_64_pml4'', ''VNode_x86_64_pml4_Mapping'',
      ''VNode_x86_64_pdpt'', ''VNode_x86_64_pdpt_Mapping'', ''VNode_x86_64_pdir'', ''VNode_x86_64_pdir_Mapping'',
      ''VNode_x86_64_ptable'', ''VNode_x86_64_ptable_Mapping'', ''VNode_x86_32_pdpt'', ''VNode_x86_32_pdpt_Mapping'',
      ''VNode_x86_32_pdir'', ''VNode_x86_32_pdir_Mapping'', ''VNode_x86_32_ptable'', ''VNode_x86_32_ptable_Mapping'',
      ''VNode_ARM_l1'', ''VNode_ARM_l1_Mapping'', ''VNode_ARM_l2'', ''VNode_ARM_l2_Mapping'', ''VNode_AARCH64_l1'',
      ''VNode_AARCH64_l1_Mapping'', ''VNode_AARCH64_l2'', ''VNode_AARCH64_l2_Mapping'', ''VNode_AARCH64_l3'',
      ''VNode_AARCH64_l3_Mapping'', ''IRQTable'', ''IO'', ''Notify_RCK'', ''Notify_IPI'', ''ID'', ''PerfMon'',
      ''KernelControlBlock'', ''IPI'']"
  by code_simp

abbreviation OBJBITS_CTE :: nat where "OBJBITS_CTE \<equiv> 6"
abbreviation OBJBITS_DISPATCHER :: nat where "OBJBITS_DISPATCHER \<equiv> 10"
abbreviation OBJBITS_KCB :: nat where "OBJBITS_KCB \<equiv> 16"

abbreviation CAPRIGHTS_READ :: u8 where "CAPRIGHTS_READ \<equiv> 1"
abbreviation CAPRIGHTS_READ_WRITE :: u8 where "CAPRIGHTS_READ_WRITE \<equiv> 3"
abbreviation CAPRIGHTS_ALLRIGHTS :: u8 where "CAPRIGHTS_ALLRIGHTS \<equiv> 31"

section \<open>Functions on types\<close>

definition type_is_vnode :: "nat \<Rightarrow> bool" where
  "type_is_vnode ty \<longleftrightarrow>
     ty = ObjType_VNode_x86_64_pml4 \<or> ty = ObjType_VNode_x86_64_pdpt \<or> ty = ObjType_VNode_x86_64_pdir \<or>
     ty = ObjType_VNode_x86_64_ptable \<or> ty = ObjType_VNode_x86_32_pdpt \<or> ty = ObjType_VNode_x86_32_pdir \<or>
     ty = ObjType_VNode_x86_32_ptable \<or> ty = ObjType_VNode_AARCH64_l3 \<or> ty = ObjType_VNode_AARCH64_l2 \<or>
     ty = ObjType_VNode_AARCH64_l1 \<or> ty = ObjType_VNode_ARM_l2 \<or> ty = ObjType_VNode_ARM_l1"

text \<open>The last statement is an assertion that fails.\<close>

definition vnode_objbits :: "nat \<Rightarrow> nat option" where
  "vnode_objbits ty =
     (if ty = ObjType_VNode_x86_64_pml4 \<or> ty = ObjType_VNode_x86_64_pdpt \<or> ty = ObjType_VNode_x86_64_pdir \<or>
         ty = ObjType_VNode_x86_64_ptable \<or> ty = ObjType_VNode_x86_32_pdpt \<or> ty = ObjType_VNode_x86_32_pdir \<or>
         ty = ObjType_VNode_x86_32_ptable then Some 12
      else if ty = ObjType_VNode_AARCH64_l1 \<or> ty = ObjType_VNode_AARCH64_l2 \<or> ty = ObjType_VNode_AARCH64_l3 then Some 12
      else if ty = ObjType_VNode_ARM_l1 then Some 14
      else if ty = ObjType_VNode_ARM_l2 then Some 12
      else None)"

text \<open>The first argument is the build option \<^verbatim>\<open>CONFIG_PAE\<close>.\<close>

definition vnode_entry_bits :: "bool \<Rightarrow> nat \<Rightarrow> nat option" where
  "vnode_entry_bits config_pae ty =
     (if ty = ObjType_VNode_x86_64_pml4 \<or> ty = ObjType_VNode_x86_64_pdpt \<or> ty = ObjType_VNode_x86_64_pdir \<or>
         ty = ObjType_VNode_x86_64_ptable then Some 9
      else if config_pae \<and> ty = ObjType_VNode_x86_32_pdpt then Some 2
      else if config_pae \<and> (ty = ObjType_VNode_x86_32_pdir \<or> ty = ObjType_VNode_x86_32_ptable) then Some 9
      else if \<not> config_pae \<and> (ty = ObjType_VNode_x86_32_pdir \<or> ty = ObjType_VNode_x86_32_ptable) then Some 10
      else if ty = ObjType_VNode_AARCH64_l1 then Some 2
      else if ty = ObjType_VNode_AARCH64_l2 \<or> ty = ObjType_VNode_AARCH64_l3 then Some 9
      else if ty = ObjType_VNode_ARM_l2 then Some 9
      else if ty = ObjType_VNode_ARM_l1 then Some 12
      else None)"

definition get_mapping_type :: "nat \<Rightarrow> nat" where
  "get_mapping_type captype =
     (if captype = ObjType_Frame then ObjType_Frame_Mapping
      else if captype = ObjType_DevFrame then ObjType_DevFrame_Mapping
      else if captype = ObjType_VNode_x86_64_pml4 then ObjType_VNode_x86_64_pml4_Mapping
      else if captype = ObjType_VNode_x86_64_pdpt then ObjType_VNode_x86_64_pdpt_Mapping
      else if captype = ObjType_VNode_x86_64_pdir then ObjType_VNode_x86_64_pdir_Mapping
      else if captype = ObjType_VNode_x86_64_ptable then ObjType_VNode_x86_64_ptable_Mapping
      else if captype = ObjType_VNode_x86_32_pdpt then ObjType_VNode_x86_32_pdpt_Mapping
      else if captype = ObjType_VNode_x86_32_pdir then ObjType_VNode_x86_32_pdir_Mapping
      else if captype = ObjType_VNode_x86_32_ptable then ObjType_VNode_x86_32_ptable_Mapping
      else if captype = ObjType_VNode_ARM_l1 then ObjType_VNode_ARM_l1_Mapping
      else if captype = ObjType_VNode_ARM_l2 then ObjType_VNode_ARM_l2_Mapping
      else if captype = ObjType_VNode_AARCH64_l1 then ObjType_VNode_AARCH64_l1_Mapping
      else if captype = ObjType_VNode_AARCH64_l2 then ObjType_VNode_AARCH64_l2_Mapping
      else if captype = ObjType_VNode_AARCH64_l3 then ObjType_VNode_AARCH64_l3_Mapping
      else ObjType_Null)"

definition type_is_mapping :: "nat \<Rightarrow> bool" where
  "type_is_mapping ty \<longleftrightarrow>
     ty = ObjType_Frame_Mapping \<or> ty = ObjType_DevFrame_Mapping \<or> ty = ObjType_VNode_x86_64_pml4_Mapping \<or>
     ty = ObjType_VNode_x86_64_pdpt_Mapping \<or> ty = ObjType_VNode_x86_64_pdir_Mapping \<or>
     ty = ObjType_VNode_x86_64_ptable_Mapping \<or> ty = ObjType_VNode_x86_32_pdpt_Mapping \<or>
     ty = ObjType_VNode_x86_32_pdir_Mapping \<or> ty = ObjType_VNode_x86_32_ptable_Mapping \<or>
     ty = ObjType_VNode_ARM_l1_Mapping \<or> ty = ObjType_VNode_ARM_l2_Mapping \<or> ty = ObjType_VNode_AARCH64_l1_Mapping \<or>
     ty = ObjType_VNode_AARCH64_l2_Mapping \<or> ty = ObjType_VNode_AARCH64_l3_Mapping"

definition distcap_needs_locality :: "nat \<Rightarrow> bool" where
  "distcap_needs_locality ty \<longleftrightarrow>
     ty \<in> {ObjType_PhysAddr, ObjType_RAM, ObjType_CNode, ObjType_FCNode, ObjType_Dispatcher, ObjType_EndPoint,
           ObjType_Frame, ObjType_DevFrame} \<or> type_is_vnode ty \<or> type_is_mapping ty"

definition distcap_is_moveable :: "nat \<Rightarrow> bool" where
  "distcap_is_moveable ty \<longleftrightarrow> ty \<in> {ObjType_PhysAddr, ObjType_RAM, ObjType_Frame}"

section \<open>Properties\<close>

lemma vnode_objbits_Some: "type_is_vnode ty \<longleftrightarrow> vnode_objbits ty \<noteq> None"
  by (simp add: type_is_vnode_def vnode_objbits_def)

text \<open>A type that can be mapped is a frame or a page table, and a mapping cannot be mapped itself.\<close>

lemma get_mapping_type_mapping:
  "get_mapping_type ty \<noteq> ObjType_Null \<longleftrightarrow> type_is_vnode ty \<or> ty = ObjType_Frame \<or> ty = ObjType_DevFrame"
  "type_is_mapping (get_mapping_type ty) \<longleftrightarrow> get_mapping_type ty \<noteq> ObjType_Null"
  "type_is_mapping ty \<Longrightarrow> \<not> type_is_vnode ty \<and> ty \<noteq> ObjType_Frame \<and> ty \<noteq> ObjType_DevFrame"
  by (auto simp: get_mapping_type_def type_is_mapping_def type_is_vnode_def)

text \<open>The type each type is retyped from, and whether it can be split into smaller ones of its own type.\<close>

definition retype_sources :: "(nat option \<times> bool) list" where
  "retype_sources =
     [(None, False), (None, True), (Some 1, True), (Some 2, False), (None, False), (Some 2, False), (Some 5, False),
      (Some 2, True), (Some 7, False), (Some 1, True), (Some 9, False), (None, False), (Some 2, False), (Some 12, False),
      (Some 2, False), (Some 14, False), (Some 2, False), (Some 16, False), (Some 2, False), (Some 18, False),
      (Some 2, False), (Some 20, False), (Some 2, False), (Some 22, False), (Some 2, False), (Some 24, False),
      (Some 2, False), (Some 26, False), (Some 2, False), (Some 28, False), (Some 2, False), (Some 30, False),
      (Some 2, False), (Some 32, False), (Some 2, False), (Some 34, False), (None, False), (None, False), (None, False),
      (None, False), (None, False), (None, False), (Some 2, False), (None, False)]"

lemma sources_names:
  "map (\<lambda>c. (cd_from c, cd_fromSelf c)) (capdefs caps_hl) =
     map (\<lambda>(f, self). (map_option ((!) (map cd_name (capdefs caps_hl))) f, self)) retype_sources"
  unfolding enumeration retype_sources_def by code_simp

lemma distinct_names: "distinct (map cd_name (capdefs caps_hl))"
  unfolding enumeration by simp

lemma elemIndex_name: "distinct xs \<Longrightarrow> i < length xs \<Longrightarrow> elemIndex (xs ! i) xs = Some i"
proof (induction xs arbitrary: i)
  case (Cons x xs)
  then show ?case by (cases i) auto
qed simp

lemma well_founded_caps:
  assumes "ty < 44"
  shows "gen_well_founded caps_hl src ty \<longleftrightarrow>
    fst (retype_sources ! ty) = Some src \<or> snd (retype_sources ! ty) \<and> src = ty"
proof -
  have len: "length (capdefs caps_hl) = 44" "length retype_sources = 44"
    using arg_cong [OF enumeration, of length] by (simp_all add: retype_sources_def)
  obtain f self where fs: "retype_sources ! ty = (f, self)" by fastforce
  have ix: "ofObjTypeEnum caps_hl (map cd_name (capdefs caps_hl) ! i) = Some i" if "i < 44" for i
    unfolding ofObjTypeEnum_def using that len by (intro elemIndex_name [OF distinct_names]) simp
  have below: "j < 44" if "f = Some j" for j
  proof -
    have "list_all (\<lambda>x. case fst x of None \<Rightarrow> True | Some j \<Rightarrow> j < 44) retype_sources" by (simp add: retype_sources_def)
    then show ?thesis using that fs assms len by (fastforce simp: list_all_length)
  qed
  have c: "cd_from (capdefs caps_hl ! ty) = map_option ((!) (map cd_name (capdefs caps_hl))) f"
    "cd_fromSelf (capdefs caps_hl ! ty) = self"
    using arg_cong [OF sources_names, of "\<lambda>xs. xs ! ty"] assms len fs by simp_all
  have "nth_cap caps_hl ty = Some (capdefs caps_hl ! ty)" using assms len by (simp add: nth_cap_def ObjType_Num_def)
  moreover have "ofObjTypeEnum caps_hl (cd_name (capdefs caps_hl ! ty)) = Some ty" using ix [OF assms] assms len by simp
  ultimately show ?thesis using c ix below by (cases f) (auto simp: gen_well_founded_def fs)
qed

lemma mapping_sources:
  "list_all (\<lambda>ty. list_all (\<lambda>src. (fst (retype_sources ! ty) = Some src \<or> snd (retype_sources ! ty) \<and> src = ty) =
     (get_mapping_type src = ty)) [0..<44]) (filter type_is_mapping [0..<44])"
  by code_simp

lemma vnode_sizes:
  "list_all (\<lambda>ty. gen_size caps_hl \<lparr>cap_type = ty, cap_rights = 0, cap_u = u\<rparr> = Some (2 ^ 12)) (filter type_is_vnode [0..<44])"
  by code_simp



end
