(* ===== verification/Lmp.thy ===== *)
theory Lmp
  imports Cap_Types Kernel_State Errors
begin

text \<open>
  Local message passing: the kernel's delivery of a payload into an endpoint buffer (kernel/dispatch.c) and the
  receiver's side in the library (lib/barrelfish/lmp_endpoints.c).  The buffer is a ring of words that lies behind the
  dispatcher in memory shared by both; the kernel advances \<open>delivered\<close> and the receiver \<open>consumed\<close>.  Words are those of
  a 64-bit machine.  An access outside the buffer and a failed assertion are abnormal outcomes.
\<close>

unbundle bit_operations_syntax

section \<open>Definitions\<close>

record lmp_endpoint_kern =
  recv_cptr :: u32
  recv_slot :: u32
  recv_bits :: u8
  delivered :: u32
  consumed :: u32
  buf :: "u64 list"

text \<open>
  The dispatcher handle of a dispatcher control block, the endpoints by their address, the fields of the shared part of
  a dispatcher that delivery writes, and the scheduler's state.
\<close>

record lmp =
  disp :: "addr \<Rightarrow> u64"
  eps :: "u64 \<Rightarrow> lmp_endpoint_kern"
  lmp_delivered :: "u64 \<Rightarrow> u32"
  lmp_hint :: "u64 \<Rightarrow> u64"
  kern :: kernel

abbreviation LMP_RECV_HEADER_LENGTH :: u64 where "LMP_RECV_HEADER_LENGTH \<equiv> 1"

text \<open>The fields of an endpoint capability.\<close>

abbreviation listener :: "capability \<Rightarrow> u64" where "listener ep \<equiv> cap_u ep ''listener''"
abbreviation epoffset :: "capability \<Rightarrow> u64" where "epoffset ep \<equiv> cap_u ep ''epoffset''"
abbreviation epbuflen :: "capability \<Rightarrow> u32" where "epbuflen ep \<equiv> ucast (cap_u ep ''epbuflen'')"

text \<open>The header word: a flag in the first byte, the length of the payload in the second.\<close>

definition lmp_recv_header :: "bool \<Rightarrow> u8 \<Rightarrow> u64" where
  "lmp_recv_header captransfer len = (if captransfer then 1 else 0) OR push_bit 8 (ucast len)"

definition header_captransfer :: "u64 \<Rightarrow> bool" where
  "header_captransfer raw = bit raw 0"

definition header_length :: "u64 \<Rightarrow> u8" where
  "header_length raw = ucast (drop_bit 8 raw)"

definition lmp_space :: "u32 \<Rightarrow> lmp_endpoint_kern \<Rightarrow> u32" where
  "lmp_space n ep =
     (if delivered ep \<ge> consumed ep then n - (delivered ep - consumed ep) else consumed ep - delivered ep)"

definition lmp_can_deliver_payload :: "capability \<Rightarrow> u64 \<Rightarrow> lmp \<Rightarrow> errval option" where
  "lmp_can_deliver_payload ep payload_len s = do {
     assert_that (cap_type ep = ObjType_EndPoint);
     let recv = unat (listener ep);
     assert_that (listener ep \<noteq> 0);
     if disp s recv = 0 \<or> epoffset ep = 0 then Some SYS_ERR_LMP_NO_TARGET
     else
       let recv_ep = eps s (disp s recv + epoffset ep);
           n = epbuflen ep
       in if delivered recv_ep \<ge> n \<or> consumed recv_ep \<ge> n then Some SYS_ERR_LMP_EP_STATE_INVALID
          else if ucast (lmp_space n recv_ep) \<le> payload_len + LMP_RECV_HEADER_LENGTH then Some SYS_ERR_LMP_BUF_OVERFLOW
          else Some SYS_ERR_OK
   }"

definition ring_next :: "u32 \<Rightarrow> u32 \<Rightarrow> u32" where
  "ring_next n pos = (if pos + 1 = n then 0 else pos + 1)"

fun put_words :: "u32 \<Rightarrow> u64 list \<Rightarrow> u32 \<Rightarrow> u64 list \<Rightarrow> (u32 \<times> u64 list) option" where
  "put_words n [] pos b = Some (pos, b)"
| "put_words n (w # ws) pos b = do {
     assert_that (unat pos < length b);
     put_words n ws (ring_next n pos) (b[unat pos := w])
   }"

text \<open>The loop over the payload counts in a signed integer.  Sender and receiver names are only used for tracing.\<close>

definition lmp_deliver_payload ::
  "(addr \<Rightarrow> kernel \<Rightarrow> kernel option) \<Rightarrow> capability \<Rightarrow> u64 list \<Rightarrow> bool \<Rightarrow> lmp \<Rightarrow> (errval \<times> lmp) option"
where
  "lmp_deliver_payload make_runnable ep payload captransfer s = do {
     let payload_len = of_nat (length payload);
     err \<leftarrow> lmp_can_deliver_payload ep payload_len s;
     if err_is_fail err then Some (err, s)
     else do {
       assert_that (length payload < 2 ^ 31);
       let recv = unat (listener ep);
       let d = disp s recv;
       let a = d + epoffset ep;
       let recv_ep = eps s a;
       let header = lmp_recv_header captransfer (of_nat (length payload));
       (pos, b) \<leftarrow> put_words (epbuflen ep) (header # payload) (delivered recv_ep) (buf recv_ep);
       let s = s\<lparr>eps := (eps s)(a := recv_ep\<lparr>delivered := pos, buf := b\<rparr>),
                  lmp_delivered := (lmp_delivered s)(d := lmp_delivered s d + ucast (payload_len + LMP_RECV_HEADER_LENGTH)),
                  lmp_hint := (lmp_hint s)(d := epoffset ep)\<rparr>;
       k \<leftarrow> make_runnable recv (kern s);
       Some (SYS_ERR_OK, s\<lparr>kern := k\<rparr>)
     }
   }"

text \<open>The receiver's endpoint, with the length it allocated and the slot for capabilities.\<close>

record lmp_endpoint =
  ep_recv_slot :: nat
  ep_buflen :: u32
  ep_seen :: u32
  ep_k :: lmp_endpoint_kern

definition lmp_endpoint_can_recv :: "lmp_endpoint \<Rightarrow> bool" where
  "lmp_endpoint_can_recv ep \<longleftrightarrow> delivered (ep_k ep) \<noteq> consumed (ep_k ep)"

definition lmp_endpoint_words_unseen :: "lmp_endpoint \<Rightarrow> u32 \<times> lmp_endpoint" where
  "lmp_endpoint_words_unseen ep =
     (let d = delivered (ep_k ep);
          ret = (if d \<ge> ep_seen ep then d - ep_seen ep else ep_buflen ep - ep_seen ep + d)
      in (ret, ep\<lparr>ep_seen := d\<rparr>))"

fun get_words :: "u32 \<Rightarrow> nat \<Rightarrow> u32 \<Rightarrow> u64 list \<Rightarrow> (u32 \<times> u64 list) option" where
  "get_words n 0 pos b = Some (pos, [])"
| "get_words n (Suc k) pos b = do {
     assert_that (unat pos < length b);
     (pos', ws) \<leftarrow> get_words n k (ring_next n pos) b;
     Some (pos', b ! unat pos # ws)
   }"

text \<open>
  The result has the error code, the message length and the words stored in the caller's buffer of length \<open>buflen\<close>, and
  the slot of a received capability (none stands for \<^verbatim>\<open>NULL_CAP\<close>).
\<close>

definition lmp_endpoint_recv :: "u64 \<Rightarrow> lmp_endpoint \<Rightarrow> (errval \<times> u64 list \<times> nat option \<times> lmp_endpoint) option" where
  "lmp_endpoint_recv buflen ep =
     (if \<not> lmp_endpoint_can_recv ep then Some (LIB_ERR_NO_LMP_MSG, [], None, ep)
      else do {
        let k = ep_k ep;
        let pos = consumed k;
        assert_that (pos < ep_buflen ep);
        assert_that (unat pos < length (buf k));
        let header = buf k ! unat pos;
        assert_that (\<not> ucast (header_length header) \<ge> ep_buflen ep);
        if ucast (header_length header) > buflen then Some (LIB_ERR_LMP_RECV_BUF_OVERFLOW, [], None, ep)
        else do {
          (pos, ws) \<leftarrow> get_words (ep_buflen ep) (unat (header_length header)) (ring_next (ep_buflen ep) pos) (buf k);
          (slot, k) \<leftarrow> (if header_captransfer header then do {
              assert_that (recv_cptr k \<noteq> 0);
              Some (Some (ep_recv_slot ep), k\<lparr>recv_cptr := 0, recv_bits := 0, recv_slot := 0\<rparr>)
            } else Some (None, k));
          Some (SYS_ERR_OK, ws, slot, ep\<lparr>ep_k := k\<lparr>consumed := pos\<rparr>\<rparr>)
        }
      })"

text \<open>Four words from a remote procedure call, stored at a position reserved by the kernel; no flag is set.\<close>

definition lmp_endpoint_store_lrpc_disabled :: "u32 \<Rightarrow> u64 list \<Rightarrow> lmp_endpoint \<Rightarrow> lmp_endpoint option" where
  "lmp_endpoint_store_lrpc_disabled bufpos args ep = do {
     assert_that (length args = 4);
     assert_that (ep_buflen ep \<noteq> 0);
     assert_that (bufpos < ep_buflen ep);
     (_, b) \<leftarrow> put_words (ep_buflen ep) (lmp_recv_header False 4 # args) bufpos (buf (ep_k ep));
     Some (ep\<lparr>ep_k := (ep_k ep)\<lparr>buf := b\<rparr>\<rparr>)
   }"

section \<open>The ring as a queue of messages\<close>

type_synonym message = "bool \<times> u64 list"

definition message_words :: "message \<Rightarrow> u64 list" where
  "message_words m = lmp_recv_header (fst m) (of_nat (length (snd m))) # snd m"

definition ring_holds :: "u32 \<Rightarrow> lmp_endpoint_kern \<Rightarrow> u64 list \<Rightarrow> bool" where
  "ring_holds n k ws \<longleftrightarrow>
     length (buf k) = unat n \<and> consumed k < n \<and> delivered k < n \<and> length ws < unat n \<and>
     unat (delivered k) = (unat (consumed k) + length ws) mod unat n \<and>
     (\<forall>i < length ws. buf k ! ((unat (consumed k) + i) mod unat n) = ws ! i)"

text \<open>A length of at most 255 words fits into the header.\<close>

definition queue_of :: "u32 \<Rightarrow> lmp_endpoint_kern \<Rightarrow> message list \<Rightarrow> bool" where
  "queue_of n k Q \<longleftrightarrow> ring_holds n k (concat (map message_words Q)) \<and> (\<forall>m \<in> set Q. length (snd m) < 256)"

lemma header_roundtrip [simp]:
  "header_length (lmp_recv_header c l) = l" "header_captransfer (lmp_recv_header c l) = c"
proof -
  have "bit (header_length (lmp_recv_header c l)) j = bit l j" if "j < 8" for j
    using that by (auto simp: header_length_def lmp_recv_header_def bit_simps)
  then show "header_length (lmp_recv_header c l) = l" by (intro bit_word_eqI) simp
  show "header_captransfer (lmp_recv_header c l) = c"
    by (auto simp: header_captransfer_def lmp_recv_header_def bit_simps)
qed

lemma ring_next:
  assumes "pos < n"
  shows "ring_next n pos < n" "unat (ring_next n pos) = (unat pos + 1) mod unat n"
proof -
  have lt: "unat pos < unat n" using assms by (simp add: word_less_nat_alt)
  then have u: "unat (pos + 1) = unat pos + 1" using unat_lt_u32 [of n] by (simp add: unat_word_ariths)
  show "unat (ring_next n pos) = (unat pos + 1) mod unat n"
  proof (cases "pos + 1 = n")
    case True
    with u have "unat pos + 1 = unat n" by auto
    with True show ?thesis by (simp add: ring_next_def)
  next
    case False
    with u have "unat pos + 1 \<noteq> unat n" by (metis word_unat_eq_iff)
    with lt u False show ?thesis by (simp add: ring_next_def)
  qed
  then show "ring_next n pos < n" using lt by (simp add: word_less_nat_alt)
qed

lemma put_words_spec:
  assumes "pos < n" "length b = unat n"
  shows "\<exists>pos' b'. put_words n ws pos b = Some (pos', b') \<and> pos' < n \<and> unat pos' = (unat pos + length ws) mod unat n \<and>
    length b' = unat n \<and>
    (length ws \<le> unat n \<longrightarrow> (\<forall>i < length ws. b' ! ((unat pos + i) mod unat n) = ws ! i)) \<and>
    (\<forall>j < unat n. (\<forall>i < length ws. j \<noteq> (unat pos + i) mod unat n) \<longrightarrow> b' ! j = b ! j)"
  using assms
proof (induction ws arbitrary: pos b)
  case Nil
  then show ?case by (simp add: word_less_nat_alt)
next
  case (Cons w ws)
  let ?p = "unat pos" and ?n = "unat n"
  have p: "?p < ?n" using Cons.prems by (simp add: word_less_nat_alt)
  note nxt = ring_next [OF Cons.prems(1)]
  from Cons.IH [OF nxt(1), of "b[?p := w]"] Cons.prems(2) obtain pos' b' where
    b': "put_words n ws (ring_next n pos) (b[?p := w]) = Some (pos', b')" "pos' < n"
    "unat pos' = ((?p + 1) mod ?n + length ws) mod ?n" "length b' = ?n"
    "length ws \<le> ?n \<longrightarrow> (\<forall>i < length ws. b' ! (((?p + 1) mod ?n + i) mod ?n) = ws ! i)"
    "\<forall>j < ?n. (\<forall>i < length ws. j \<noteq> ((?p + 1) mod ?n + i) mod ?n) \<longrightarrow> b' ! j = b[?p := w] ! j"
    unfolding nxt(2) by (auto simp: length_list_update)
  have shift: "((?p + 1) mod ?n + i) mod ?n = (?p + Suc i) mod ?n" for i by (simp add: mod_simps)
  have eqs: "put_words n (w # ws) pos b = Some (pos', b')" "unat pos' = (?p + length (w # ws)) mod ?n"
    using b'(1,3) p Cons.prems(2) shift [of "length ws"] by (simp_all add: assert_that_def)
  have "b' ! ((?p + i) mod ?n) = (w # ws) ! i" if len: "length (w # ws) \<le> ?n" and i: "i < length (w # ws)" for i
  proof (cases i)
    case 0
    have "?p \<noteq> (?p + Suc i) mod ?n" if "i < length ws" for i
      using that len p by (cases "?p + Suc i < ?n") (auto simp: mod_if)
    then show ?thesis using b'(6) p 0 Cons.prems(2) unfolding shift by auto
  next
    case (Suc k)
    then show ?thesis using b'(5) len i unfolding shift by simp
  qed
  moreover have "b' ! j = b ! j" if j: "j < ?n" "\<forall>i < length (w # ws). j \<noteq> (?p + i) mod ?n" for j
  proof -
    have "j \<noteq> ?p" using j(2) p by (auto dest: spec [of _ 0])
    moreover have "\<forall>i < length ws. j \<noteq> (?p + Suc i) mod ?n" using j(2) by auto
    ultimately show ?thesis using b'(6) j(1) unfolding shift by simp
  qed
  ultimately show ?case using eqs b'(2,4) by blast
qed

lemma get_words_spec:
  assumes "pos < n" "length b = unat n"
  shows "\<exists>pos'. get_words n k pos b = Some (pos', map (\<lambda>i. b ! ((unat pos + i) mod unat n)) [0..<k]) \<and> pos' < n \<and>
    unat pos' = (unat pos + k) mod unat n"
  using assms(1)
proof (induction k arbitrary: pos)
  case 0
  then show ?case by (simp add: word_less_nat_alt)
next
  case (Suc k)
  let ?p = "unat pos" and ?n = "unat n"
  have p: "?p < ?n" using Suc.prems by (simp add: word_less_nat_alt)
  note nxt = ring_next [OF Suc.prems]
  have shift: "((?p + 1) mod ?n + i) mod ?n = (?p + Suc i) mod ?n" for i by (simp add: mod_simps)
  from Suc.IH [OF nxt(1)] obtain pos' where
    "get_words n k (ring_next n pos) b = Some (pos', map (\<lambda>i. b ! ((?p + Suc i) mod ?n)) [0..<k])" "pos' < n"
    "unat pos' = (?p + Suc k) mod ?n" unfolding nxt(2) shift by blast
  moreover have "map (\<lambda>i. b ! ((?p + i) mod ?n)) [0..<Suc k] = b ! ?p # map (\<lambda>i. b ! ((?p + Suc i) mod ?n)) [0..<k]"
    using p by (simp add: upt_conv_Cons map_Suc_upt [symmetric] del: upt_Suc)
  ultimately show ?case using p assms(2) by (simp add: assert_that_def del: upt_Suc)
qed

lemma mod_once: "c < n \<Longrightarrow> l < n \<Longrightarrow> (c + l) mod n = (if c + l < n then c + l else c + l - n)" for c l n :: nat
  by (simp add: mod_if)

lemma ring_space:
  assumes "ring_holds n k ws"
  shows "unat (lmp_space n k) = unat n - length ws"
proof -
  let ?c = "unat (consumed k)" and ?d = "unat (delivered k)" and ?n = "unat n" and ?l = "length ws"
  have r: "?c < ?n" "?d < ?n" "?l < ?n" "?d = (?c + ?l) mod ?n"
    using assms by (auto simp: ring_holds_def word_less_nat_alt)
  show ?thesis
  proof (cases "delivered k \<ge> consumed k")
    case True
    then have "?c \<le> ?d" by (simp add: word_le_nat_alt)
    with r have "?d = ?c + ?l" using mod_once [OF r(1,3)] by (auto split: if_splits)
    moreover from True have "unat (delivered k - consumed k) = ?d - ?c" by (simp add: unat_sub word_le_nat_alt)
    ultimately show ?thesis using True r by (simp add: lmp_space_def unat_sub word_le_nat_alt)
  next
    case False
    then have "?d < ?c" by (simp add: word_le_nat_alt)
    with r have "?d + ?n = ?c + ?l" using mod_once [OF r(1,3)] by (auto split: if_splits)
    with False r show ?thesis by (simp add: lmp_space_def unat_sub word_le_nat_alt)
  qed
qed

lemma ring_append:
  assumes "ring_holds n k ws" "length ws + length us < unat n"
  shows "\<exists>pos b. put_words n us (delivered k) (buf k) = Some (pos, b) \<and> ring_holds n (k\<lparr>delivered := pos, buf := b\<rparr>) (ws @ us)"
proof -
  let ?c = "unat (consumed k)" and ?d = "unat (delivered k)" and ?n = "unat n"
  have r: "length (buf k) = ?n" "consumed k < n" "delivered k < n" "?d = (?c + length ws) mod ?n"
    "\<forall>i < length ws. buf k ! ((?c + i) mod ?n) = ws ! i" using assms(1) by (auto simp: ring_holds_def)
  from put_words_spec [OF r(3,1), of us] assms(2) obtain pos b where
    b: "put_words n us (delivered k) (buf k) = Some (pos, b)" "pos < n" "unat pos = (?d + length us) mod ?n" "length b = ?n"
    "\<forall>i < length us. b ! ((?d + i) mod ?n) = us ! i"
    "\<forall>j < ?n. (\<forall>i < length us. j \<noteq> (?d + i) mod ?n) \<longrightarrow> b ! j = buf k ! j" by auto
  have d: "(?d + i) mod ?n = (?c + (length ws + i)) mod ?n" for i using r(4) by (simp add: mod_simps add.assoc)
  have inj: "i = j" if "(?c + i) mod ?n = (?c + j) mod ?n" "i < ?n" "j < ?n" for i j
    using that r(2) mod_once [of ?c ?n i] mod_once [of ?c ?n j] by (auto simp: word_less_nat_alt split: if_splits)
  have "b ! ((?c + i) mod ?n) = (ws @ us) ! i" if "i < length (ws @ us)" for i
  proof (cases "i < length ws")
    case True
    have "(?c + i) mod ?n \<noteq> (?d + j) mod ?n" if "j < length us" for j
      using inj [of i "length ws + j"] True that assms(2) unfolding d by auto
    moreover have "(?c + i) mod ?n < ?n" using assms(2) by simp
    ultimately have "b ! ((?c + i) mod ?n) = buf k ! ((?c + i) mod ?n)" using b(6) by blast
    with r(5) True show ?thesis by (simp add: nth_append)
  next
    case False
    with that have "i - length ws < length us" by simp
    from b(5) [unfolded d, rule_format, OF this] False show ?thesis by (simp add: nth_append)
  qed
  then show ?thesis using b r assms(2) d [of "length us"] by (auto simp: ring_holds_def)
qed

lemma ring_consume:
  assumes "ring_holds n k (ws @ us)"
  shows "\<exists>pos. get_words n (length ws) (consumed k) (buf k) = Some (pos, ws) \<and> pos < n \<and> ring_holds n (k\<lparr>consumed := pos\<rparr>) us"
proof -
  let ?c = "unat (consumed k)" and ?n = "unat n"
  have r: "length (buf k) = ?n" "consumed k < n" "delivered k < n" "unat (delivered k) = (?c + (length ws + length us)) mod ?n"
    "\<forall>i < length (ws @ us). buf k ! ((?c + i) mod ?n) = (ws @ us) ! i" "length ws + length us < ?n"
    using assms by (auto simp: ring_holds_def)
  from get_words_spec [OF r(2,1), of "length ws"] obtain pos where
    pos: "get_words n (length ws) (consumed k) (buf k) = Some (pos, map (\<lambda>i. buf k ! ((?c + i) mod ?n)) [0..<length ws])"
    "pos < n" "unat pos = (?c + length ws) mod ?n" by blast
  have "map (\<lambda>i. buf k ! ((?c + i) mod ?n)) [0..<length ws] = ws"
    using r(5) by (intro nth_equalityI) (auto simp: nth_append)
  moreover have "buf k ! ((unat pos + i) mod ?n) = us ! i" if "i < length us" for i
    using r(5) [rule_format, of "length ws + i"] that pos(3) by (simp add: mod_simps add.assoc nth_append)
  ultimately show ?thesis using pos r by (auto simp: ring_holds_def mod_simps add.assoc)
qed

section \<open>Delivery and reception\<close>

lemma unat_widen_u8 [simp]: "unat (ucast (x :: u8) :: u32) = unat x" "unat (ucast (x :: u8) :: u64) = unat x"
  by (simp_all add: unsigned_ucast_eq take_bit_nat_eq_self_iff order_less_trans [OF unsigned_less])

text \<open>An endpoint capability whose target exists, with the endpoint buffer it refers to.\<close>

definition ep_target :: "capability \<Rightarrow> lmp \<Rightarrow> u64" where
  "ep_target ep s = disp s (unat (listener ep)) + epoffset ep"

definition ep_valid :: "capability \<Rightarrow> lmp \<Rightarrow> bool" where
  "ep_valid ep s \<longleftrightarrow>
     cap_type ep = ObjType_EndPoint \<and> listener ep \<noteq> 0 \<and> disp s (unat (listener ep)) \<noteq> 0 \<and> epoffset ep \<noteq> 0"

lemma can_deliver_spec:
  assumes "ep_valid ep s" "ring_holds (epbuflen ep) (eps s (ep_target ep s)) ws" "length p < 2 ^ 31"
  shows "lmp_can_deliver_payload ep (of_nat (length p)) s =
    Some (if length ws + (length p + 1) < unat (epbuflen ep) then SYS_ERR_OK else SYS_ERR_LMP_BUF_OVERFLOW)"
proof -
  let ?n = "epbuflen ep" and ?k = "eps s (ep_target ep s)"
  have "delivered ?k < ?n" "consumed ?k < ?n" "length ws < unat ?n" using assms(2) by (auto simp: ring_holds_def)
  moreover have "unat (of_nat (length p) + LMP_RECV_HEADER_LENGTH) = length p + 1"
    using assms(3) take_bit_nat_eq_self [of "length p" 64] by (simp add: unat_word_ariths unsigned_of_nat)
  then have "ucast (lmp_space ?n ?k) \<le> of_nat (length p) + LMP_RECV_HEADER_LENGTH \<longleftrightarrow> \<not> length ws + (length p + 1) < unat ?n"
    using ring_space [OF assms(2)] \<open>length ws < unat ?n\<close> by (simp add: word_le_nat_alt) linarith
  ultimately show ?thesis
    using assms(1) unfolding ep_valid_def ep_target_def 
    by (simp add: lmp_can_deliver_payload_def assert_that_def Let_def not_le)
qed

lemma deliver_spec:
  assumes valid: "ep_valid ep s" and q: "queue_of (epbuflen ep) (eps s (ep_target ep s)) Q" and p: "length p < 256"
    and run: "make_runnable (unat (listener ep)) (kern s) = Some k"
  shows "if length (concat (map message_words Q)) + (length p + 1) < unat (epbuflen ep)
    then \<exists>s'. lmp_deliver_payload make_runnable ep p c s = Some (SYS_ERR_OK, s') \<and> kern s' = k \<and> disp s' = disp s \<and>
      queue_of (epbuflen ep) (eps s' (ep_target ep s)) (Q @ [(c, p)]) \<and> (\<forall>a. a \<noteq> ep_target ep s \<longrightarrow> eps s' a = eps s a)
    else lmp_deliver_payload make_runnable ep p c s = Some (SYS_ERR_LMP_BUF_OVERFLOW, s)"
proof -
  let ?n = "epbuflen ep" and ?a = "ep_target ep s" and ?ws = "concat (map message_words Q)"
  have ring: "ring_holds ?n (eps s ?a) ?ws" and short: "\<forall>m \<in> set Q. length (snd m) < 256" using q by (auto simp: queue_of_def)
  have can: "lmp_can_deliver_payload ep (of_nat (length p)) s =
    Some (if length ?ws + (length p + 1) < unat ?n then SYS_ERR_OK else SYS_ERR_LMP_BUF_OVERFLOW)"
    using p by (intro can_deliver_spec [OF valid ring]) simp
  show ?thesis
  proof (cases "length ?ws + (length p + 1) < unat ?n")
    case True
    then have "length ?ws + length (message_words (c, p)) < unat ?n" by (simp add: message_words_def)
    from ring_append [OF ring this] obtain pos b where
      b: "put_words ?n (message_words (c, p)) (delivered (eps s ?a)) (buf (eps s ?a)) = Some (pos, b)"
      "ring_holds ?n ((eps s ?a)\<lparr>delivered := pos, buf := b\<rparr>) (?ws @ message_words (c, p))" by blast
    have "queue_of ?n ((eps s ?a)\<lparr>delivered := pos, buf := b\<rparr>) (Q @ [(c, p)])"
      using b(2) short p by (simp add: queue_of_def)
    moreover from b(1) have "put_words ?n (lmp_recv_header c (of_nat (length p)) # p) (delivered (eps s ?a)) (buf (eps s ?a)) = Some (pos, b)"
      by (simp add: message_words_def)
    ultimately show ?thesis
      using True can p run by (simp add: lmp_deliver_payload_def Let_def assert_that_def ep_target_def del: put_words.simps)
  qed (use can in \<open>simp add: lmp_deliver_payload_def Let_def\<close>)
qed

lemma recv_spec:
  assumes "queue_of (ep_buflen ep) (ep_k ep) ((c, p) # Q)" "length p \<le> unat buflen" "c \<longrightarrow> recv_cptr (ep_k ep) \<noteq> 0"
  shows "\<exists>ep'. lmp_endpoint_recv buflen ep = Some (SYS_ERR_OK, p, if c then Some (ep_recv_slot ep) else None, ep') \<and>
    ep_buflen ep' = ep_buflen ep \<and> ep_recv_slot ep' = ep_recv_slot ep \<and> queue_of (ep_buflen ep) (ep_k ep') Q"
proof -
  let ?n = "ep_buflen ep" and ?k = "ep_k ep" and ?h = "lmp_recv_header c (of_nat (length p))" and ?ws = "concat (map message_words Q)"
  have ring: "ring_holds ?n ?k ([?h] @ (p @ ?ws))" and p: "length p < 256" and short: "\<forall>m \<in> set Q. length (snd m) < 256"
    using assms(1) by (auto simp: queue_of_def message_words_def)
  have r: "length (buf ?k) = unat ?n" "consumed ?k < ?n" "length p + 1 < unat ?n"
    "unat (delivered ?k) = (unat (consumed ?k) + (length p + 1 + length ?ws)) mod unat ?n" "length p + 1 + length ?ws < unat ?n"
    using ring by (auto simp: ring_holds_def add_ac)
  have ne: "delivered ?k \<noteq> consumed ?k"
    using mod_once [of "unat (consumed ?k)" "unat ?n" "length p + 1 + length ?ws"] r(2,4,5)
    by (auto simp: word_less_nat_alt split: if_splits)
  from ring_consume [OF ring] obtain pos1 where
    h: "get_words ?n (length [?h]) (consumed ?k) (buf ?k) = Some (pos1, [?h])" "ring_holds ?n (?k\<lparr>consumed := pos1\<rparr>) (p @ ?ws)" by blast
  then have head: "buf ?k ! unat (consumed ?k) = ?h" "pos1 = ring_next ?n (consumed ?k)" "unat (consumed ?k) < length (buf ?k)"
    by (auto simp: assert_that_def split: if_splits)
  from ring_consume [OF h(2)] obtain pos where
    w: "get_words ?n (length p) pos1 (buf ?k) = Some (pos, p)" "ring_holds ?n (?k\<lparr>consumed := pos\<rparr>) ?ws" by auto
  have len: "unat (of_nat (length p) :: u8) = length p" using p by (simp add: unsigned_of_nat take_bit_nat_eq_self_iff)
  then have small: "\<not> (ucast (of_nat (length p) :: u8) :: u32) \<ge> ?n" "\<not> (ucast (of_nat (length p) :: u8) :: u64) > buflen"
    using r(3) assms(2) by (simp_all add: word_le_nat_alt word_less_nat_alt)
  let ?k' = "(if c then ?k\<lparr>recv_cptr := 0, recv_bits := 0, recv_slot := 0\<rparr> else ?k)\<lparr>consumed := pos\<rparr>"
  have "lmp_endpoint_recv buflen ep = Some (SYS_ERR_OK, p, if c then Some (ep_recv_slot ep) else None, ep\<lparr>ep_k := ?k'\<rparr>)"
    unfolding lmp_endpoint_recv_def Let_def head header_roundtrip len
    using ne small w(1) head r(2) assms(3) by (simp add: lmp_endpoint_can_recv_def assert_that_def)
  moreover have "queue_of ?n ?k' Q" using w(2) short by (simp add: queue_of_def ring_holds_def)
  ultimately show ?thesis by (intro exI [of _ "ep\<lparr>ep_k := ?k'\<rparr>"]) simp
qed

section \<open>First in, first out\<close>

text \<open>An interleaving of attempts to send and to receive, with the messages that were accepted and those received.\<close>

datatype 'm channel_op = Put 'm | Get

fun run_fifo ::
  "('m \<Rightarrow> 'q \<Rightarrow> 'q option) \<Rightarrow> ('q \<Rightarrow> ('m \<times> 'q) option) \<Rightarrow> 'm channel_op list \<Rightarrow> 'q \<Rightarrow> 'm list \<times> 'm list \<times> 'q"
where
  "run_fifo put get [] q = ([], [], q)"
| "run_fifo put get (Put m # ops) q =
     (case put m q of
        None \<Rightarrow> run_fifo put get ops q
      | Some q \<Rightarrow> let (acc, got, q') = run_fifo put get ops q in (m # acc, got, q'))"
| "run_fifo put get (Get # ops) q =
     (case get q of
        None \<Rightarrow> run_fifo put get ops q
      | Some (m, q) \<Rightarrow> let (acc, got, q') = run_fifo put get ops q in (acc, m # got, q'))"

text \<open>What a channel promises to its two ends, and what follows for any interleaving of their operations.\<close>

locale fifo =
  fixes holds :: "'q \<Rightarrow> 'm list \<Rightarrow> bool" and put :: "'m \<Rightarrow> 'q \<Rightarrow> 'q option" and get :: "'q \<Rightarrow> ('m \<times> 'q) option"
  assumes put_law: "holds q Q \<Longrightarrow> put m q = Some q' \<Longrightarrow> holds q' (Q @ [m])"
    and get_law: "holds q (m # Q) \<Longrightarrow> \<exists>q'. get q = Some (m, q') \<and> holds q' Q"
    and get_empty: "holds q [] \<Longrightarrow> get q = None"
begin

lemma run_in_order:
  "holds q Q \<Longrightarrow> run_fifo put get ops q = (acc, got, q') \<Longrightarrow> \<exists>Q'. holds q' Q' \<and> Q @ acc = got @ Q'"
proof (induction ops arbitrary: q Q acc got)
  case (Cons op ops)
  show ?case
  proof (cases op)
    case (Put m)
    show ?thesis
    proof (cases "put m q")
      case (Some q1)
      obtain acc1 where "run_fifo put get ops q1 = (acc1, got, q')" "acc = m # acc1"
        using Cons.prems(2) Put Some by (auto split: prod.splits)
      with Cons.IH [OF put_law [OF Cons.prems(1) Some]] show ?thesis by simp
    qed (use Cons Put in auto)
  next
    case Get
    show ?thesis
    proof (cases Q)
      case Nil
      with Cons.prems Get get_empty Cons.IH [of q "[]"] show ?thesis by fastforce
    next
      case (Cons m Q1)
      with get_law Cons.prems(1) obtain q1 where q1: "get q = Some (m, q1)" "holds q1 Q1" by blast
      obtain got1 where "run_fifo put get ops q1 = (acc, got1, q')" "got = m # got1"
        using Cons.prems(2) Get q1(1) by (auto split: prod.splits)
      with Cons.IH [OF q1(2)] Cons show ?thesis by simp
    qed
  qed
qed simp

end

text \<open>
  The two ends of one endpoint on a 64-bit x86 machine, where a message has at most ten words: sending by the kernel,
  and receiving by \<^verbatim>\<open>lmp_chan_recv\<close> on the shared endpoint.  No capability is transferred.
\<close>

definition LMP_MSG_LENGTH :: nat where "LMP_MSG_LENGTH = 10"

definition lmp_chan_recv :: "lmp_endpoint \<Rightarrow> (errval \<times> u64 list \<times> nat option \<times> lmp_endpoint) option" where
  "lmp_chan_recv ep = lmp_endpoint_recv (of_nat LMP_MSG_LENGTH) ep"

definition lmp_put :: "(addr \<Rightarrow> kernel \<Rightarrow> kernel option) \<Rightarrow> capability \<Rightarrow> u64 list \<Rightarrow> lmp \<Rightarrow> lmp option" where
  "lmp_put make_runnable ep p s =
     (if length p \<le> LMP_MSG_LENGTH then
        case lmp_deliver_payload make_runnable ep p False s of
          Some (err, s') \<Rightarrow> if err_is_ok err then Some s' else None
        | None \<Rightarrow> None
      else None)"

definition lmp_get :: "capability \<Rightarrow> lmp \<Rightarrow> (u64 list \<times> lmp) option" where
  "lmp_get ep s =
     (let a = ep_target ep s
      in case lmp_chan_recv \<lparr>ep_recv_slot = 0, ep_buflen = epbuflen ep, ep_seen = 0, ep_k = eps s a\<rparr> of
           Some (err, ws, _, ep') \<Rightarrow> if err_is_ok err then Some (ws, s\<lparr>eps := (eps s)(a := ep_k ep')\<rparr>) else None
         | None \<Rightarrow> None)"

definition lmp_holds :: "capability \<Rightarrow> lmp \<Rightarrow> u64 list list \<Rightarrow> bool" where
  "lmp_holds ep s Q \<longleftrightarrow>
     ep_valid ep s \<and> queue_of (epbuflen ep) (eps s (ep_target ep s)) (map (Pair False) Q) \<and> (\<forall>p \<in> set Q. length p \<le> LMP_MSG_LENGTH)"

lemma deliver_runs:
  "lmp_deliver_payload make_runnable ep p c s = Some (err, s') \<Longrightarrow> err_is_ok err \<Longrightarrow>
     \<exists>k. make_runnable (unat (listener ep)) (kern s) = Some k"
  by (auto simp: lmp_deliver_payload_def Let_def split: bind_splits if_splits)

interpretation lmp_channel: fifo "lmp_holds ep" "lmp_put make_runnable ep" "lmp_get ep"
  for ep :: capability and make_runnable :: "addr \<Rightarrow> kernel \<Rightarrow> kernel option"
proof unfold_locales
  fix s Q p s'
  assume holds: "lmp_holds ep s Q" and put: "lmp_put make_runnable ep p s = Some s'"
  from put obtain err where d: "lmp_deliver_payload make_runnable ep p False s = Some (err, s')" "err_is_ok err" "length p \<le> LMP_MSG_LENGTH"
    by (auto simp: lmp_put_def split: option.splits if_splits)
  from deliver_runs [OF d(1,2)] obtain k where k: "make_runnable (unat (listener ep)) (kern s) = Some k" by blast
  have "length p < 256" using d(3) by (simp add: LMP_MSG_LENGTH_def)
  from deliver_spec [where make_runnable = make_runnable and ep = ep and s = s and p = p and c = False and Q = "map (Pair False) Q" and k = k]
    this k holds d(1,2)
  have "disp s' = disp s" "queue_of (epbuflen ep) (eps s' (ep_target ep s)) (map (Pair False) Q @ [(False, p)])"
    by (auto simp: lmp_holds_def split: if_splits)
  with holds d(3) show "lmp_holds ep s' (Q @ [p])" by (auto simp: lmp_holds_def ep_valid_def ep_target_def)
next
  fix s p Q
  let ?ep = "\<lparr>ep_recv_slot = 0, ep_buflen = epbuflen ep, ep_seen = 0, ep_k = eps s (ep_target ep s)\<rparr>"
  assume holds: "lmp_holds ep s (p # Q)"
  then have q: "queue_of (ep_buflen ?ep) (ep_k ?ep) ((False, p) # map (Pair False) Q)" and len: "length p \<le> unat (of_nat LMP_MSG_LENGTH :: u64)"
    by (auto simp: lmp_holds_def LMP_MSG_LENGTH_def)
  from recv_spec [OF q len] obtain ep' where
    "lmp_chan_recv ?ep = Some (SYS_ERR_OK, p, None, ep')" "queue_of (epbuflen ep) (ep_k ep') (map (Pair False) Q)"
    by (auto simp: lmp_chan_recv_def)
  with holds show "\<exists>s'. lmp_get ep s = Some (p, s') \<and> lmp_holds ep s' Q"
    by (auto simp: lmp_get_def lmp_holds_def ep_valid_def ep_target_def Let_def)
next
  fix s
  assume "lmp_holds ep s []"
  then have "delivered (eps s (ep_target ep s)) = consumed (eps s (ep_target ep s))"
    by (auto simp: lmp_holds_def queue_of_def ring_holds_def word_unat_eq_iff word_less_nat_alt)
  then show "lmp_get ep s = None"
    by (simp add: lmp_get_def lmp_chan_recv_def lmp_endpoint_recv_def lmp_endpoint_can_recv_def Let_def)
qed

section \<open>Properties\<close>

text \<open>An endpoint with a buffer of 16 words in the dispatcher of the control block at 1024.\<close>

definition example_ep :: capability where
  "example_ep = \<lparr>cap_type = ObjType_EndPoint, cap_rights = 0,
     cap_u = (\<lambda>n. if n = ''listener'' then 1024 else if n = ''epoffset'' then 256 else 16)\<rparr>"

definition example_lmp :: lmp where
  "example_lmp = \<lparr>disp = (\<lambda>_. 4096),
     eps = (\<lambda>_. \<lparr>recv_cptr = 0, recv_slot = 0, recv_bits = 0, delivered = 13, consumed = 13, buf = replicate 16 0\<rparr>),
     lmp_delivered = (\<lambda>_. 0), lmp_hint = (\<lambda>_. 0), kern = kernel0\<rparr>"

lemma example_lmp_holds: "lmp_holds example_ep example_lmp []"
  by (simp add: lmp_holds_def ep_valid_def queue_of_def ring_holds_def example_ep_def example_lmp_def)

text \<open>
  C12. Messages arrive in the order in which they were sent, none is lost or duplicated: for any interleaving of
  attempts to send and to receive on one endpoint, the messages received so far are the first ones of those the kernel
  accepted, and the others are still in the buffer.
\<close>

theorem lmp_fifo:
  assumes "lmp_holds ep s Q" "run_fifo (lmp_put make_runnable ep) (lmp_get ep) ops s = (acc, got, s')"
  shows "\<exists>Q'. lmp_holds ep s' Q' \<and> Q @ acc = got @ Q'"
  using assms by (rule lmp_channel.run_in_order)

theorem lmp_fifo_witness:
  "\<exists>acc got s' Q'. run_fifo (lmp_put (\<lambda>_. Some) example_ep) (lmp_get example_ep) [Put [7, 8], Put [9], Get] example_lmp = (acc, got, s') \<and>
      lmp_holds example_ep s' Q' \<and> acc = got @ Q'"
proof -
  obtain acc got s' where run:
    "run_fifo (lmp_put (\<lambda>_. Some) example_ep) (lmp_get example_ep) [Put [7, 8], Put [9], Get] example_lmp = (acc, got, s')"
    by (rule prod_cases3)
  with lmp_fifo [OF example_lmp_holds run] show ?thesis by auto
qed

text \<open>
  C39. The kernel delivers a payload exactly if its words and the header leave one word of the buffer free; otherwise it
  reports an overflow and changes nothing.  Other endpoints are not touched and the receiver is made runnable.
\<close>

theorem lmp_deliver_payload_correct:
  assumes "ep_valid ep s" "queue_of (epbuflen ep) (eps s (ep_target ep s)) Q" "length p < 256"
    "make_runnable (unat (listener ep)) (kern s) = Some k"
  shows "if length (concat (map message_words Q)) + (length p + 1) < unat (epbuflen ep)
    then \<exists>s'. lmp_deliver_payload make_runnable ep p c s = Some (SYS_ERR_OK, s') \<and> kern s' = k \<and> disp s' = disp s \<and>
      queue_of (epbuflen ep) (eps s' (ep_target ep s)) (Q @ [(c, p)]) \<and> (\<forall>a. a \<noteq> ep_target ep s \<longrightarrow> eps s' a = eps s a)
    else lmp_deliver_payload make_runnable ep p c s = Some (SYS_ERR_LMP_BUF_OVERFLOW, s)"
  using assms by (rule deliver_spec)

theorem lmp_deliver_payload_correct_witness:
  "lmp_deliver_payload (\<lambda>_. Some) example_ep (replicate 15 7) False example_lmp = Some (SYS_ERR_LMP_BUF_OVERFLOW, example_lmp)"
proof -
  have "ep_valid example_ep example_lmp" "queue_of (epbuflen example_ep) (eps example_lmp (ep_target example_ep example_lmp)) []"
    using example_lmp_holds by (simp_all add: lmp_holds_def)
  moreover have "unat (epbuflen example_ep) = 16" by (simp add: example_ep_def)
  ultimately show ?thesis
    using lmp_deliver_payload_correct [of example_ep example_lmp "[]" "replicate 15 7" "\<lambda>_. Some" "kern example_lmp" False] by simp
qed

end
