(* ===== verification/AA_Tree.thy ===== *)
theory AA_Tree
  imports Prelude "HOL-Library.Tree"
begin

text \<open>
  The balanced search trees that the capability database of lib/mdb/mdb_tree.c builds in memory,
  as an algebraic datatype: a node carries an address and its level.  Levels are counted
  from 1, one more than in the code, so that a missing subtree has level 0.  The rotations,
  insertion and removal are the ones of the code, without pointers and without the
  augmentation by interval ends; theory \<^theory_text>\<open>Mdb_Tree\<close> relates them to the code.
\<close>

section \<open>Trees with levels\<close>

type_synonym atree = "(addr \<times> nat) tree"

fun lvl :: "atree \<Rightarrow> nat" where
  "lvl Leaf = 0"
| "lvl (Node l (a, n) r) = n"

lemmas atree_induct = tree.induct [where 'a = "addr \<times> nat", split_format (complete)]

lemmas atree_cases = tree.exhaust [where 'a = "addr \<times> nat", split_format (complete)]

fun nodes :: "atree \<Rightarrow> addr list" where
  "nodes Leaf = []"
| "nodes (Node l (a, n) r) = nodes l @ a # nodes r"

text \<open>A node whose right child is on a lower level.\<close>

fun single :: "atree \<Rightarrow> bool" where
  "single Leaf \<longleftrightarrow> False"
| "single (Node l (a, n) r) \<longleftrightarrow> lvl r < n"

fun aa_ok :: "atree \<Rightarrow> bool" where
  "aa_ok Leaf \<longleftrightarrow> True"
| "aa_ok (Node l (a, n) r) \<longleftrightarrow>
     aa_ok l \<and> aa_ok r \<and> n = Suc (lvl l) \<and> (n = Suc (lvl r) \<or> n = lvl r \<and> single r)"

section \<open>Rotations\<close>

fun aa_skew :: "atree \<Rightarrow> atree" where
  "aa_skew (Node (Node ll (b, m) lr) (a, n) r) =
     (if n = m then Node ll (b, m) (Node lr (a, n) r) else Node (Node ll (b, m) lr) (a, n) r)"
| "aa_skew t = t"

fun aa_split :: "atree \<Rightarrow> atree" where
  "aa_split (Node l (a, n) (Node rl (b, m) (Node x (c, k) y))) =
     (if n = k then Node (Node l (a, n) rl) (b, Suc m) (Node x (c, k) y)
      else Node l (a, n) (Node rl (b, m) (Node x (c, k) y)))"
| "aa_split t = t"

fun set_lvl :: "nat \<Rightarrow> atree \<Rightarrow> atree" where
  "set_lvl e Leaf = Leaf"
| "set_lvl e (Node l (a, n) r) = Node l (a, e) r"

fun aa_dec :: "atree \<Rightarrow> atree" where
  "aa_dec Leaf = Leaf"
| "aa_dec (Node l (a, n) r) =
     (let e = Suc (min (lvl l) (lvl r)) in
      if e < n then Node l (a, e) (if e < lvl r then set_lvl e r else r) else Node l (a, n) r)"

fun map_right :: "(atree \<Rightarrow> atree) \<Rightarrow> atree \<Rightarrow> atree" where
  "map_right f Leaf = Leaf"
| "map_right f (Node l x r) = Node l x (f r)"

definition aa_rebalance :: "atree \<Rightarrow> atree" where
  "aa_rebalance t =
     map_right aa_split (aa_split (map_right (map_right aa_skew) (map_right aa_skew (aa_skew (aa_dec t)))))"

lemma nodes_skew [simp]: "nodes (aa_skew t) = nodes t"
  by (cases t rule: aa_skew.cases) auto

lemma skew_Leaf [simp]: "aa_skew t = Leaf \<longleftrightarrow> t = Leaf"
  by (cases t rule: aa_skew.cases) auto

lemma split_Leaf [simp]: "aa_split t = Leaf \<longleftrightarrow> t = Leaf"
  by (cases t rule: aa_split.cases) auto

lemma nodes_split [simp]: "nodes (aa_split t) = nodes t"
  by (cases t rule: aa_split.cases) auto

lemma nodes_set_lvl [simp]: "nodes (set_lvl e t) = nodes t"
  by (cases t rule: atree_cases) auto

lemma nodes_dec [simp]: "nodes (aa_dec t) = nodes t"
  by (cases t rule: atree_cases) (auto simp: Let_def)

lemma nodes_map_right [simp]: "(\<And>t. nodes (f t) = nodes t) \<Longrightarrow> nodes (map_right f t) = nodes t"
  by (cases t rule: atree_cases) auto

lemma nodes_rebalance [simp]: "nodes (aa_rebalance t) = nodes t"
  by (simp add: aa_rebalance_def)

lemma lvl_0_iff: "aa_ok t \<Longrightarrow> lvl t = 0 \<longleftrightarrow> t = Leaf"
  by (cases t rule: atree_cases) auto

lemma lvl_SucE:
  assumes "lvl t = Suc n"
  obtains l a r where "t = Node l (a, Suc n) r"
  using assms by (cases t rule: atree_cases) auto

section \<open>Insertion\<close>

text \<open>
  The tree after inserting the address \<open>x\<close>, ordered by the key \<open>k\<close>; nothing if a node
  with the same key is present.
\<close>

fun aa_insert :: "(addr \<Rightarrow> 'k::linorder) \<Rightarrow> addr \<Rightarrow> atree \<Rightarrow> atree option" where
  "aa_insert k x Leaf = Some (Node Leaf (x, 1) Leaf)"
| "aa_insert k x (Node l (a, n) r) =
     (if k x < k a then map_option (\<lambda>l. aa_split (aa_skew (Node l (a, n) r))) (aa_insert k x l)
      else if k x > k a then map_option (\<lambda>r. aa_split (aa_skew (Node l (a, n) r))) (aa_insert k x r)
      else None)"

text \<open>How a subtree may grow.\<close>

definition grown :: "atree \<Rightarrow> atree \<Rightarrow> bool" where
  "grown t t' \<longleftrightarrow> aa_ok t' \<and>
     (lvl t' = lvl t \<or>
      lvl t' = Suc (lvl t) \<and> \<not> single t \<and> (\<exists>l a r. t' = Node l (a, lvl t') r \<and> lvl l = lvl r))"

lemma aa_skew_ok: "aa_ok t \<Longrightarrow> aa_skew t = t"
  by (cases t rule: aa_skew.cases) auto

lemma aa_split_ok: "aa_ok t \<Longrightarrow> aa_split t = t"
  by (cases t rule: aa_split.cases) auto

lemma grown_same: "aa_ok t' \<Longrightarrow> lvl t' = lvl t \<Longrightarrow> grown t (aa_split (aa_skew t'))"
  by (simp add: grown_def aa_skew_ok aa_split_ok)

lemma grown_left:
  assumes "aa_ok (Node l (a, n) r)" "grown l l'"
  shows "grown (Node l (a, n) r) (aa_split (aa_skew (Node l' (a, n) r)))"
proof (cases "lvl l' = lvl l")
  case True
  then show ?thesis
    using assms by (intro grown_same) (auto simp: grown_def)
next
  case False
  with assms obtain ll b lr where l': "l' = Node ll (b, n) lr" "lvl ll = lvl lr" "aa_ok ll" "aa_ok lr"
    "n = Suc (lvl lr)"
    by (auto simp: grown_def)
  show ?thesis
  proof (cases r rule: atree_cases)
    case Leaf
    then show ?thesis using assms(1) l' by (simp add: grown_def)
  next
    case (Node rl c m rr)
    then show ?thesis using assms(1) l' by (cases "m = n") (auto simp: grown_def)
  qed
qed

lemma grown_right:
  assumes "aa_ok (Node l (a, n) r)" "grown r r'"
  shows "grown (Node l (a, n) r) (aa_split (aa_skew (Node l (a, n) r')))"
proof (cases "aa_ok (Node l (a, n) r')")
  case True
  then show ?thesis by (intro grown_same) auto
next
  case False
  have skew: "aa_skew (Node l (a, n) r') = Node l (a, n) r'"
    using assms(1) by (cases l rule: atree_cases) auto
  from assms(2) have ok': "aa_ok r'" by (simp add: grown_def)
  from assms(1) have n: "n = Suc (lvl l)" "n = Suc (lvl r) \<or> n = lvl r \<and> single r" by auto
  have same: "n = lvl r" "lvl r' = n" "\<not> single r'"
  proof -
    from assms(2) consider "lvl r' = lvl r" | "lvl r' = Suc (lvl r)" "\<not> single r" "single r'"
      unfolding grown_def by (metis lessI aa_ok.simps(2) single.simps(2))
    then show "n = lvl r" "lvl r' = n" "\<not> single r'"
      using False assms(1) ok' n by (cases; auto)+
  qed
  then obtain rl b rr where r': "r' = Node rl (b, n) rr"
    using n(1) by (metis lvl_SucE)
  then have "lvl rr = n" using ok' same(3) by auto
  then obtain x c y where "rr = Node x (c, n) y" using n(1) by (metis lvl_SucE)
  with r' assms(1) ok' same(1) show ?thesis
    unfolding skew by (auto simp: grown_def)
qed

lemma aa_insert_grown: "aa_ok t \<Longrightarrow> aa_insert k x t = Some t' \<Longrightarrow> grown t t'"
proof (induction t arbitrary: t' rule: atree_induct)
  case Leaf
  then show ?case by (auto simp: grown_def)
next
  case (Node l a n r)
  from Node.prems(1) have ok: "aa_ok l" "aa_ok r" by auto
  from Node.prems(2) consider
      (left) l' where "aa_insert k x l = Some l'" "t' = aa_split (aa_skew (Node l' (a, n) r))"
    | (right) r' where "aa_insert k x r = Some r'" "t' = aa_split (aa_skew (Node l (a, n) r'))"
    by (auto simp del: aa_skew.simps aa_split.simps split: if_splits)
  then show ?case
  proof cases
    case left
    with Node ok show ?thesis by (simp only: grown_left)
  next
    case right
    with Node ok show ?thesis by (simp only: grown_right)
  qed
qed

section \<open>Removal\<close>

fun aa_split_max :: "atree \<Rightarrow> atree \<times> addr" where
  "aa_split_max Leaf = (Leaf, 0)"
| "aa_split_max (Node l (a, n) r) =
     (if r = Leaf then (Leaf, a)
      else let (r', b) = aa_split_max r in (aa_rebalance (Node l (a, n) r'), b))"

text \<open>
  The tree without the address whose key is that of \<open>x\<close>; nothing if there is no such node.
  An inner node is replaced by its predecessor, or by its successor if it has no left subtree.
\<close>

fun aa_remove :: "(addr \<Rightarrow> 'k::linorder) \<Rightarrow> addr \<Rightarrow> atree \<Rightarrow> atree option" where
  "aa_remove k x Leaf = None"
| "aa_remove k x (Node l (a, n) r) =
     (if k x > k a then map_option (\<lambda>r. aa_rebalance (Node l (a, n) r)) (aa_remove k x r)
      else if k x < k a then map_option (\<lambda>l. aa_rebalance (Node l (a, n) r)) (aa_remove k x l)
      else if l = Leaf then
        (case r of
           Leaf \<Rightarrow> Some Leaf
         | Node _ (b, _) _ \<Rightarrow> Some (aa_rebalance (Node Leaf (b, n) Leaf)))
      else let (l', b) = aa_split_max l in Some (aa_rebalance (Node l' (b, n) r)))"

text \<open>How a subtree may shrink.\<close>

definition shrunk :: "atree \<Rightarrow> atree \<Rightarrow> bool" where
  "shrunk t t' \<longleftrightarrow> aa_ok t' \<and> (lvl t' = lvl t \<or> Suc (lvl t') = lvl t) \<and>
     (lvl t' = lvl t \<and> single t \<longrightarrow> single t')"

lemma aa_rebalance_ok:
  assumes "aa_ok t"
  shows "aa_rebalance t = t"
proof (cases t rule: atree_cases)
  case (Node l a n r)
  have "aa_dec t = t" using assms Node by (auto simp: Let_def)
  moreover have "map_right aa_skew t = t" "map_right aa_split t = t"
    using assms Node by (auto simp: aa_skew_ok aa_split_ok)
  moreover have "map_right (map_right aa_skew) t = t"
    using assms Node by (cases r rule: atree_cases) (auto simp: aa_skew_ok)
  ultimately show ?thesis
    using assms by (simp add: aa_rebalance_def aa_skew_ok aa_split_ok)
qed (simp add: aa_rebalance_def)

lemma shrunk_same: "aa_ok t' \<Longrightarrow> lvl t' = lvl t \<Longrightarrow> (single t \<Longrightarrow> single t') \<Longrightarrow> shrunk t (aa_rebalance t')"
  by (simp add: shrunk_def aa_rebalance_ok)

lemma shrunk_left:
  assumes ok: "aa_ok (Node l (a, n) r)" and "shrunk l l'"
  shows "shrunk (Node l (a, n) r) (aa_rebalance (Node l' (b, n) r))"
proof (cases "lvl l' = lvl l")
  case True
  with assms show ?thesis by (intro shrunk_same) (auto simp: shrunk_def)
next
  case False
  define m where "m = lvl l'"
  have l': "lvl l' = m" "aa_ok l'" "n = Suc (Suc m)" "lvl l = Suc m"
    using False assms by (auto simp: shrunk_def m_def)
  have skl: "aa_skew (Node l' (b, Suc m) x) = Node l' (b, Suc m) x" for x
    using l' by (cases l' rule: atree_cases) auto
  from ok l' have r: "aa_ok r" "lvl r = Suc m \<or> lvl r = Suc (Suc m) \<and> single r" by auto
  from r(2) show ?thesis
  proof
    assume lr: "lvl r = Suc m"
    then obtain rl c rr where rr: "r = Node rl (c, Suc m) rr" by (metis lvl_SucE)
    have t1: "aa_rebalance (Node l' (b, n) r) = map_right aa_split (aa_split (Node l' (b, Suc m) r))"
      using l' lr r(1) rr skl by (auto simp: aa_rebalance_def aa_skew_ok)
    show ?thesis
    proof (cases "lvl rr = Suc m")
      case True
      then obtain x d y where "rr = Node x (d, Suc m) y" by (metis lvl_SucE)
      with t1 rr r(1) l' show ?thesis by (auto simp: shrunk_def aa_split_ok)
    next
      case False
      then have "lvl rr = m" using r(1) rr by auto
      with rr have "aa_split (Node l' (b, Suc m) r) = Node l' (b, Suc m) r"
        by (cases rr rule: atree_cases) auto
      with t1 rr r(1) l' \<open>lvl rr = m\<close> show ?thesis by (auto simp: shrunk_def aa_split_ok)
    qed
  next
    assume lr: "lvl r = Suc (Suc m) \<and> single r"
    then obtain rl c rr where rr: "r = Node rl (c, Suc (Suc m)) rr" by (metis lvl_SucE)
    with r lr have lrr: "lvl rl = Suc m" "lvl rr = Suc m" "aa_ok rl" "aa_ok rr" by auto
    then obtain x d y where rl: "rl = Node x (d, Suc m) y" by (metis lvl_SucE)
    from lrr(2) obtain u e v where u: "rr = Node u (e, Suc m) v" by (metis lvl_SucE)
    have t1: "aa_rebalance (Node l' (b, n) r) =
        Node (Node l' (b, Suc m) x) (d, Suc (Suc m)) (aa_split (aa_skew (Node y (c, Suc m) rr)))"
    proof -
      have "lvl (aa_skew (Node y (c, Suc m) rr)) = Suc m" by (cases y rule: atree_cases) auto
      then obtain p f q where "aa_skew (Node y (c, Suc m) rr) = Node p (f, Suc m) q" by (metis lvl_SucE)
      then show ?thesis
        using l' rr rl skl by (auto simp: aa_rebalance_def)
    qed
    have "aa_ok (aa_split (aa_skew (Node y (c, Suc m) rr))) \<and>
        (lvl (aa_split (aa_skew (Node y (c, Suc m) rr))) = Suc m \<or>
         lvl (aa_split (aa_skew (Node y (c, Suc m) rr))) = Suc (Suc m) \<and>
         single (aa_split (aa_skew (Node y (c, Suc m) rr))))"
    proof (cases "lvl y = Suc m")
      case True
      then obtain y1 g y2 where "y = Node y1 (g, Suc m) y2" by (metis lvl_SucE)
      with lrr rl u show ?thesis by auto
    next
      case False
      then have y: "lvl y = m" "aa_ok y" using lrr(3) rl by auto
      then have sk: "aa_skew (Node y (c, Suc m) rr) = Node y (c, Suc m) rr"
        by (cases y rule: atree_cases) auto
      show ?thesis
      proof (cases "lvl v = Suc m")
        case True
        then obtain v1 g v2 where "v = Node v1 (g, Suc m) v2" by (metis lvl_SucE)
        with y lrr(4) u show ?thesis unfolding sk by auto
      next
        case False
        then have "lvl v = m" using lrr(4) u by auto
        with y lrr(4) u show ?thesis unfolding sk by (cases v rule: atree_cases) auto
      qed
    qed
    with t1 l' lrr rl lr show ?thesis by (auto simp: shrunk_def rr)
  qed
qed

lemma shrunk_right:
  assumes ok: "aa_ok (Node l (a, n) r)" and s: "shrunk r r'"
  shows "shrunk (Node l (a, n) r) (aa_rebalance (Node l (a, n) r'))"
proof (cases "aa_ok (Node l (a, n) r')")
  case True
  with assms show ?thesis by (intro shrunk_same) (auto simp: shrunk_def)
next
  case False
  define m where "m = lvl r'"
  have r': "lvl r' = m" "aa_ok r'" "n = Suc (Suc m)" "lvl r = Suc m" "lvl l = Suc m" "aa_ok l"
    using False assms by (auto simp: shrunk_def m_def)
  then obtain ll b lr where l: "l = Node ll (b, Suc m) lr" by (metis lvl_SucE)
  show ?thesis
  proof (cases "lvl lr = Suc m")
    case True
    then obtain p c q where lr: "lr = Node p (c, Suc m) q" by (metis lvl_SucE)
    have skq: "aa_skew (Node q (a, Suc m) r') = Node q (a, Suc m) r'"
      using r' l lr by (cases q rule: atree_cases) auto
    have sp: "aa_split (Node q (a, Suc m) r') = Node q (a, Suc m) r'"
      using r' by (cases r' rule: atree_cases; cases "right r'" rule: atree_cases) auto
    have "aa_rebalance (Node l (a, n) r') = Node (Node ll (b, Suc m) p) (c, Suc (Suc m)) (Node q (a, Suc m) r')"
      using r' l lr skq sp by (simp add: aa_rebalance_def)
    with r' l lr show ?thesis by (auto simp: shrunk_def)
  next
    case False
    then have lr: "lvl lr = m" "aa_ok lr" "lvl ll = m" "aa_ok ll" using r' l by auto
    have skr: "aa_skew (Node lr (a, Suc m) r') = Node lr (a, Suc m) r'"
      using lr by (cases lr rule: atree_cases) auto
    have sp: "aa_split (Node ll (b, Suc m) (Node lr (a, Suc m) r')) = Node ll (b, Suc m) (Node lr (a, Suc m) r')"
      "aa_split (Node lr (a, Suc m) r') = Node lr (a, Suc m) r'"
      using r' by (cases r' rule: atree_cases; cases "right r'" rule: atree_cases; auto)+
    have "aa_rebalance (Node l (a, n) r') = Node ll (b, Suc m) (Node lr (a, Suc m) r')"
      using r' l lr skr sp by (simp add: aa_rebalance_def aa_skew_ok)
    with r' l lr show ?thesis by (auto simp: shrunk_def)
  qed
qed

lemma aa_split_max:
  assumes "aa_ok t" "t \<noteq> Leaf" "aa_split_max t = (t', b)"
  shows "nodes t = nodes t' @ [b] \<and> shrunk t t'"
  using assms
proof (induction t arbitrary: t' b rule: atree_induct)
  case (Node l a n r)
  show ?case
  proof (cases "r = Leaf")
    case True
    with Node.prems show ?thesis by (auto simp: shrunk_def lvl_0_iff)
  next
    case False
    obtain r' c where r': "aa_split_max r = (r', c)" by fastforce
    with Node.IH(2) [OF _ False r'] Node.prems False show ?thesis
      by (auto intro: shrunk_right)
  qed
qed simp

section \<open>Order and contents\<close>

abbreviation ordered :: "(addr \<Rightarrow> 'k::linorder) \<Rightarrow> addr list \<Rightarrow> bool" where
  "ordered k \<equiv> sorted_wrt (\<lambda>a b. k a < k b)"

lemma aa_insert_set:
  "aa_insert k x t = Some t' \<Longrightarrow> set (nodes t') = insert x (set (nodes t))"
proof (induction t arbitrary: t' rule: atree_induct)
  case (Node l a n r)
  then show ?case by (auto split: if_splits)
qed auto

lemma aa_insert_ordered:
  assumes "ordered k (nodes t)" "aa_insert k x t = Some t'"
  shows "ordered k (nodes t')"
  using assms
proof (induction t arbitrary: t' rule: atree_induct)
  case (Node l a n r)
  from Node.prems(1) have ok: "ordered k (nodes l)" "ordered k (nodes r)"
    and lt: "\<forall>b \<in> set (nodes l). k b < k a" "\<forall>b \<in> set (nodes r). k a < k b"
    "\<forall>b \<in> set (nodes l). \<forall>c \<in> set (nodes r). k b < k c"
    by (auto simp: sorted_wrt_append)
  show ?case
  proof (cases "k x" "k a" rule: linorder_cases)
    case less
    with Node.prems(2) obtain l' where l': "aa_insert k x l = Some l'" "nodes t' = nodes l' @ a # nodes r"
      by auto
    moreover have "\<forall>c \<in> set (nodes r). k x < k c" using less lt(2) less_trans by blast
    ultimately show ?thesis
      using Node.IH(1) [OF ok(1) l'(1)] aa_insert_set [OF l'(1)] ok(2) lt less by (simp add: sorted_wrt_append)
  next
    case greater
    with Node.prems(2) obtain r' where r': "aa_insert k x r = Some r'" "nodes t' = nodes l @ a # nodes r'"
      by (auto split: if_splits)
    moreover have "\<forall>b \<in> set (nodes l). k b < k x" using greater lt(1) less_trans by blast
    ultimately show ?thesis
      using Node.IH(2) [OF ok(2) r'(1)] aa_insert_set [OF r'(1)] ok(1) lt greater by (simp add: sorted_wrt_append)
  qed (use Node.prems(2) in auto)
qed auto

lemma aa_insert_None:
  assumes "ordered k (nodes t)"
  shows "aa_insert k x t = None \<longleftrightarrow> (\<exists>a \<in> set (nodes t). k a = k x)"
  using assms
proof (induction t rule: atree_induct)
  case (Node l a n r)
  then show ?case
    by (cases "k x" "k a" rule: linorder_cases) (auto simp: sorted_wrt_append)
qed simp

lemma aa_remove_notin:
  assumes "ordered k (nodes t)" "\<forall>a \<in> set (nodes t). k a \<noteq> k x"
  shows "aa_remove k x t = None"
  using assms by (induction t rule: atree_induct) (auto simp: sorted_wrt_append)

lemma aa_remove_root:
  assumes "aa_ok (Node l (a, n) r)"
  shows "\<exists>t'. aa_remove k a (Node l (a, n) r) = Some t' \<and> nodes t' = nodes l @ nodes r \<and>
    shrunk (Node l (a, n) r) t'"
proof (cases "l = Leaf")
  case True
  show ?thesis
  proof (cases r rule: atree_cases)
    case Leaf
    with True assms show ?thesis by (simp add: shrunk_def)
  next
    case (Node rl b m rr)
    with True assms have "rl = Leaf" "rr = Leaf" "n = 1" by (auto simp: lvl_0_iff)
    with True Node show ?thesis
      by (auto simp: shrunk_def aa_rebalance_ok)
  qed
next
  case False
  obtain l' b where l': "aa_split_max l = (l', b)" by fastforce
  with aa_split_max [OF _ False l'] shrunk_left [OF assms, of l' b] assms False show ?thesis
    by auto
qed

lemma aa_remove_in:
  assumes "aa_ok t" "ordered k (nodes t)" "x \<in> set (nodes t)"
  shows "\<exists>t'. aa_remove k x t = Some t' \<and> nodes t' = remove1 x (nodes t) \<and> shrunk t t'"
  using assms
proof (induction t rule: atree_induct)
  case (Node l a n r)
  from Node.prems have ok: "aa_ok l" "aa_ok r" "ordered k (nodes l)" "ordered k (nodes r)"
    and lt: "\<And>b. b \<in> set (nodes l) \<Longrightarrow> k b < k a" "\<And>b. b \<in> set (nodes r) \<Longrightarrow> k a < k b"
    by (auto simp: sorted_wrt_append)
  consider "x = a" | "x \<in> set (nodes l)" | "x \<in> set (nodes r)" using Node.prems(3) by auto
  then show ?case
  proof cases
    case 1
    then have "x \<notin> set (nodes l)" using lt(1) by blast
    with 1 aa_remove_root [OF Node.prems(1), of k] show ?thesis by (auto simp: remove1_append)
  next
    case 2
    with Node.IH(1) ok obtain l' where "aa_remove k x l = Some l'" "nodes l' = remove1 x (nodes l)" "shrunk l l'"
      by blast
    with 2 lt(1) shrunk_left [OF Node.prems(1), of l'] show ?thesis
      by (auto simp: remove1_append order_less_not_sym)
  next
    case 3
    then have notl: "x \<notin> set (nodes l)" "x \<noteq> a" using lt less_asym by blast+
    from 3 Node.IH(2) ok obtain r' where "aa_remove k x r = Some r'" "nodes r' = remove1 x (nodes r)" "shrunk r r'"
      by blast
    with 3 notl lt(2) shrunk_right [OF Node.prems(1), of r'] show ?thesis
      by (auto simp: remove1_append)
  qed
qed simp

lemma ordered_remove1: "ordered k xs \<Longrightarrow> ordered k (remove1 x xs)"
  by (induction xs) (auto dest: set_remove1_subset [THEN subsetD])

lemma ordered_distinct: "ordered k xs \<Longrightarrow> distinct xs"
  by (induction xs) auto

section \<open>Levels are logarithmic\<close>

lemma aa_ok_size: "aa_ok t \<Longrightarrow> 2 ^ lvl t \<le> Suc (length (nodes t))"
proof (induction t rule: atree_induct)
  case (Node l a n r)
  then have "2 ^ lvl l \<le> Suc (length (nodes l))" "2 ^ lvl r \<le> Suc (length (nodes r))" "lvl l \<le> lvl r"
    "n = Suc (lvl l)"
    by auto
  moreover from this have "(2::nat) ^ lvl l \<le> 2 ^ lvl r" by (intro power_increasing) auto
  ultimately show ?case by (simp del: power_increasing_iff)
qed simp

fun lvls_le :: "nat \<Rightarrow> atree \<Rightarrow> bool" where
  "lvls_le m Leaf \<longleftrightarrow> True"
| "lvls_le m (Node l (a, n) r) \<longleftrightarrow> n \<le> m \<and> lvls_le m l \<and> lvls_le m r"

lemma lvls_le_mono: "lvls_le m t \<Longrightarrow> m \<le> m' \<Longrightarrow> lvls_le m' t"
  by (induction t rule: atree_induct) auto

lemma aa_ok_lvls: "aa_ok t \<Longrightarrow> lvls_le (lvl t) t"
  by (induction t rule: atree_induct) (auto elim: lvls_le_mono)

lemma lvls_le_lvl: "lvls_le m t \<Longrightarrow> lvl t \<le> m"
  by (cases t rule: atree_cases) auto

lemma lvls_le_skew: "lvls_le m t \<Longrightarrow> lvls_le m (aa_skew t)"
  by (cases t rule: aa_skew.cases) auto

lemma lvls_le_split: "lvls_le m t \<Longrightarrow> lvls_le (Suc m) (aa_split t)"
  by (cases t rule: aa_split.cases) (auto elim: lvls_le_mono)

lemma lvls_le_map_right: "(\<And>r. lvls_le m r \<Longrightarrow> lvls_le m (f r)) \<Longrightarrow> lvls_le m t \<Longrightarrow> lvls_le m (map_right f t)"
  by (cases t rule: atree_cases) auto

lemma lvls_le_dec: "lvls_le m t \<Longrightarrow> lvls_le m (aa_dec t)"
proof (cases t rule: atree_cases)
  case (Node l a n r)
  assume "lvls_le m t"
  with Node show ?thesis by (cases r rule: atree_cases) (auto simp: Let_def)
qed simp

text \<open>With addresses of 64 bits the levels stay far below the width of \<open>mdb_level_t\<close>.\<close>

lemma aa_lvl_bound:
  assumes "aa_ok t" "distinct (nodes t)" "\<forall>a \<in> set (nodes t). a < 2 ^ 64"
  shows "lvl t \<le> 64"
proof -
  have "set (nodes t) \<subseteq> {..<2 ^ 64}" using assms(3) by auto
  then have "card (set (nodes t)) \<le> 2 ^ 64"
    using card_mono [of "{..<2 ^ 64}" "set (nodes t)"] by simp
  then have "length (nodes t) \<le> 2 ^ 64" using distinct_card [OF assms(2)] by simp
  with aa_ok_size [OF assms(1)] have "(2::nat) ^ lvl t < 2 ^ 65" by simp
  then have "lvl t < 65" by (rule power_less_imp_less_exp [rotated]) simp
  then show ?thesis by simp
qed

end
