(* ===== verification/Mdb_Tree.thy ===== *)
theory Mdb_Tree
  imports AA_Tree Cap_Order Errors
begin

text \<open>
  The capability database, lib/mdb/mdb_tree.c: its nodes in memory and the operations that change
  them.  A slot (\<^verbatim>\<open>struct cte\<close>) holds a capability and the node of a search tree that is
  ordered by \<^verbatim>\<open>compare_caps\<close>, balanced as an AA tree, and augmented in every node with the end of the
  memory that the subtree covers.

  The state is the store of slots, the global \<^verbatim>\<open>mdb_root\<close>, the root stored in the
  kernel control block, and one cell for the local variable whose address \<^verbatim>\<open>mdb_subtree_remove\<close>
  passes down.  A variable of type \<^verbatim>\<open>struct cte **\<close> is a \<open>loc\<close>.  The tracing macros and the optional
  checks of invariants, which are off unless configured, are left out.
\<close>

section \<open>State\<close>

record 'c cte =
  cap :: 'c
  n_left :: ptr
  n_right :: ptr
  n_end :: u64
  n_end_root :: u8
  n_level :: u8
  remote_copies :: bool
  remote_ancs :: bool
  remote_descs :: bool
  locked :: bool
  in_delete :: bool
  owner :: u8

record 'c mdb =
  ctes :: "addr \<Rightarrow> 'c cte"
  mdb_root :: ptr
  kcb_root :: ptr
  tmp :: ptr

definition upd_cte :: "addr \<Rightarrow> ('c cte \<Rightarrow> 'c cte) \<Rightarrow> 'c mdb \<Rightarrow> 'c mdb" where
  "upd_cte a f s = s\<lparr>ctes := (ctes s)(a := f (ctes s a))\<rparr>"

datatype loc = MdbRoot | LeftOf addr | RightOf addr | Tmp

fun read_loc :: "'c mdb \<Rightarrow> loc \<Rightarrow> ptr" where
  "read_loc s MdbRoot = mdb_root s"
| "read_loc s (LeftOf a) = n_left (ctes s a)"
| "read_loc s (RightOf a) = n_right (ctes s a)"
| "read_loc s Tmp = tmp s"

fun write_loc :: "loc \<Rightarrow> ptr \<Rightarrow> 'c mdb \<Rightarrow> 'c mdb" where
  "write_loc MdbRoot p s = s\<lparr>mdb_root := p\<rparr>"
| "write_loc (LeftOf a) p s = upd_cte a (n_left_update (\<lambda>_. p)) s"
| "write_loc (RightOf a) p s = upd_cte a (n_right_update (\<lambda>_. p)) s"
| "write_loc Tmp p s = s\<lparr>tmp := p\<rparr>"

definition set_root :: "ptr \<Rightarrow> 'c mdb \<Rightarrow> 'c mdb" where
  "set_root p s = s\<lparr>mdb_root := p, kcb_root := p\<rparr>"

text \<open>The argument of \<^verbatim>\<open>compare_caps\<close> for a slot.\<close>

abbreviation cte_cap :: "'c mdb \<Rightarrow> addr \<Rightarrow> 'c \<times> addr" where
  "cte_cap s a \<equiv> (cap (ctes s a), a)"

definition NULL :: ptr where
  "NULL = None"

section \<open>Helpers\<close>

definition mdb_update_end :: "'c cap_ops \<Rightarrow> ptr \<Rightarrow> 'c mdb \<Rightarrow> 'c mdb" where
  "mdb_update_end K p s =
     (case p of
        None \<Rightarrow> s
      | Some a \<Rightarrow>
          let node = ctes s a;
              own_root = root_of K (cap node);
              end_root = own_root;
              end_root = (case n_left node of Some l \<Rightarrow> max end_root (n_end_root (ctes s l)) | None \<Rightarrow> end_root);
              end_root = (case n_right node of Some r \<Rightarrow> max end_root (n_end_root (ctes s r)) | None \<Rightarrow> end_root);
              e = (if own_root = end_root then cap_end K (cap node) else 0);
              e = (case n_left node of
                     Some l \<Rightarrow> if n_end_root (ctes s l) = end_root then max e (n_end (ctes s l)) else e
                   | None \<Rightarrow> e);
              e = (case n_right node of
                     Some r \<Rightarrow> if n_end_root (ctes s r) = end_root then max e (n_end (ctes s r)) else e
                   | None \<Rightarrow> e)
          in upd_cte a (\<lambda>c. c\<lparr>n_end_root := end_root, n_end := e\<rparr>) s)"

definition mdb_skew :: "'c cap_ops \<Rightarrow> ptr \<Rightarrow> 'c mdb \<Rightarrow> ptr \<times> 'c mdb" where
  "mdb_skew K p s =
     (case p of
        None \<Rightarrow> (p, s)
      | Some node \<Rightarrow>
          (case n_left (ctes s node) of
             None \<Rightarrow> (p, s)
           | Some lnode \<Rightarrow>
               if n_level (ctes s node) = n_level (ctes s lnode) then
                 let s = upd_cte node (n_left_update (\<lambda>_. n_right (ctes s lnode))) s;
                     s = upd_cte lnode (n_right_update (\<lambda>_. Some node)) s;
                     s = mdb_update_end K (Some node) s;
                     s = mdb_update_end K (Some lnode) s;
                     s = (if mdb_root s = Some node then set_root (Some lnode) s else s)
                 in (Some lnode, s)
               else (p, s)))"

definition mdb_split :: "'c cap_ops \<Rightarrow> ptr \<Rightarrow> 'c mdb \<Rightarrow> ptr \<times> 'c mdb" where
  "mdb_split K p s =
     (case p of
        None \<Rightarrow> (p, s)
      | Some node \<Rightarrow>
          (case n_right (ctes s node) of
             None \<Rightarrow> (p, s)
           | Some rnode \<Rightarrow>
               (case n_right (ctes s rnode) of
                  None \<Rightarrow> (p, s)
                | Some x \<Rightarrow>
                    if n_level (ctes s node) = n_level (ctes s x) then
                      let s = upd_cte node (n_right_update (\<lambda>_. n_left (ctes s rnode))) s;
                          s = upd_cte rnode (n_left_update (\<lambda>_. Some node)) s;
                          s = upd_cte rnode (n_level_update (\<lambda>n. n + 1)) s;
                          s = mdb_update_end K (Some node) s;
                          s = mdb_update_end K (Some rnode) s;
                          s = (if mdb_root s = Some node then set_root (Some rnode) s else s)
                      in (Some rnode, s)
                    else (p, s))))"

definition mdb_decrease_level :: "addr \<Rightarrow> 'c mdb \<Rightarrow> 'c mdb" where
  "mdb_decrease_level node s =
     (let expected =
            (case (n_left (ctes s node), n_right (ctes s node)) of
               (Some l, Some r) \<Rightarrow> min (n_level (ctes s l)) (n_level (ctes s r)) + 1
             | _ \<Rightarrow> 0)
      in if expected < n_level (ctes s node) then
           let s = upd_cte node (n_level_update (\<lambda>_. expected)) s
           in (case n_right (ctes s node) of
                 Some r \<Rightarrow> if expected < n_level (ctes s r)
                            then upd_cte r (n_level_update (\<lambda>_. expected)) s else s
               | None \<Rightarrow> s)
         else s)"

definition mdb_rebalance :: "'c cap_ops \<Rightarrow> ptr \<Rightarrow> 'c mdb \<Rightarrow> (addr \<times> 'c mdb) option" where
  "mdb_rebalance K p s = do {
     node \<leftarrow> p;
     let s = mdb_update_end K (Some node) s;
     let s = mdb_decrease_level node s;
     let (p, s) = mdb_skew K (Some node) s;
     node \<leftarrow> p;
     let (r, s) = mdb_skew K (n_right (ctes s node)) s;
     let s = write_loc (RightOf node) r s;
     let s = (case n_right (ctes s node) of
                None \<Rightarrow> s
              | Some rnode \<Rightarrow>
                  let (rr, s) = mdb_skew K (n_right (ctes s rnode)) s in write_loc (RightOf rnode) rr s);
     let (p, s) = mdb_split K (Some node) s;
     node \<leftarrow> p;
     let (r, s) = mdb_split K (n_right (ctes s node)) s;
     let s = write_loc (RightOf node) r s;
     Some (node, s)
   }"

definition mdb_is_child :: "addr \<Rightarrow> ptr \<Rightarrow> 'c mdb \<Rightarrow> bool" where
  "mdb_is_child child parent s =
     (case parent of
        None \<Rightarrow> mdb_root s = Some child
      | Some p \<Rightarrow> n_left (ctes s p) = Some child \<or> n_right (ctes s p) = Some child)"

definition mdb_is_inside :: "u64 \<Rightarrow> u64 \<Rightarrow> u64 \<Rightarrow> u64 \<Rightarrow> bool" where
  "mdb_is_inside outer_begin outer_end inner_begin inner_end \<longleftrightarrow>
     (inner_begin \<ge> outer_begin \<and> inner_end < outer_end) \<or>
     (inner_begin > outer_begin \<and> inner_end \<le> outer_end)"

partial_function (option) mdb_is_reachable :: "'c mdb \<Rightarrow> ptr \<Rightarrow> addr \<Rightarrow> bool option" where
  "mdb_is_reachable s root x =
     (case root of
        None \<Rightarrow> Some False
      | Some a \<Rightarrow>
          if a = x then Some True
          else do {
            in_left \<leftarrow> (case n_left (ctes s a) of None \<Rightarrow> Some False | Some l \<Rightarrow> mdb_is_reachable s (n_left (ctes s a)) x);
            if in_left then Some True
            else do {
              in_right \<leftarrow> (case n_right (ctes s a) of None \<Rightarrow> Some False | Some r \<Rightarrow> mdb_is_reachable s (n_right (ctes s a)) x);
              Some in_right
            }
          })"

section \<open>Insertion\<close>

partial_function (option) mdb_sub_insert ::
  "'c cap_ops \<Rightarrow> addr \<Rightarrow> loc \<Rightarrow> 'c mdb \<Rightarrow> (errval \<times> 'c mdb) option"
where
  "mdb_sub_insert K new_node current s =
     (case read_loc s current of
        None \<Rightarrow>
          let s = write_loc current (Some new_node) s;
              s = mdb_update_end K (Some new_node) s
          in Some (SYS_ERR_OK, s)
      | Some cur \<Rightarrow>
          let compare = compare_caps K (cte_cap s new_node) (cte_cap s cur) True
          in do {
            (err, s) \<leftarrow>
              (if compare < 0 then mdb_sub_insert K new_node (LeftOf cur) s
               else if compare > 0 then mdb_sub_insert K new_node (RightOf cur) s
               else Some (CAPS_ERR_MDB_DUPLICATE_ENTRY, s));
            if err_is_fail err then Some (err, s)
            else
              let s = mdb_update_end K (Some cur) s;
                  (p, s) = mdb_skew K (Some cur) s;
                  (p, s) = mdb_split K p s;
                  s = write_loc current p s
              in Some (SYS_ERR_OK, s)
          })"

definition mdb_insert :: "'c cap_ops \<Rightarrow> addr \<Rightarrow> 'c mdb \<Rightarrow> (errval \<times> 'c mdb) option" where
  "mdb_insert K new_node s = mdb_sub_insert K new_node MdbRoot s"

section \<open>Removal\<close>

definition mdb_exchange_child :: "addr \<Rightarrow> ptr \<Rightarrow> addr \<Rightarrow> 'c mdb \<Rightarrow> 'c mdb option" where
  "mdb_exchange_child first first_parent second s = do {
     assert_that (mdb_is_child first first_parent s);
     (case first_parent of
        None \<Rightarrow> Some (set_root (Some second) s)
      | Some p \<Rightarrow>
          if n_left (ctes s p) = Some first then Some (write_loc (LeftOf p) (Some second) s)
          else if n_right (ctes s p) = Some first then Some (write_loc (RightOf p) (Some second) s)
          else None)
   }"

definition mdb_exchange_nodes ::
  "'c cap_ops \<Rightarrow> addr \<Rightarrow> ptr \<Rightarrow> addr \<Rightarrow> ptr \<Rightarrow> 'c mdb \<Rightarrow> 'c mdb option"
where
  "mdb_exchange_nodes K first first_parent second second_parent s = do {
     s \<leftarrow> mdb_exchange_child first first_parent second s;
     s \<leftarrow> mdb_exchange_child second second_parent first s;
     let tmp_node = n_left (ctes s first);
     let s = write_loc (LeftOf first) (n_left (ctes s second)) s;
     let s = write_loc (LeftOf second) tmp_node s;
     let tmp_node = n_right (ctes s first);
     let s = write_loc (RightOf first) (n_right (ctes s second)) s;
     let s = write_loc (RightOf second) tmp_node s;
     let tmp_level = n_level (ctes s first);
     let s = upd_cte first (n_level_update (\<lambda>_. n_level (ctes s second))) s;
     let s = upd_cte second (n_level_update (\<lambda>_. tmp_level)) s;
     let s = mdb_update_end K (Some first) s;
     let s = mdb_update_end K (Some second) s;
     reach \<leftarrow> mdb_is_reachable s (mdb_root s) first;
     assert_that reach;
     reach \<leftarrow> mdb_is_reachable s (mdb_root s) second;
     assert_that reach;
     Some s
   }"

text \<open>The result is the final \<^verbatim>\<open>*ret_target\<close>, which is \<^verbatim>\<open>NULL\<close> on entry, and the state.\<close>

partial_function (option) mdb_exchange_remove ::
  "'c cap_ops \<Rightarrow> addr \<Rightarrow> ptr \<Rightarrow> loc \<Rightarrow> addr \<Rightarrow> int \<Rightarrow> 'c mdb \<Rightarrow> (ptr \<times> 'c mdb) option"
where
  "mdb_exchange_remove K target target_parent current parent dir s = do {
     cur \<leftarrow> read_loc s current;
     assert_that (type_of K (cap (ctes s target)) \<noteq> 0);
     assert_that (type_of K (cap (ctes s cur)) \<noteq> 0);
     assert_that (type_of K (cap (ctes s parent)) \<noteq> 0);
     assert_that (dir \<noteq> 0);
     assert_that (compare_caps K (cte_cap s target) (cte_cap s cur) True \<noteq> 0);
     assert_that (mdb_is_child target target_parent s);
     assert_that (mdb_is_child cur (Some parent) s);
     reach \<leftarrow> mdb_is_reachable s (mdb_root s) target;
     assert_that reach;
     if dir < 0 \<and> n_left (ctes s cur) = None \<and> n_right (ctes s cur) \<noteq> None then do {
       assert_that ((if parent = target then n_right (ctes s parent) else n_left (ctes s parent)) = Some cur);
       assert_that (n_level (ctes s cur) = 0);
       new_current \<leftarrow> n_right (ctes s cur);
       s \<leftarrow> mdb_exchange_nodes K cur (Some parent) new_current (Some cur) s;
       s \<leftarrow> mdb_exchange_nodes K target target_parent cur (Some new_current) s;
       assert_that (n_right (ctes s new_current) = Some target);
       let s = write_loc (RightOf new_current) None s;
       let s = write_loc current (Some new_current) s;
       reach \<leftarrow> mdb_is_reachable s (mdb_root s) target;
       assert_that (\<not> reach);
       Some (Some cur, s)
     } else do {
       (ret_target, s) \<leftarrow>
         (if dir > 0 then do {
            assert_that ((if parent = target then n_left (ctes s parent) else n_right (ctes s parent)) = Some cur);
            if n_right (ctes s cur) \<noteq> None
            then mdb_exchange_remove K target target_parent (RightOf cur) cur dir s
            else Some (NULL, s)
          } else do {
            assert_that ((if parent = target then n_right (ctes s parent) else n_left (ctes s parent)) = Some cur);
            if n_left (ctes s cur) \<noteq> None
            then mdb_exchange_remove K target target_parent (LeftOf cur) cur dir s
            else Some (NULL, s)
          });
       if ret_target \<noteq> None then do {
         reach \<leftarrow> mdb_is_reachable s (mdb_root s) target;
         assert_that (\<not> reach);
         (p, s) \<leftarrow> mdb_rebalance K (Some cur) s;
         Some (ret_target, write_loc current (Some p) s)
       } else do {
         assert_that (n_right (ctes s cur) = None \<and> n_left (ctes s cur) = None);
         s \<leftarrow> mdb_exchange_nodes K target target_parent cur (Some parent) s;
         Some (Some cur, write_loc current None s)
       }
     }
   }"

partial_function (option) mdb_subtree_remove ::
  "'c cap_ops \<Rightarrow> addr \<Rightarrow> loc \<Rightarrow> ptr \<Rightarrow> 'c mdb \<Rightarrow> (errval \<times> 'c mdb) option"
where
  "mdb_subtree_remove K target current parent s =
     (case read_loc s current of
        None \<Rightarrow> Some (CAPS_ERR_MDB_ENTRY_NOTFOUND, s)
      | Some cur \<Rightarrow>
          let compare = compare_caps K (cte_cap s target) (cte_cap s cur) True
          in if compare = 0 \<and> cur = target \<and> n_left (ctes s cur) = None \<and> n_right (ctes s cur) = None then
               Some (SYS_ERR_OK, write_loc current None s)
             else do {
               (err, cur, s) \<leftarrow>
                 (if compare > 0 then do {
                    (err, s) \<leftarrow> mdb_subtree_remove K target (RightOf cur) (Some cur) s;
                    Some (err, cur, s)
                  } else if compare < 0 then do {
                    (err, s) \<leftarrow> mdb_subtree_remove K target (LeftOf cur) (Some cur) s;
                    Some (err, cur, s)
                  } else do {
                    assert_that (cur = target);
                    if n_left (ctes s cur) = None then do {
                      let s = s\<lparr>tmp := n_right (ctes s cur)\<rparr>;
                      (ret, s) \<leftarrow> mdb_exchange_remove K target parent Tmp cur (-1) s;
                      new_current \<leftarrow> ret;
                      let s = write_loc (RightOf new_current) (tmp s) s;
                      reach \<leftarrow> mdb_is_reachable s (mdb_root s) target;
                      assert_that (\<not> reach);
                      Some (SYS_ERR_OK, new_current, s)
                    } else do {
                      let s = s\<lparr>tmp := n_left (ctes s cur)\<rparr>;
                      (ret, s) \<leftarrow> mdb_exchange_remove K target parent Tmp cur 1 s;
                      new_current \<leftarrow> ret;
                      let s = write_loc (LeftOf new_current) (tmp s) s;
                      reach \<leftarrow> mdb_is_reachable s (mdb_root s) target;
                      assert_that (\<not> reach);
                      Some (SYS_ERR_OK, new_current, s)
                    }
                  });
               if err \<noteq> SYS_ERR_OK then Some (err, s)
               else do {
                 (p, s) \<leftarrow> mdb_rebalance K (Some cur) s;
                 let s = write_loc current (Some p) s;
                 assert_that (type_of K (cap (ctes s target)) \<noteq> 0);
                 assert_that (type_of K (cap (ctes s p)) \<noteq> 0);
                 Some (SYS_ERR_OK, s)
               }
             })"

definition mdb_remove :: "'c cap_ops \<Rightarrow> addr \<Rightarrow> 'c mdb \<Rightarrow> (errval \<times> 'c mdb) option" where
  "mdb_remove K target s = mdb_subtree_remove K target MdbRoot None s"

end
