(* ===== verification/Mdb_Insert.thy ===== *)
theory Mdb_Insert
  imports Mdb_Tree
begin

text \<open>
  The tree in memory and insertion.  \<open>tree_at K s p t\<close> says that the pointer \<open>p\<close> leads
  to the tree \<open>t\<close> of theory \<^theory_text>\<open>AA_Tree\<close> and that every node carries the right end.  Each operation of the
  code then refines the operation on trees: rotations first, then insertion.
\<close>

section \<open>Ends of subtrees\<close>

definition max_root :: "(addr \<Rightarrow> u8) \<Rightarrow> addr set \<Rightarrow> u8" where
  "max_root rt A = Max (insert 0 (rt ` A))"

definition max_end_in :: "(addr \<Rightarrow> u8) \<Rightarrow> (addr \<Rightarrow> u64) \<Rightarrow> u8 \<Rightarrow> addr set \<Rightarrow> u64" where
  "max_end_in rt en er A = Max (insert 0 (en ` {a \<in> A. rt a = er}))"

definition max_end :: "(addr \<Rightarrow> u8) \<Rightarrow> (addr \<Rightarrow> u64) \<Rightarrow> addr set \<Rightarrow> u64" where
  "max_end rt en A = max_end_in rt en (max_root rt A) A"

lemma max_0_word: "max 0 (x :: 'a::len word) = x"
  by (simp add: max_def)

lemma max_root_empty [simp]: "max_root rt {} = 0"
  by (simp add: max_root_def)

lemma max_root_insert: "finite A \<Longrightarrow> max_root rt (insert a A) = max (rt a) (max_root rt A)"
proof -
  assume "finite A"
  then have "Max (insert (rt a) (insert 0 (rt ` A))) = max (rt a) (Max (insert 0 (rt ` A)))"
    by (intro Max_insert) auto
  then show ?thesis by (simp add: max_root_def insert_commute)
qed

lemma max_root_Un: "finite A \<Longrightarrow> finite B \<Longrightarrow> max_root rt (A \<union> B) = max (max_root rt A) (max_root rt B)"
  by (induction A rule: finite_induct) (simp_all add: max_root_insert max.assoc max_0_word)

lemma max_root_ge: "finite A \<Longrightarrow> a \<in> A \<Longrightarrow> rt a \<le> max_root rt A"
  by (auto simp: max_root_def)

lemma max_end_in_empty [simp]: "max_end_in rt en er {} = 0"
  by (simp add: max_end_in_def)

lemma max_end_in_insert:
  assumes "finite A"
  shows "max_end_in rt en er (insert a A) = (if rt a = er then max (en a) (max_end_in rt en er A) else max_end_in rt en er A)"
proof -
  have "{b \<in> insert a A. rt b = er} = (if rt a = er then insert a {b \<in> A. rt b = er} else {b \<in> A. rt b = er})"
    by auto
  moreover have "Max (insert (en a) (insert 0 (en ` {b \<in> A. rt b = er}))) = max (en a) (Max (insert 0 (en ` {b \<in> A. rt b = er})))"
    using assms by (intro Max_insert) auto
  ultimately show ?thesis by (simp add: max_end_in_def insert_commute)
qed

lemma max_end_in_Un:
  "finite A \<Longrightarrow> finite B \<Longrightarrow> max_end_in rt en er (A \<union> B) = max (max_end_in rt en er A) (max_end_in rt en er B)"
  by (induction A rule: finite_induct) (simp_all add: max_end_in_insert max.assoc max_0_word)

lemma max_end_in_low:
  assumes "finite A" "max_root rt A < er"
  shows "max_end_in rt en er A = 0"
proof -
  have "rt a \<noteq> er" if "a \<in> A" for a
    using max_root_ge [OF assms(1) that, of rt] assms(2) by auto
  then have "{a \<in> A. rt a = er} = {}" by auto
  then show ?thesis by (simp only: max_end_in_def) simp
qed

lemma max_end_in_part:
  assumes "finite A" "max_root rt A \<le> er"
  shows "max_end_in rt en er A = (if max_root rt A = er then max_end rt en A else 0)"
  using max_end_in_low [OF assms(1), of rt er] assms(2) by (auto simp: max_end_def)

text \<open>What \<^verbatim>\<open>mdb_update_end\<close> computes from the node and its two subtrees.\<close>

lemma max_end_node:
  fixes rt :: "addr \<Rightarrow> u8" and a :: addr
  assumes "finite L" "finite R"
  defines "er \<equiv> max_root rt (insert a (L \<union> R))"
  shows "er = max (max (rt a) (max_root rt L)) (max_root rt R)"
    and "max_end rt en (insert a (L \<union> R)) =
      max (max (if rt a = er then en a else 0) (if max_root rt L = er then max_end rt en L else 0))
        (if max_root rt R = er then max_end rt en R else 0)"
proof -
  show er: "er = max (max (rt a) (max_root rt L)) (max_root rt R)"
    using assms(1,2) by (simp add: er_def max_root_insert max_root_Un max.assoc)
  then have "max_root rt L \<le> er" "max_root rt R \<le> er" by (auto simp: le_max_iff_disj)
  then show "max_end rt en (insert a (L \<union> R)) =
      max (max (if rt a = er then en a else 0) (if max_root rt L = er then max_end rt en L else 0))
        (if max_root rt R = er then max_end rt en R else 0)"
    using assms(1,2) max_end_in_part [OF assms(1), of rt er en] max_end_in_part [OF assms(2), of rt er en]
    by (simp add: max_end_def [of rt en "insert a (L \<union> R)"] er_def [symmetric] max_end_in_insert max_end_in_Un max.assoc)
qed

section \<open>Trees in memory\<close>

abbreviation rt :: "'c cap_ops \<Rightarrow> 'c mdb \<Rightarrow> addr \<Rightarrow> u8" where
  "rt K s \<equiv> (\<lambda>a. root_of K (cap (ctes s a)))"

abbreviation en :: "'c cap_ops \<Rightarrow> 'c mdb \<Rightarrow> addr \<Rightarrow> u64" where
  "en K s \<equiv> (\<lambda>a. cap_end K (cap (ctes s a)))"

definition ends_at :: "'c cap_ops \<Rightarrow> 'c mdb \<Rightarrow> addr \<Rightarrow> addr set \<Rightarrow> bool" where
  "ends_at K s a A \<longleftrightarrow>
     n_end_root (ctes s a) = max_root (rt K s) A \<and> n_end (ctes s a) = max_end (rt K s) (en K s) A"

fun tree_at :: "'c cap_ops \<Rightarrow> 'c mdb \<Rightarrow> ptr \<Rightarrow> atree \<Rightarrow> bool" where
  "tree_at K s p Leaf \<longleftrightarrow> p = None"
| "tree_at K s p (Node l (a, n) r) \<longleftrightarrow>
     p = Some a \<and> n = Suc (unat (n_level (ctes s a))) \<and>
     tree_at K s (n_left (ctes s a)) l \<and> tree_at K s (n_right (ctes s a)) r \<and>
     ends_at K s a (set (nodes (Node l (a, n) r)))"

text \<open>The same without a condition on the end of the topmost node.\<close>

definition half_at :: "'c cap_ops \<Rightarrow> 'c mdb \<Rightarrow> addr \<Rightarrow> nat \<Rightarrow> atree \<Rightarrow> atree \<Rightarrow> bool" where
  "half_at K s a n l r \<longleftrightarrow>
     n = Suc (unat (n_level (ctes s a))) \<and>
     tree_at K s (n_left (ctes s a)) l \<and> tree_at K s (n_right (ctes s a)) r"

lemma tree_at_half: "tree_at K s (Some a) (Node l (a, n) r) \<Longrightarrow> half_at K s a n l r"
  by (simp add: half_at_def)

lemma tree_at_nonempty: "tree_at K s p t \<Longrightarrow> t \<noteq> Leaf \<Longrightarrow> \<exists>a \<in> set (nodes t). p = Some a"
  by (cases t rule: atree_cases) auto

lemma tree_at_None [simp]: "tree_at K s None t \<longleftrightarrow> t = Leaf"
  by (cases t rule: atree_cases) auto

lemma tree_at_end:
  assumes "tree_at K s (Some a) t"
  shows "n_end_root (ctes s a) = max_root (rt K s) (set (nodes t))"
    "n_end (ctes s a) = max_end (rt K s) (en K s) (set (nodes t))"
  using assms by (cases t rule: atree_cases; auto simp: ends_at_def)+

text \<open>The part of a slot that operations on the tree leave alone.\<close>

definition erase_node :: "'c cte \<Rightarrow> 'c cte" where
  "erase_node c = c\<lparr>n_left := None, n_right := None, n_end := 0, n_end_root := 0, n_level := 0\<rparr>"

lemma erase_node_upd [simp]:
  "erase_node (n_left_update f c) = erase_node c" "erase_node (n_right_update f c) = erase_node c"
  "erase_node (n_end_update g c) = erase_node c" "erase_node (n_end_root_update h c) = erase_node c"
  "erase_node (n_level_update h c) = erase_node c"
  by (simp_all add: erase_node_def)

lemma erase_node_eqD:
  assumes "erase_node c = erase_node d"
  shows "cap c = cap d" "remote_copies c = remote_copies d" "remote_ancs c = remote_ancs d"
    "remote_descs c = remote_descs d" "locked c = locked d" "in_delete c = in_delete d" "owner c = owner d"
proof -
  have "cap (erase_node c) = cap (erase_node d)" "remote_copies (erase_node c) = remote_copies (erase_node d)"
    "remote_ancs (erase_node c) = remote_ancs (erase_node d)" "remote_descs (erase_node c) = remote_descs (erase_node d)"
    "locked (erase_node c) = locked (erase_node d)" "in_delete (erase_node c) = in_delete (erase_node d)"
    "owner (erase_node c) = owner (erase_node d)"
    using assms by simp_all
  then show "cap c = cap d" "remote_copies c = remote_copies d" "remote_ancs c = remote_ancs d"
    "remote_descs c = remote_descs d" "locked c = locked d" "in_delete c = in_delete d" "owner c = owner d"
    by (simp_all add: erase_node_def)
qed

definition same_data :: "'c mdb \<Rightarrow> 'c mdb \<Rightarrow> bool" where
  "same_data s s' \<longleftrightarrow> (\<forall>a. erase_node (ctes s' a) = erase_node (ctes s a))"

lemma same_data_refl [simp]: "same_data s s"
  by (simp add: same_data_def)

lemma same_data_trans: "same_data s s' \<Longrightarrow> same_data s' s'' \<Longrightarrow> same_data s s''"
  by (simp add: same_data_def)

lemma same_data_cap: "same_data s s' \<Longrightarrow> cap (ctes s' a) = cap (ctes s a)"
  by (rule erase_node_eqD(1)) (simp add: same_data_def)

lemma ctes_upd [simp]: "ctes (upd_cte a f s) b = (if b = a then f (ctes s a) else ctes s b)"
  by (simp add: upd_cte_def)

lemma upd_cte_roots [simp]:
  "mdb_root (upd_cte a f s) = mdb_root s" "kcb_root (upd_cte a f s) = kcb_root s" "tmp (upd_cte a f s) = tmp s"
  by (simp_all add: upd_cte_def)

lemma set_root_simps [simp]:
  "ctes (set_root p s) = ctes s" "mdb_root (set_root p s) = p" "kcb_root (set_root p s) = p" "tmp (set_root p s) = tmp s"
  by (simp_all add: set_root_def)

lemma same_data_upd: "(\<And>c. erase_node (f c) = erase_node c) \<Longrightarrow> same_data s (upd_cte a f s)"
  by (simp add: same_data_def)

lemma tree_at_cong:
  assumes "\<And>a. a \<in> set (nodes t) \<Longrightarrow> ctes s' a = ctes s a"
  shows "tree_at K s' p t = tree_at K s p t"
proof -
  have root: "max_root (rt K s') A = max_root (rt K s) A" if "A \<subseteq> set (nodes t)" for A
    unfolding max_root_def using that assms by (intro arg_cong [where f = Max] arg_cong [where f = "insert 0"] image_cong) auto
  have ende: "max_end (rt K s') (en K s') A = max_end (rt K s) (en K s) A" if "A \<subseteq> set (nodes t)" for A
    unfolding max_end_def max_end_in_def root [OF that] using that assms
    by (intro arg_cong [where f = Max] arg_cong [where f = "insert 0"] image_cong) (auto simp: subset_iff)
  have ends: "ends_at K s' a A = ends_at K s a A" if "a \<in> set (nodes t)" "A \<subseteq> set (nodes t)" for a A
    using that assms root ende by (simp add: ends_at_def)
  have "tree_at K s' p u = tree_at K s p u" if "set (nodes u) \<subseteq> set (nodes t)" for p u
    using that
  proof (induction u arbitrary: p rule: atree_induct)
    case (Node l a n r)
    with assms ends [of a "set (nodes (Node l (a, n) r))"] show ?case by simp
  qed simp
  then show ?thesis by simp
qed

lemma tree_at_frame:
  assumes "\<And>b. b \<notin> A \<Longrightarrow> ctes s' b = ctes s b" "set (nodes t) \<inter> A = {}"
  shows "tree_at K s' p t = tree_at K s p t"
  using assms by (intro tree_at_cong) auto

section \<open>Updating the end of a node\<close>

definition child_end :: "'c mdb \<Rightarrow> ptr \<Rightarrow> u8 \<times> u64" where
  "child_end s p = (case p of None \<Rightarrow> (0, 0) | Some b \<Rightarrow> (n_end_root (ctes s b), n_end (ctes s b)))"

lemma child_end_tree:
  "tree_at K s p t \<Longrightarrow> child_end s p = (max_root (rt K s) (set (nodes t)), max_end (rt K s) (en K s) (set (nodes t)))"
  by (cases t rule: atree_cases) (auto simp: child_end_def ends_at_def max_end_def)

lemma update_end_child:
  "mdb_update_end K (Some a) s =
     (let er = max (max (rt K s a) (fst (child_end s (n_left (ctes s a))))) (fst (child_end s (n_right (ctes s a))));
          e = max (max (if rt K s a = er then en K s a else 0)
                (if fst (child_end s (n_left (ctes s a))) = er then snd (child_end s (n_left (ctes s a))) else 0))
                (if fst (child_end s (n_right (ctes s a))) = er then snd (child_end s (n_right (ctes s a))) else 0)
      in upd_cte a (\<lambda>c. c\<lparr>n_end_root := er, n_end := e\<rparr>) s)"
proof -
  have 0: "max x 0 = x" for x :: "'x::len word" by (simp add: max_def)
  have dist: "(if b then max e x else e) = max e (if b then x else 0)" for b and e x :: u64
    by (simp add: 0)
  show ?thesis
    by (cases "n_left (ctes s a)"; cases "n_right (ctes s a)")
       (simp_all only: mdb_update_end_def option.case child_end_def fst_conv snd_conv Let_def dist 0 if_cancel)
qed

lemma update_end_eq:
  assumes "half_at K s a n l r"
  shows "mdb_update_end K (Some a) s =
    upd_cte a (\<lambda>c. c\<lparr>n_end_root := max_root (rt K s) (insert a (set (nodes l) \<union> set (nodes r))),
      n_end := max_end (rt K s) (en K s) (insert a (set (nodes l) \<union> set (nodes r)))\<rparr>) s"
proof -
  have lr: "child_end s (n_left (ctes s a)) = (max_root (rt K s) (set (nodes l)), max_end (rt K s) (en K s) (set (nodes l)))"
    "child_end s (n_right (ctes s a)) = (max_root (rt K s) (set (nodes r)), max_end (rt K s) (en K s) (set (nodes r)))"
    using assms by (simp_all add: half_at_def child_end_tree)
  show ?thesis
    unfolding update_end_child lr Let_def fst_conv snd_conv max_end_node(2) [OF finite_set finite_set]
      max_end_node(1) [OF finite_set finite_set] ..
qed

lemma update_end_shape:
  "\<exists>er e. mdb_update_end K (Some a) s = upd_cte a (\<lambda>c. c\<lparr>n_end_root := er, n_end := e\<rparr>) s"
  unfolding mdb_update_end_def option.case Let_def by blast

lemma update_end_simps [simp]:
  "n_left (ctes (mdb_update_end K p s) b) = n_left (ctes s b)"
  "n_right (ctes (mdb_update_end K p s) b) = n_right (ctes s b)"
  "n_level (ctes (mdb_update_end K p s) b) = n_level (ctes s b)"
  "cap (ctes (mdb_update_end K p s) b) = cap (ctes s b)"
  "erase_node (ctes (mdb_update_end K p s) b) = erase_node (ctes s b)"
  "p \<noteq> Some b \<Longrightarrow> ctes (mdb_update_end K p s) b = ctes s b"
  "mdb_root (mdb_update_end K p s) = mdb_root s"
  "kcb_root (mdb_update_end K p s) = kcb_root s"
  "tmp (mdb_update_end K p s) = tmp s"
proof -
  consider "p = None" | a er e where "p = Some a"
    "mdb_update_end K p s = upd_cte a (\<lambda>c. c\<lparr>n_end_root := er, n_end := e\<rparr>) s"
    using update_end_shape [of K _ s] by (cases p) blast+
  then show
    "n_left (ctes (mdb_update_end K p s) b) = n_left (ctes s b)"
    "n_right (ctes (mdb_update_end K p s) b) = n_right (ctes s b)"
    "n_level (ctes (mdb_update_end K p s) b) = n_level (ctes s b)"
    "cap (ctes (mdb_update_end K p s) b) = cap (ctes s b)"
    "erase_node (ctes (mdb_update_end K p s) b) = erase_node (ctes s b)"
    "p \<noteq> Some b \<Longrightarrow> ctes (mdb_update_end K p s) b = ctes s b"
    "mdb_root (mdb_update_end K p s) = mdb_root s"
    "kcb_root (mdb_update_end K p s) = kcb_root s"
    "tmp (mdb_update_end K p s) = tmp s"
    by (cases; simp add: mdb_update_end_def)+
qed

lemma update_end_tree:
  assumes "half_at K s a n l r" "a \<notin> set (nodes l)" "a \<notin> set (nodes r)"
  shows "tree_at K (mdb_update_end K (Some a) s) (Some a) (Node l (a, n) r)"
proof -
  let ?s = "mdb_update_end K (Some a) s"
  have "tree_at K ?s p l = tree_at K s p l" "tree_at K ?s p r = tree_at K s p r" for p
    using assms by (auto intro!: tree_at_cong update_end_simps(6))
  moreover have "ends_at K ?s a (insert a (set (nodes l) \<union> set (nodes r)))"
    unfolding ends_at_def update_end_simps(4) unfolding update_end_eq [OF assms(1)] by simp
  ultimately show ?thesis using assms by (simp add: half_at_def)
qed

section \<open>Rotations\<close>

text \<open>
  \<open>step K A s p s' p' t'\<close>: the subtree at \<open>p\<close>, whose slots are in \<open>A\<close>, has been replaced by
  the tree \<open>t'\<close> at \<open>p'\<close>.
\<close>

definition step :: "'c cap_ops \<Rightarrow> addr set \<Rightarrow> 'c mdb \<Rightarrow> ptr \<Rightarrow> 'c mdb \<Rightarrow> ptr \<Rightarrow> atree \<Rightarrow> bool" where
  "step K A s p s' p' t' \<longleftrightarrow>
     tree_at K s' p' t' \<and> (\<forall>b. b \<notin> A \<longrightarrow> ctes s' b = ctes s b) \<and> same_data s s' \<and> tmp s' = tmp s \<and>
     (if p \<noteq> None \<and> mdb_root s = p then mdb_root s' = p' \<and> (kcb_root s = p \<longrightarrow> kcb_root s' = p')
      else mdb_root s' = mdb_root s \<and> kcb_root s' = kcb_root s)"

lemma step_refl: "tree_at K s p t \<Longrightarrow> step K A s p s p t"
  by (simp add: step_def)

lemma step_trans:
  assumes "step K A s p s1 p1 t1" "step K A s1 p1 s2 p2 t2"
    and "mdb_root s = p \<or> mdb_root s \<notin> Some ` A" "p \<noteq> None" "p1 \<in> Some ` A"
  shows "step K A s p s2 p2 t2"
  using assms unfolding step_def by (auto elim: same_data_trans split: if_splits)

lemma step_rotI:
  assumes "tree_at K s' p' t'" "\<And>b. b \<notin> A \<Longrightarrow> ctes s' b = ctes s b" "same_data s s'" "tmp s' = tmp s"
    "mdb_root s' = (if mdb_root s = p then p' else mdb_root s)"
    "kcb_root s' = (if mdb_root s = p then p' else kcb_root s)" "p \<noteq> None"
  shows "step K A s p s' p' t'"
  using assms by (simp add: step_def)

lemma skew_step:
  assumes "tree_at K s p t" "distinct (nodes t)" "mdb_skew K p s = (p', s')"
  shows "step K (set (nodes t)) s p s' p' (aa_skew t)"
proof (cases t rule: aa_skew.cases)
  case (1 ll b m lr a n r)
  show ?thesis
  proof (cases "n = m")
    case False
    have "n_level (ctes s a) \<noteq> n_level (ctes s b)" using False assms(1) 1 by auto
    with assms(1,3) 1 have "p' = p" "s' = s" by (auto simp: mdb_skew_def)
    with False 1 assms(1) show ?thesis by (auto intro: step_refl)
  next
    case True
    define s2 where "s2 = upd_cte b (n_right_update (\<lambda>_. Some a)) (upd_cte a (n_left_update (\<lambda>_. n_right (ctes s b))) s)"
    have s2: "ctes s2 x = ctes s x" if "x \<notin> {a, b}" for x using that by (simp add: s2_def)
    define s3 where "s3 = mdb_update_end K (Some a) s2"
    have s3: "ctes s3 x = ctes s x" if "x \<notin> {a, b}" for x using that s2 by (simp add: s3_def)
    define s4 where "s4 = mdb_update_end K (Some b) s3"
    have ab: "a \<noteq> b" "a \<notin> set (nodes lr)" "a \<notin> set (nodes r)" "b \<notin> set (nodes lr)" "b \<notin> set (nodes r)"
      "a \<notin> set (nodes ll)" "b \<notin> set (nodes ll)"
      using assms(2) 1 by auto
    have s: "s' = (if mdb_root s4 = Some a then set_root (Some b) s4 else s4)" "p' = Some b"
      using assms(1,3) 1 True by (auto simp: mdb_skew_def Let_def s2_def s3_def s4_def word_unat_eq_iff)
    have fr: "tree_at K s2 q u = tree_at K s q u" "tree_at K s3 q u = tree_at K s q u"
      if "u \<in> {ll, lr, r}" for q u
      using ab that s2 s3 by (auto intro!: tree_at_frame [where A = "{a, b}"])
    have "half_at K s2 a n lr r"
      using assms(1) 1 ab fr by (simp add: half_at_def) (simp add: s2_def)
    then have "tree_at K s3 (Some a) (Node lr (a, n) r)"
      unfolding s3_def using ab by (intro update_end_tree)
    then have "half_at K s3 b m ll (Node lr (a, n) r)"
      using assms(1) 1 ab fr by (simp add: half_at_def) (simp add: s3_def s2_def)
    then have "tree_at K s4 (Some b) (Node ll (b, m) (Node lr (a, n) r))"
      unfolding s4_def using ab by (intro update_end_tree) auto
    moreover have "tree_at K s' q u = tree_at K s4 q u" for q u
      by (rule tree_at_cong) (simp add: s)
    ultimately have tree: "tree_at K s' p' (aa_skew t)" using 1 True s by (simp del: tree_at.simps)
    have pa: "p = Some a" using assms(1) 1 by simp
    show ?thesis
    proof (rule step_rotI [OF tree])
      show "ctes s' x = ctes s x" if "x \<notin> set (nodes t)" for x
        using that 1 s3 by (simp add: s s4_def)
    qed (simp_all add: same_data_def s pa s4_def s3_def s2_def)
  qed
qed (use assms in \<open>auto simp: mdb_skew_def intro!: step_refl\<close>)

lemma unat_Suc_u8: "Suc (unat (w :: u8)) < 256 \<Longrightarrow> unat (w + 1) = Suc (unat w)"
  by (simp add: unat_word_ariths)

lemma split_step:
  assumes "tree_at K s p t" "distinct (nodes t)" "lvls_le 255 t" "mdb_split K p s = (p', s')"
  shows "step K (set (nodes t)) s p s' p' (aa_split t)"
proof (cases t rule: aa_split.cases)
  case (1 l a n rl b m x c k y)
  show ?thesis
  proof (cases "n = k")
    case False
    have "n_level (ctes s a) \<noteq> n_level (ctes s c)" using False assms(1) 1 by auto
    with assms(1,4) 1 have "p' = p" "s' = s" by (auto simp: mdb_split_def)
    with False 1 assms(1) show ?thesis by (auto intro!: step_refl)
  next
    case True
    define X where "X = Node x (c, k) y"
    define s2 where "s2 = upd_cte b (n_level_update (\<lambda>n. n + 1)) (upd_cte b (n_left_update (\<lambda>_. Some a))
      (upd_cte a (n_right_update (\<lambda>_. n_left (ctes s b))) s))"
    have s2: "ctes s2 x = ctes s x" if "x \<notin> {a, b}" for x using that by (simp add: s2_def)
    define s3 where "s3 = mdb_update_end K (Some a) s2"
    have s3: "ctes s3 x = ctes s x" if "x \<notin> {a, b}" for x using that s2 by (simp add: s3_def)
    define s4 where "s4 = mdb_update_end K (Some b) s3"
    have ab: "a \<noteq> b" "a \<notin> set (nodes l)" "a \<notin> set (nodes rl)" "b \<notin> set (nodes l)" "b \<notin> set (nodes rl)"
      "a \<notin> set (nodes X)" "b \<notin> set (nodes X)"
      using assms(2) 1 by (auto simp: X_def)
    have s: "s' = (if mdb_root s4 = Some a then set_root (Some b) s4 else s4)" "p' = Some b"
      using assms(1,4) 1 True by (auto simp: mdb_split_def Let_def s2_def s3_def s4_def word_unat_eq_iff)
    have fr: "tree_at K s2 q u = tree_at K s q u" "tree_at K s3 q u = tree_at K s q u"
      if "u \<in> {l, rl, X}" for q u
      using ab that s2 s3 by (auto intro!: tree_at_frame [where A = "{a, b}"])
    have h: "n = Suc (unat (n_level (ctes s a)))" "m = Suc (unat (n_level (ctes s b)))" "p = Some a"
      "tree_at K s (n_left (ctes s a)) l" "n_right (ctes s a) = Some b"
      "tree_at K s (n_left (ctes s b)) rl" "tree_at K s (n_right (ctes s b)) X"
      using assms(1) 1 by (simp_all add: X_def)
    have "half_at K s2 a n l rl"
      using h ab fr by (simp add: half_at_def) (simp add: s2_def)
    then have "tree_at K s3 (Some a) (Node l (a, n) rl)"
      unfolding s3_def using ab by (intro update_end_tree)
    moreover have "Suc m = Suc (unat (n_level (ctes s3 b)))"
      using assms(3) 1 h ab by (simp add: s3_def s2_def unat_Suc_u8)
    moreover have "n_left (ctes s3 b) = Some a" "n_right (ctes s3 b) = n_right (ctes s b)"
      using ab by (simp_all add: s3_def s2_def)
    ultimately have "half_at K s3 b (Suc m) (Node l (a, n) rl) X"
      using h fr by (simp add: half_at_def del: tree_at.simps)
    then have "tree_at K s4 (Some b) (Node (Node l (a, n) rl) (b, Suc m) X)"
      unfolding s4_def using ab by (intro update_end_tree) auto
    moreover have "tree_at K s' q u = tree_at K s4 q u" for q u
      by (rule tree_at_cong) (simp add: s)
    ultimately have tree: "tree_at K s' p' (aa_split t)" using 1 True s by (simp add: X_def del: tree_at.simps)
    show ?thesis
    proof (rule step_rotI [OF tree])
      show "ctes s' x = ctes s x" if "x \<notin> set (nodes t)" for x
        using that 1 s3 by (simp add: s s4_def)
    qed (simp_all add: same_data_def s h(3) s4_def s3_def s2_def)
  qed
qed (use assms in \<open>auto simp: mdb_split_def intro!: step_refl\<close>)

section \<open>Replacing the subtree at a location\<close>

fun loc_owner :: "loc \<Rightarrow> addr set" where
  "loc_owner (LeftOf a) = {a}"
| "loc_owner (RightOf a) = {a}"
| "loc_owner _ = {}"

lemma read_write_loc [simp]: "read_loc (write_loc l p s) l = p"
  by (cases l) auto

lemma read_loc_update_end [simp]: "read_loc (mdb_update_end K p s) l = read_loc s l"
  by (cases l) auto

lemma ctes_write_loc: "b \<notin> loc_owner l \<Longrightarrow> ctes (write_loc l p s) b = ctes s b"
  by (cases l) auto

lemma write_loc_simps [simp]:
  "cap (ctes (write_loc l p s) b) = cap (ctes s b)"
  "n_level (ctes (write_loc l p s) b) = n_level (ctes s b)"
  "erase_node (ctes (write_loc l p s) b) = erase_node (ctes s b)"
  "kcb_root (write_loc l p s) = kcb_root s"
  "mdb_root (write_loc l p s) = (if l = MdbRoot then p else mdb_root s)"
  "tmp (write_loc l p s) = (if l = Tmp then p else tmp s)"
  by (cases l; simp)+

lemma same_data_write_loc [simp]: "same_data s (write_loc l p s)"
  by (simp add: same_data_def)

lemma ctes_write_loc_cong: "ctes s b = ctes s' b \<Longrightarrow> ctes (write_loc l p s) b = ctes (write_loc l p s') b"
  by (cases l) auto

text \<open>
  \<open>moved K A l s s' t'\<close>: from \<open>s\<close> to \<open>s'\<close> the location \<open>l\<close> has received the tree \<open>t'\<close>;
  apart from that only tree fields of the slots in \<open>A\<close> have changed.
\<close>

definition moved :: "'c cap_ops \<Rightarrow> addr set \<Rightarrow> loc \<Rightarrow> 'c mdb \<Rightarrow> 'c mdb \<Rightarrow> atree \<Rightarrow> bool" where
  "moved K A l s s' t' \<longleftrightarrow>
     tree_at K s' (read_loc s' l) t' \<and> same_data s s' \<and>
     (\<forall>b. b \<notin> A \<longrightarrow> ctes s' b = ctes (write_loc l (read_loc s' l) s) b) \<and>
     mdb_root s' = mdb_root (write_loc l (read_loc s' l) s) \<and>
     (if l = MdbRoot
      then mdb_root s \<noteq> None \<and> mdb_root s' \<noteq> None \<and> kcb_root s = mdb_root s \<longrightarrow> kcb_root s' = mdb_root s'
      else kcb_root s' = kcb_root s)"

lemma movedD:
  assumes "moved K A l s s' t'"
  shows "tree_at K s' (read_loc s' l) t'" "same_data s s'"
    "\<And>b. b \<notin> A \<Longrightarrow> ctes s' b = ctes (write_loc l (read_loc s' l) s) b"
    "l \<noteq> MdbRoot \<Longrightarrow> mdb_root s' = mdb_root s" "l \<noteq> MdbRoot \<Longrightarrow> kcb_root s' = kcb_root s"
    "l \<noteq> MdbRoot \<Longrightarrow> mdb_root s' = mdb_root s"
  using assms unfolding moved_def by (simp_all split: if_splits)

lemma moved_frame: "moved K A l s s' t' \<Longrightarrow> b \<notin> loc_owner l \<union> A \<Longrightarrow> ctes s' b = ctes s b"
  using movedD(3) [of K A l s s' t' b] ctes_write_loc [of b l] by simp

lemma moved_left:
  assumes "tree_at K s (Some a) (Node l (a, n) r)" "moved K A (LeftOf a) s s1 l'" "A \<inter> insert a (set (nodes r)) = {}"
    and "a \<notin> set (nodes r)"
  shows "half_at K s1 a n l' r" "\<And>b. b \<notin> insert a A \<Longrightarrow> ctes s1 b = ctes s b" "same_data s s1"
    "mdb_root s1 = mdb_root s" "kcb_root s1 = kcb_root s"
proof -
  show fr: "\<And>b. b \<notin> insert a A \<Longrightarrow> ctes s1 b = ctes s b"
    using moved_frame [OF assms(2)] by simp
  have "tree_at K s1 p r = tree_at K s p r" for p
    using assms(3,4) fr by (intro tree_at_frame [where A = "insert a A"]) auto
  moreover have a: "ctes s1 a = (ctes s a)\<lparr>n_left := n_left (ctes s1 a)\<rparr>"
    using movedD(3) [OF assms(2), of a] assms(3) by simp
  have "n_level (ctes s1 a) = n_level (ctes s a)" "n_right (ctes s1 a) = n_right (ctes s a)"
    using arg_cong [OF a, of n_level] arg_cong [OF a, of n_right] by simp_all
  ultimately show "half_at K s1 a n l' r"
    using assms(1) movedD(1) [OF assms(2)] by (simp add: half_at_def)
qed (use movedD [OF assms(2)] in simp_all)

lemma moved_right:
  assumes "tree_at K s (Some a) (Node l (a, n) r)" "moved K A (RightOf a) s s1 r'" "A \<inter> insert a (set (nodes l)) = {}"
    and "a \<notin> set (nodes l)"
  shows "half_at K s1 a n l r'" "\<And>b. b \<notin> insert a A \<Longrightarrow> ctes s1 b = ctes s b" "same_data s s1"
    "mdb_root s1 = mdb_root s" "kcb_root s1 = kcb_root s"
proof -
  show fr: "\<And>b. b \<notin> insert a A \<Longrightarrow> ctes s1 b = ctes s b"
    using moved_frame [OF assms(2)] by simp
  have "tree_at K s1 p l = tree_at K s p l" for p
    using assms(3,4) fr by (intro tree_at_frame [where A = "insert a A"]) auto
  moreover have a: "ctes s1 a = (ctes s a)\<lparr>n_right := n_right (ctes s1 a)\<rparr>"
    using movedD(3) [OF assms(2), of a] assms(3) by simp
  have "n_level (ctes s1 a) = n_level (ctes s a)" "n_left (ctes s1 a) = n_left (ctes s a)"
    using arg_cong [OF a, of n_level] arg_cong [OF a, of n_left] by simp_all
  ultimately show "half_at K s1 a n l r'"
    using assms(1) movedD(1) [OF assms(2)] by (simp add: half_at_def)
qed (use movedD [OF assms(2)] in simp_all)

lemma moved_top:
  assumes "step K A s1 (Some a) s2 p2 t'" "\<And>b. b \<notin> A \<Longrightarrow> ctes s1 b = ctes s b" "same_data s s1"
    and "mdb_root s1 = mdb_root s" "kcb_root s1 = kcb_root s" "loc_owner l \<inter> A = {}" "set (nodes t') \<subseteq> A"
    and "if l = MdbRoot then mdb_root s = Some a else mdb_root s \<notin> Some ` A" "a \<in> A"
  shows "moved K A l s (write_loc l p2 s2) t'"
proof -
  have "tree_at K (write_loc l p2 s2) p2 t' = tree_at K s2 p2 t'"
    using assms(6,7) by (intro tree_at_frame [where A = "loc_owner l"]) (auto simp: ctes_write_loc)
  moreover have "ctes (write_loc l p2 s2) b = ctes (write_loc l p2 s) b" if "b \<notin> A" for b
    using assms(1,2) that by (intro ctes_write_loc_cong) (simp add: step_def)
  moreover have "same_data s (write_loc l p2 s2)"
    using assms(1,3) by (auto simp: step_def intro: same_data_trans)
  moreover have "mdb_root s \<noteq> Some a" if "l \<noteq> MdbRoot" using assms(8,9) that by auto
  ultimately show ?thesis
    using assms(1,4,5,8) by (auto simp: moved_def step_def split: if_splits)
qed

section \<open>Insertion\<close>

abbreviation key_of :: "'c cap_ops \<Rightarrow> 'c mdb \<Rightarrow> addr \<Rightarrow> nat list" where
  "key_of K s \<equiv> (\<lambda>a. cte_key K (cte_cap s a) True)"

text \<open>A slot that is not in a tree.\<close>

definition detached :: "'c cte \<Rightarrow> bool" where
  "detached c \<longleftrightarrow> n_left c = None \<and> n_right c = None \<and> n_level c = 0"

lemma skew_split_step:
  assumes "tree_at K s (Some a) t" "distinct (nodes t)" "lvls_le 255 t"
    and "mdb_root s = Some a \<or> mdb_root s \<notin> Some ` set (nodes t)"
    and "mdb_skew K (Some a) s = (p1, s1)" "mdb_split K p1 s1 = (p2, s2)"
  shows "step K (set (nodes t)) s (Some a) s2 p2 (aa_split (aa_skew t))"
proof -
  have 1: "step K (set (nodes t)) s (Some a) s1 p1 (aa_skew t)"
    using skew_step [OF assms(1,2,5)] .
  then have t1: "tree_at K s1 p1 (aa_skew t)" by (simp add: step_def)
  have 2: "step K (set (nodes t)) s1 p1 s2 p2 (aa_split (aa_skew t))"
    using split_step [OF t1 _ _ assms(6)] assms(2,3) by (simp add: lvls_le_skew)
  have "t \<noteq> Leaf" using assms(1) by auto
  with tree_at_nonempty [OF t1] have "p1 \<in> Some ` set (nodes t)" by auto
  with step_trans [OF 1 2] assms(4) show ?thesis by simp
qed

lemma insert_leaf:
  assumes "read_loc s l = None" "x \<notin> loc_owner l" "detached (ctes s x)"
  shows "\<exists>s'. mdb_sub_insert K x l s = Some (SYS_ERR_OK, s') \<and> moved K {x} l s s' (Node Leaf (x, 1) Leaf)"
proof -
  let ?s1 = "write_loc l (Some x) s"
  let ?s2 = "mdb_update_end K (Some x) ?s1"
  have "half_at K ?s1 x 1 Leaf Leaf"
    using assms by (simp add: half_at_def ctes_write_loc detached_def)
  then have "tree_at K ?s2 (Some x) (Node Leaf (x, 1) Leaf)" by (rule update_end_tree) auto
  moreover have "same_data s ?s2" by (simp add: same_data_def)
  ultimately have "moved K {x} l s ?s2 (Node Leaf (x, 1) Leaf)"
    using assms(1) by (cases l) (simp_all add: moved_def del: tree_at.simps)
  with assms(1) show ?thesis by (simp add: mdb_sub_insert.simps)
qed

lemma insert_finish:
  assumes h: "half_at K s1 a n l r" and d: "distinct (nodes (Node l (a, n) r))" and lv: "lvls_le 255 (Node l (a, n) r)"
    and fr: "\<And>b. b \<notin> set (nodes (Node l (a, n) r)) \<Longrightarrow> ctes s1 b = ctes s b" "same_data s s1"
      "mdb_root s1 = mdb_root s" "kcb_root s1 = kcb_root s"
    and loc: "loc_owner c \<inter> set (nodes (Node l (a, n) r)) = {}"
      "if c = MdbRoot then mdb_root s = Some a else mdb_root s \<notin> Some ` set (nodes (Node l (a, n) r))"
    and run: "mdb_skew K (Some a) (mdb_update_end K (Some a) s1) = (p2, s2)" "mdb_split K p2 s2 = (p3, s3)"
  shows "moved K (set (nodes (Node l (a, n) r))) c s (write_loc c p3 s3) (aa_split (aa_skew (Node l (a, n) r)))"
proof -
  let ?t = "Node l (a, n) r" and ?s = "mdb_update_end K (Some a) s1"
  have tree: "tree_at K ?s (Some a) ?t" using h d by (intro update_end_tree) auto
  have "mdb_root ?s = Some a \<or> mdb_root ?s \<notin> Some ` set (nodes ?t)" using loc(2) fr(3) by (auto split: if_splits)
  from skew_split_step [OF tree d lv this run]
  show ?thesis
  proof (rule moved_top)
    show "ctes ?s b = ctes s b" if "b \<notin> set (nodes ?t)" for b using that fr(1) [OF that] by simp
    show "same_data s ?s" using fr(2) by (rule same_data_trans) (simp add: same_data_def)
  qed (use fr loc in auto)
qed

lemma sub_insert_left:
  assumes tree: "tree_at K s (Some a) (Node l (a, n) r)" "read_loc s c = Some a" "aa_ok (Node l (a, n) r)" "n \<le> 250"
    and dist: "distinct (nodes (Node l (a, n) r))" "x \<notin> set (nodes (Node l (a, n) r))" "ordered (key_of K s) (nodes l)"
    and loc: "loc_owner c \<inter> insert x (set (nodes (Node l (a, n) r))) = {}"
      "if c = MdbRoot then mdb_root s = Some a else mdb_root s \<notin> Some ` insert x (set (nodes (Node l (a, n) r)))"
    and less: "key_of K s x < key_of K s a" and ins: "aa_insert (key_of K s) x l = Some l'"
    and s1: "mdb_sub_insert K x (LeftOf a) s = Some (SYS_ERR_OK, s1)" "moved K (insert x (set (nodes l))) (LeftOf a) s s1 l'"
  shows "\<exists>s'. mdb_sub_insert K x c s = Some (SYS_ERR_OK, s') \<and>
    moved K (insert x (set (nodes (Node l (a, n) r)))) c s s' (aa_split (aa_skew (Node l' (a, n) r)))"
proof -
  note m = moved_left [OF tree(1) s1(2)]
  obtain p2 s2 where 2: "mdb_skew K (Some a) (mdb_update_end K (Some a) s1) = (p2, s2)" by fastforce
  obtain p3 s3 where 3: "mdb_split K p2 s2 = (p3, s3)" by fastforce
  have g: "grown l l'" using aa_insert_grown [OF _ ins] tree(3) by simp
  have set: "set (nodes l') = insert x (set (nodes l))" using aa_insert_set [OF ins] .
  have "distinct (nodes l')" using aa_insert_ordered [OF dist(3) ins] by (rule ordered_distinct)
  then have d: "distinct (nodes (Node l' (a, n) r))" using dist set by auto
  have lv: "lvls_le 255 (Node l' (a, n) r)"
    using g tree(3,4) aa_ok_lvls [of l'] aa_ok_lvls [of r] by (auto simp: grown_def elim!: lvls_le_mono)
  have "moved K (set (nodes (Node l' (a, n) r))) c s (write_loc c p3 s3) (aa_split (aa_skew (Node l' (a, n) r)))"
  proof (rule insert_finish [OF _ d lv _ _ _ _ _ _ 2 3])
    show "half_at K s1 a n l' r" using m(1) dist by auto
    show "ctes s1 b = ctes s b" if "b \<notin> set (nodes (Node l' (a, n) r))" for b
      using that set m(2) dist by auto
  qed (use m(3-5) dist set loc in auto)
  moreover have "set (nodes (Node l' (a, n) r)) = insert x (set (nodes (Node l (a, n) r)))" using set by auto
  ultimately show ?thesis
    using s1(1) less tree(2) 2 3 compare_caps_iff [of K "cte_cap s x" "cte_cap s a" True]
    by (simp add: mdb_sub_insert.simps [of K x c] insert_commute)
qed

lemma sub_insert_right:
  assumes tree: "tree_at K s (Some a) (Node l (a, n) r)" "read_loc s c = Some a" "aa_ok (Node l (a, n) r)" "n \<le> 250"
    and dist: "distinct (nodes (Node l (a, n) r))" "x \<notin> set (nodes (Node l (a, n) r))" "ordered (key_of K s) (nodes r)"
    and loc: "loc_owner c \<inter> insert x (set (nodes (Node l (a, n) r))) = {}"
      "if c = MdbRoot then mdb_root s = Some a else mdb_root s \<notin> Some ` insert x (set (nodes (Node l (a, n) r)))"
    and less: "key_of K s a < key_of K s x" and ins: "aa_insert (key_of K s) x r = Some r'"
    and s1: "mdb_sub_insert K x (RightOf a) s = Some (SYS_ERR_OK, s1)" "moved K (insert x (set (nodes r))) (RightOf a) s s1 r'"
  shows "\<exists>s'. mdb_sub_insert K x c s = Some (SYS_ERR_OK, s') \<and>
    moved K (insert x (set (nodes (Node l (a, n) r)))) c s s' (aa_split (aa_skew (Node l (a, n) r')))"
proof -
  note m = moved_right [OF tree(1) s1(2)]
  obtain p2 s2 where 2: "mdb_skew K (Some a) (mdb_update_end K (Some a) s1) = (p2, s2)" by fastforce
  obtain p3 s3 where 3: "mdb_split K p2 s2 = (p3, s3)" by fastforce
  have g: "grown r r'" using aa_insert_grown [OF _ ins] tree(3) by simp
  have set: "set (nodes r') = insert x (set (nodes r))" using aa_insert_set [OF ins] .
  have "distinct (nodes r')" using aa_insert_ordered [OF dist(3) ins] by (rule ordered_distinct)
  then have d: "distinct (nodes (Node l (a, n) r'))" using dist set by auto
  have lv: "lvls_le 255 (Node l (a, n) r')"
    using g tree(3,4) aa_ok_lvls [of r'] aa_ok_lvls [of l] by (auto simp: grown_def elim!: lvls_le_mono)
  have "moved K (set (nodes (Node l (a, n) r'))) c s (write_loc c p3 s3) (aa_split (aa_skew (Node l (a, n) r')))"
  proof (rule insert_finish [OF _ d lv _ _ _ _ _ _ 2 3])
    show "half_at K s1 a n l r'" using m(1) dist by auto
    show "ctes s1 b = ctes s b" if "b \<notin> set (nodes (Node l (a, n) r'))" for b
      using that set m(2) dist by auto
  qed (use m(3-5) dist set loc in auto)
  moreover have ng: "\<not> key_of K s x < key_of K s a" using less by (rule less_not_sym)
  moreover have "set (nodes (Node l (a, n) r')) = insert x (set (nodes (Node l (a, n) r)))" using set by auto
  ultimately show ?thesis
    using s1(1) less ng tree(2) 2 3 compare_caps_iff [of K "cte_cap s x" "cte_cap s a" True]
    by (simp add: mdb_sub_insert.simps [of K x c] insert_commute)
qed

lemma sub_insert_refines:
  assumes "tree_at K s (read_loc s c) t" "ordered (key_of K s) (nodes t)" "aa_ok t" "lvl t \<le> 250"
    and "x \<notin> set (nodes t)" "detached (ctes s x)" "loc_owner c \<inter> insert x (set (nodes t)) = {}"
    and "if c = MdbRoot then True else mdb_root s \<notin> Some ` insert x (set (nodes t))"
  shows "case aa_insert (key_of K s) x t of
      None \<Rightarrow> mdb_sub_insert K x c s = Some (CAPS_ERR_MDB_DUPLICATE_ENTRY, s)
    | Some t' \<Rightarrow> \<exists>s'. mdb_sub_insert K x c s = Some (SYS_ERR_OK, s') \<and> moved K (insert x (set (nodes t))) c s s' t'"
  using assms
proof (induction t arbitrary: c rule: atree_induct)
  case Leaf
  then show ?case using insert_leaf [of s c x K] by simp
next
  case (Node l a n r)
  have p: "read_loc s c = Some a" and tree: "tree_at K s (Some a) (Node l (a, n) r)" using Node.prems(1) by auto
  have sub: "ordered (key_of K s) (nodes l)" "ordered (key_of K s) (nodes r)" "aa_ok l" "aa_ok r"
    "lvl l \<le> 250" "lvl r \<le> 250" "n \<le> 250"
    and dist: "distinct (nodes (Node l (a, n) r))"
    using Node.prems(2-4) ordered_distinct [OF Node.prems(2)] by (auto simp: sorted_wrt_append)
  have ax: "a \<noteq> x" using Node.prems(5) by auto
  have root: "if c = MdbRoot then mdb_root s = Some a else mdb_root s \<notin> Some ` insert x (set (nodes (Node l (a, n) r)))"
    using Node.prems(8) p by auto
  have nroot: "mdb_root s \<notin> Some ` insert x (set (nodes l))" "mdb_root s \<notin> Some ` insert x (set (nodes r))"
    using root Node.prems(5) dist by (auto split: if_splits)
  note cmp = compare_caps_iff [of K "cte_cap s x" "cte_cap s a" True]
  show ?case
  proof (cases "key_of K s x" "key_of K s a" rule: linorder_cases)
    case less
    have IH: "case aa_insert (key_of K s) x l of
        None \<Rightarrow> mdb_sub_insert K x (LeftOf a) s = Some (CAPS_ERR_MDB_DUPLICATE_ENTRY, s)
      | Some t' \<Rightarrow> \<exists>s'. mdb_sub_insert K x (LeftOf a) s = Some (SYS_ERR_OK, s') \<and>
          moved K (insert x (set (nodes l))) (LeftOf a) s s' t'"
      using Node.prems(5,6) tree sub nroot(1) dist ax by (intro Node.IH(1)) auto
    show ?thesis
      using IH less p cmp
        sub_insert_left [OF tree p Node.prems(3) sub(7) dist Node.prems(5) sub(1) Node.prems(7) root less]
      by (cases "aa_insert (key_of K s) x l") (auto simp: mdb_sub_insert.simps [of K x c])
  next
    case greater
    then have ng: "\<not> key_of K s x < key_of K s a" by (rule less_not_sym)
    have IH: "case aa_insert (key_of K s) x r of
        None \<Rightarrow> mdb_sub_insert K x (RightOf a) s = Some (CAPS_ERR_MDB_DUPLICATE_ENTRY, s)
      | Some t' \<Rightarrow> \<exists>s'. mdb_sub_insert K x (RightOf a) s = Some (SYS_ERR_OK, s') \<and>
          moved K (insert x (set (nodes r))) (RightOf a) s s' t'"
      using Node.prems(5,6) tree sub nroot(2) dist ax by (intro Node.IH(2)) auto
    show ?thesis
      using IH greater ng p cmp
        sub_insert_right [OF tree p Node.prems(3) sub(7) dist Node.prems(5) sub(2) Node.prems(7) root greater]
      by (cases "aa_insert (key_of K s) x r") (auto simp: mdb_sub_insert.simps [of K x c])
  next
    case equal
    then show ?thesis using p by (simp add: mdb_sub_insert.simps [of K x c] cmp)
  qed
qed

text \<open>Inserting a slot that is already there changes nothing.\<close>

lemma sub_insert_duplicate:
  assumes "tree_at K s (read_loc s c) t" "ordered (key_of K s) (nodes t)" "x \<in> set (nodes t)"
  shows "mdb_sub_insert K x c s = Some (CAPS_ERR_MDB_DUPLICATE_ENTRY, s)"
  using assms
proof (induction t arbitrary: c rule: atree_induct)
  case (Node l a n r)
  have p: "read_loc s c = Some a" and tree: "tree_at K s (n_left (ctes s a)) l" "tree_at K s (n_right (ctes s a)) r"
    using Node.prems(1) by auto
  have sub: "ordered (key_of K s) (nodes l)" "ordered (key_of K s) (nodes r)"
    and lt: "\<And>b. b \<in> set (nodes l) \<Longrightarrow> key_of K s b < key_of K s a" "\<And>b. b \<in> set (nodes r) \<Longrightarrow> key_of K s a < key_of K s b"
    using Node.prems(2) by (auto simp: sorted_wrt_append)
  note cmp = compare_caps_iff [of K "cte_cap s x" "cte_cap s a" True]
  consider "x = a" | "x \<in> set (nodes l)" | "x \<in> set (nodes r)" using Node.prems(3) by auto
  then show ?case
  proof cases
    case 1
    with p show ?thesis by (simp add: mdb_sub_insert.simps [of K a c] compare_caps_iff)
  next
    case 2
    with Node.IH(1) [of "LeftOf a"] tree sub have "mdb_sub_insert K x (LeftOf a) s = Some (CAPS_ERR_MDB_DUPLICATE_ENTRY, s)"
      by simp
    with lt(1) [OF 2] p show ?thesis by (simp add: mdb_sub_insert.simps [of K x c] cmp)
  next
    case 3
    with Node.IH(2) [of "RightOf a"] tree sub have "mdb_sub_insert K x (RightOf a) s = Some (CAPS_ERR_MDB_DUPLICATE_ENTRY, s)"
      by simp
    with lt(2) [OF 3] less_not_sym [OF lt(2) [OF 3]] p show ?thesis by (simp add: mdb_sub_insert.simps [of K x c] cmp)
  qed
qed simp

section \<open>The database\<close>

text \<open>
  The invariant of the whole database: the tree \<open>t\<close> hangs off \<^verbatim>\<open>mdb_root\<close>, is ordered and
  balanced, and its slots have 64-bit addresses.
\<close>

definition mdb_ok :: "'c cap_ops \<Rightarrow> 'c mdb \<Rightarrow> atree \<Rightarrow> bool" where
  "mdb_ok K s t \<longleftrightarrow>
     tree_at K s (mdb_root s) t \<and> ordered (key_of K s) (nodes t) \<and> aa_ok t \<and> (\<forall>a \<in> set (nodes t). a < 2 ^ 64)"

lemma mdb_okD:
  assumes "mdb_ok K s t"
  shows "tree_at K s (mdb_root s) t" "ordered (key_of K s) (nodes t)" "aa_ok t" "\<forall>a \<in> set (nodes t). a < 2 ^ 64"
    "distinct (nodes t)" "lvl t \<le> 64"
proof -
  show ok: "tree_at K s (mdb_root s) t" "ordered (key_of K s) (nodes t)" "aa_ok t" "\<forall>a \<in> set (nodes t). a < 2 ^ 64"
    using assms by (simp_all add: mdb_ok_def)
  from ok(2) show "distinct (nodes t)" by (rule ordered_distinct)
  with aa_lvl_bound ok(3,4) show "lvl t \<le> 64" by blast
qed

lemma insert_ok:
  assumes "mdb_ok K s t" "x \<notin> set (nodes t)" "x < 2 ^ 64" "detached (ctes s x)"
  shows "\<exists>s' t'. mdb_insert K x s = Some (SYS_ERR_OK, s') \<and> aa_insert (key_of K s) x t = Some t' \<and>
    mdb_ok K s' t' \<and> set (nodes t') = insert x (set (nodes t)) \<and> same_data s s' \<and>
    (\<forall>b. b \<notin> insert x (set (nodes t)) \<longrightarrow> ctes s' b = ctes s b) \<and>
    (t \<noteq> Leaf \<and> kcb_root s = mdb_root s \<longrightarrow> kcb_root s' = mdb_root s')"
proof -
  note ok = mdb_okD [OF assms(1)]
  have "\<forall>a \<in> set (nodes t). key_of K s a \<noteq> key_of K s x"
    using assms(2) cte_key_inj by metis
  then obtain t' where t': "aa_insert (key_of K s) x t = Some t'"
    using aa_insert_None [OF ok(2), of x] by (cases "aa_insert (key_of K s) x t") auto
  with sub_insert_refines [of K s MdbRoot t x] ok assms(2,4) obtain s' where
    s': "mdb_insert K x s = Some (SYS_ERR_OK, s')" and m: "moved K (insert x (set (nodes t))) MdbRoot s s' t'"
    by (auto simp: mdb_insert_def)
  note caps = same_data_cap [OF movedD(2) [OF m]]
  have nodes: "set (nodes t') = insert x (set (nodes t))" using aa_insert_set [OF t'] .
  have "mdb_ok K s' t'"
    using movedD(1) [OF m] aa_insert_ordered [OF ok(2) t'] aa_insert_grown [OF ok(3) t'] ok(4) assms(3) nodes
    unfolding mdb_ok_def caps by (simp add: grown_def)
  moreover have "mdb_root s' \<noteq> None" using movedD(1) [OF m] nodes by (cases "mdb_root s'") auto
  moreover have "mdb_root s \<noteq> None" if "t \<noteq> Leaf" using ok(1) that by (cases "mdb_root s") auto
  ultimately show ?thesis
    using s' t' nodes movedD(2) [OF m] moved_frame [OF m] m by (auto simp: moved_def)
qed

text \<open>
  C2. Inserting a detached slot into the database succeeds: no assertion fails and no pointer is
  \<^verbatim>\<open>NULL\<close>, the new tree is the one that insertion into an AA tree gives, the database stays ordered,
  balanced and with right ends, and everything but the links of its slots is unchanged.  The root in the kernel
  control block stays in step if the database was not empty.
\<close>

theorem mdb_insert_refines:
  assumes "mdb_ok K s t" "x \<notin> set (nodes t)" "x < 2 ^ 64" "detached (ctes s x)"
  shows "\<exists>s' t'. mdb_insert K x s = Some (SYS_ERR_OK, s') \<and> aa_insert (key_of K s) x t = Some t' \<and>
    mdb_ok K s' t' \<and> set (nodes t') = insert x (set (nodes t)) \<and> same_data s s' \<and>
    (\<forall>b. b \<notin> insert x (set (nodes t)) \<longrightarrow> ctes s' b = ctes s b) \<and>
    (t \<noteq> Leaf \<and> kcb_root s = mdb_root s \<longrightarrow> kcb_root s' = mdb_root s')"
  using insert_ok [OF assms] by blast

text \<open>
  Inserting a slot that is in the database is reported as a duplicate and leaves the
  state as it was.
\<close>

theorem mdb_insert_duplicate:
  assumes "mdb_ok K s t" "x \<in> set (nodes t)"
  shows "mdb_insert K x s = Some (CAPS_ERR_MDB_DUPLICATE_ENTRY, s)"
  using sub_insert_duplicate [of K s MdbRoot t x] mdb_okD [OF assms(1)] assms(2) by (simp add: mdb_insert_def)

definition example_cte :: "nat \<times> u64 \<times> u64 \<Rightarrow> (nat \<times> u64 \<times> u64) cte" where
  "example_cte c = \<lparr>cap = c, n_left = None, n_right = None, n_end = fst (snd c) + snd (snd c), n_end_root = 0, n_level = 0,
     remote_copies = False, remote_ancs = False, remote_descs = False, locked = False, in_delete = False, owner = 0\<rparr>"

definition example_mdb :: "(nat \<times> u64 \<times> u64) mdb" where
  "example_mdb = \<lparr>ctes = (\<lambda>a. if a = 64 then example_cte (1, 0x1000, 0x1000) else example_cte (2, 0x1000, 0x400)),
     mdb_root = Some 64, kcb_root = Some 64, tmp = None\<rparr>"

lemma example_mdb_ok: "mdb_ok example_ops example_mdb (Node Leaf (64, 1) Leaf)"
  by (simp add: mdb_ok_def example_mdb_def example_cte_def ends_at_def max_root_def max_end_def max_end_in_def
      example_ops_def)

theorem mdb_insert_refines_witness:
  "\<exists>s' t'. mdb_insert example_ops 128 example_mdb = Some (SYS_ERR_OK, s') \<and> mdb_ok example_ops s' t' \<and>
    set (nodes t') = {128, 64} \<and> kcb_root s' = mdb_root s'"
  using mdb_insert_refines [OF example_mdb_ok, of 128]
  by (auto simp: example_mdb_def example_cte_def detached_def)

theorem mdb_insert_duplicate_witness:
  "mdb_insert example_ops 64 example_mdb = Some (CAPS_ERR_MDB_DUPLICATE_ENTRY, example_mdb)"
  using mdb_insert_duplicate [OF example_mdb_ok, of 64] by simp

end
