(* ===== verification/Mdb_Context.thy ===== *)
theory Mdb_Context
  imports Mdb_Insert
begin

text \<open>
  Preparations for removal from the capability database: rebalancing a subtree after it may have lost a
  level, trees with a hole, and the reachability check that the code's assertions use.
\<close>

section \<open>Rebalancing\<close>

lemma ends_at_cong:
  assumes "\<And>b. cap (ctes s' b) = cap (ctes s b)" "n_end_root (ctes s' a) = n_end_root (ctes s a)"
    "n_end (ctes s' a) = n_end (ctes s a)"
  shows "ends_at K s' a A = ends_at K s a A"
  using assms by (simp add: ends_at_def)

lemma tree_at_set_lvl:
  assumes "tree_at K s (Some b) t" "distinct (nodes t)" "t \<noteq> Leaf"
  shows "tree_at K (upd_cte b (n_level_update (\<lambda>_. v)) s) (Some b) (set_lvl (Suc (unat v)) t)"
proof (cases t rule: atree_cases)
  case (Node l c m r)
  let ?s = "upd_cte b (n_level_update (\<lambda>_. v)) s"
  have "tree_at K ?s p l = tree_at K s p l" "tree_at K ?s p r = tree_at K s p r" for p
    using assms Node by (auto intro!: tree_at_frame [where A = "{b}"])
  moreover have "ends_at K ?s c A = ends_at K s c A" for A
    by (rule ends_at_cong) auto
  ultimately show ?thesis using assms(1) Node by auto
qed (use assms in simp)

lemma dec_step:
  assumes tree: "tree_at K s (Some a) (Node l (a, n) r)" and dist: "distinct (nodes (Node l (a, n) r))"
    and lv: "lvls_le 255 (Node l (a, n) r)"
  shows "step K (set (nodes (Node l (a, n) r))) s (Some a) (mdb_decrease_level a s) (Some a) (aa_dec (Node l (a, n) r))"
proof -
  define ex where "ex = (case (n_left (ctes s a), n_right (ctes s a)) of
      (Some x, Some y) \<Rightarrow> min (n_level (ctes s x)) (n_level (ctes s y)) + 1 | _ \<Rightarrow> 0)"
  have dec: "mdb_decrease_level a s =
      (if ex < n_level (ctes s a) then
         let s = upd_cte a (n_level_update (\<lambda>_. ex)) s
         in (case n_right (ctes s a) of
               Some r \<Rightarrow> if ex < n_level (ctes s r) then upd_cte r (n_level_update (\<lambda>_. ex)) s else s
             | None \<Rightarrow> s)
       else s)"
    unfolding mdb_decrease_level_def ex_def Let_def ..
  have ex: "Suc (unat ex) = Suc (min (lvl l) (lvl r))"
  proof (cases l rule: atree_cases)
    case Leaf
    then show ?thesis using tree by (simp add: ex_def)
  next
    case l: (Node ll b m lr)
    show ?thesis
    proof (cases r rule: atree_cases)
      case Leaf
      then show ?thesis using tree l by (simp add: ex_def)
    next
      case (Node rl c k rr)
      have "unat (min (n_level (ctes s b)) (n_level (ctes s c))) = min (unat (n_level (ctes s b))) (unat (n_level (ctes s c)))"
        by (simp add: min_def word_le_nat_alt)
      moreover have "Suc (min (unat (n_level (ctes s b))) (unat (n_level (ctes s c)))) < 256"
        using tree lv l Node by auto
      ultimately show ?thesis
        using tree l Node unat_Suc_u8 [of "min (n_level (ctes s b)) (n_level (ctes s c))"] by (simp add: ex_def)
    qed
  qed
  show ?thesis
  proof (cases "Suc (min (lvl l) (lvl r)) < n")
    case False
    then have "\<not> ex < n_level (ctes s a)" using ex tree by (simp add: word_less_nat_alt)
    then have "mdb_decrease_level a s = s" by (simp add: dec)
    with False tree show ?thesis by (simp add: step_refl)
  next
    case True
    then have lt: "ex < n_level (ctes s a)" using ex tree by (simp add: word_less_nat_alt)
    let ?s1 = "upd_cte a (n_level_update (\<lambda>_. ex)) s"
    let ?r = "if Suc (unat ex) < lvl r then set_lvl (Suc (unat ex)) r else r"
    define s2 where "s2 = mdb_decrease_level a s"
    have s2: "s2 = (case n_right (ctes s a) of
        Some y \<Rightarrow> if ex < n_level (ctes s y) then upd_cte y (n_level_update (\<lambda>_. ex)) ?s1 else ?s1 | None \<Rightarrow> ?s1)"
      using lt dist tree
      by (cases r rule: atree_cases) (auto simp: s2_def dec)
    have t1: "tree_at K ?s1 (Some a) (Node l (a, Suc (unat ex)) r)"
      using tree_at_set_lvl [OF tree dist] by simp
    have "tree_at K s2 (Some a) (Node l (a, Suc (unat ex)) ?r) \<and> (\<forall>b. b \<notin> insert a (set (nodes r)) \<longrightarrow> ctes s2 b = ctes s b)"
    proof (cases r rule: atree_cases)
      case Leaf
      with s2 t1 tree show ?thesis by simp
    next
      case (Node rl c k rr)
      show ?thesis
      proof (cases "Suc (unat ex) < k")
        case False
        with s2 t1 tree Node show ?thesis by (auto simp: word_less_nat_alt)
      next
        case True
        then have e2: "s2 = upd_cte c (n_level_update (\<lambda>_. ex)) ?s1"
          using s2 tree Node by (simp add: word_less_nat_alt)
        have "tree_at K s2 (Some c) (set_lvl (Suc (unat ex)) r)"
          unfolding e2 using t1 Node dist by (intro tree_at_set_lvl) auto
        moreover have "tree_at K s2 p l = tree_at K ?s1 p l" for p
          unfolding e2 using dist Node by (intro tree_at_frame [where A = "{c}"]) auto
        moreover have "ends_at K s2 a A = ends_at K ?s1 a A" for A unfolding e2 by (rule ends_at_cong) auto
        moreover have "a \<noteq> c" using dist Node by auto
        ultimately show ?thesis using t1 True Node by (auto simp: e2)
      qed
    qed
    moreover have "same_data s s2" "mdb_root s2 = mdb_root s" "kcb_root s2 = kcb_root s" "tmp s2 = tmp s"
      unfolding s2 by (auto simp: same_data_def split: option.splits)
    moreover have "aa_dec (Node l (a, n) r) = Node l (a, Suc (unat ex)) ?r"
      using True unfolding aa_dec.simps Let_def ex [symmetric] by simp
    ultimately show ?thesis by (simp add: step_def s2_def del: tree_at.simps)
  qed
qed

lemma step_right:
  assumes tree: "tree_at K s (Some a) (Node l (a, n) r)" and dist: "distinct (nodes (Node l (a, n) r))"
    and root: "mdb_root s = Some a \<or> mdb_root s \<notin> Some ` set (nodes (Node l (a, n) r))"
    and st: "step K (set (nodes r)) s (n_right (ctes s a)) s1 p1 r1" and nodes: "set (nodes r1) = set (nodes r)"
  shows "step K (set (nodes (Node l (a, n) r))) s (Some a) (write_loc (RightOf a) p1 s1) (Some a) (Node l (a, n) r1)"
proof -
  let ?s = "write_loc (RightOf a) p1 s1"
  have a: "a \<notin> set (nodes l)" "a \<notin> set (nodes r)" "set (nodes l) \<inter> set (nodes r) = {}" using dist by auto
  have fr: "ctes s1 b = ctes s b" if "b \<notin> set (nodes r)" for b using st that by (simp add: step_def)
  have cap: "cap (ctes s1 b) = cap (ctes s b)" for b using st same_data_cap by (auto simp: step_def)
  have "tree_at K ?s p1 r1 = tree_at K s1 p1 r1"
    using a nodes by (intro tree_at_frame [where A = "{a}"]) auto
  moreover have "tree_at K ?s p l = tree_at K s p l" for p
    using a fr by (intro tree_at_frame [where A = "insert a (set (nodes r))"]) auto
  moreover have "ends_at K ?s a A = ends_at K s a A" for A
    using fr [OF a(2)] cap by (intro ends_at_cong) auto
  ultimately have "tree_at K ?s (Some a) (Node l (a, n) r1)"
    using tree st fr [OF a(2)] nodes by (simp add: step_def)
  moreover have "n_right (ctes s a) = None \<or> mdb_root s \<noteq> n_right (ctes s a)"
    using tree root a by (cases r rule: atree_cases) auto
  moreover have "same_data s s1" using st by (simp add: step_def)
  then have "same_data s ?s" by (rule same_data_trans) (rule same_data_write_loc)
  ultimately show ?thesis using st by (auto simp: step_def split: if_splits)
qed

lemma write_loc_same: "read_loc s l = p \<Longrightarrow> write_loc l p s = s"
  by (cases l) (auto simp: upd_cte_def)

lemma step_inner:
  assumes "tree_at K s (Some a) (Node l (a, n) r)" "distinct (nodes (Node l (a, n) r))"
    and "mdb_root s = Some a \<or> mdb_root s \<notin> Some ` set (nodes (Node l (a, n) r))"
    and "step K (set (nodes r)) s (n_right (ctes s a)) s1 (n_right (ctes s a)) r1" "set (nodes r1) = set (nodes r)"
  shows "step K (set (nodes (Node l (a, n) r))) s (Some a) s1 (Some a) (Node l (a, n) r1)"
proof -
  have "ctes s1 a = ctes s a" using assms(2,4) by (simp add: step_def)
  then have "write_loc (RightOf a) (n_right (ctes s a)) s1 = s1" by (intro write_loc_same) simp
  with step_right [OF assms] show ?thesis by simp
qed

lemma map_right_Leaf [simp]: "map_right f t = Leaf \<longleftrightarrow> t = Leaf"
  by (cases t) auto

lemma dec_Leaf [simp]: "aa_dec t = Leaf \<longleftrightarrow> t = Leaf"
  by (cases t rule: atree_cases) (auto simp: Let_def)

text \<open>A sequence of steps on one subtree with a fixed set of slots.\<close>

definition chain :: "'c cap_ops \<Rightarrow> addr set \<Rightarrow> 'c mdb \<Rightarrow> addr \<Rightarrow> 'c mdb \<Rightarrow> addr \<Rightarrow> atree \<Rightarrow> bool" where
  "chain K A s0 a0 s a t \<longleftrightarrow>
     step K A s0 (Some a0) s (Some a) t \<and> distinct (nodes t) \<and> set (nodes t) = A \<and>
     (mdb_root s0 = Some a0 \<or> mdb_root s0 \<notin> Some ` A)"

lemma chainD:
  assumes "chain K A s0 a0 s a t"
  shows "tree_at K s (Some a) t" "distinct (nodes t)" "set (nodes t) = A"
    "mdb_root s = Some a \<or> mdb_root s \<notin> Some ` A" "t \<noteq> Leaf" "a \<in> A"
proof -
  show ch: "tree_at K s (Some a) t" "distinct (nodes t)" "set (nodes t) = A"
    using assms by (auto simp: chain_def step_def)
  from ch(1) show "t \<noteq> Leaf" by auto
  with ch show "a \<in> A" using tree_at_nonempty [of K s "Some a" t] by auto
  show "mdb_root s = Some a \<or> mdb_root s \<notin> Some ` A"
    using assms by (auto simp: chain_def step_def split: if_splits)
qed

lemma chain_next:
  assumes "chain K A s0 a0 s a t" "step K A s (Some a) s' p' t'" "nodes t' = nodes t"
  obtains b where "p' = Some b" "chain K A s0 a0 s' b t'"
proof -
  note ch = chainD [OF assms(1)]
  have "t' \<noteq> Leaf" using assms(3) ch(5) by (cases t rule: atree_cases) auto
  then obtain b where b: "p' = Some b"
    using assms(2) tree_at_nonempty [of K s' p' t'] by (auto simp: step_def)
  have "step K A s0 (Some a0) s' p' t'"
    using assms(1) ch(6) by (intro step_trans [OF _ assms(2)]) (auto simp: chain_def)
  with b assms ch have "chain K A s0 a0 s' b t'" by (auto simp: chain_def)
  with b that show ?thesis by blast
qed

lemma chain_skew:
  assumes "chain K A s0 a0 s a t" "mdb_skew K (Some a) s = (p', s')"
  obtains b where "p' = Some b" "chain K A s0 a0 s' b (aa_skew t)"
  using skew_step [OF chainD(1,2) [OF assms(1)] assms(2)] chainD(3) [OF assms(1)] chain_next [OF assms(1)]
  by (metis nodes_skew)

lemma chain_split:
  assumes "chain K A s0 a0 s a t" "lvls_le 255 t" "mdb_split K (Some a) s = (p', s')"
  obtains b where "p' = Some b" "chain K A s0 a0 s' b (aa_split t)"
  using split_step [OF chainD(1,2) [OF assms(1)] assms(2,3)] chainD(3) [OF assms(1)] chain_next [OF assms(1)]
  by (metis nodes_split)

lemma chain_right:
  assumes ch: "chain K A s0 a0 s a t" and t: "t = Node l (c, n) r"
    and st: "step K (set (nodes r)) s (n_right (ctes s a)) s1 p1 (f r)" and f: "\<And>r. nodes (f r) = nodes r"
  shows "chain K A s0 a0 (write_loc (RightOf a) p1 s1) a (map_right f t)"
proof -
  note chain = chainD [OF ch, unfolded t]
  then have c: "c = a" by simp
  have root: "mdb_root s = Some a \<or> mdb_root s \<notin> Some ` set (nodes (Node l (a, n) r))"
    using chain(4) unfolding chain(3) [symmetric] c .
  have "step K A s (Some a) (write_loc (RightOf a) p1 s1) (Some a) (Node l (a, n) (f r))"
    using step_right [OF chain(1) [unfolded c] chain(2) [unfolded c] root st] f
    unfolding chain(3) [symmetric] c by simp
  then show ?thesis
    using chain_next [OF ch, of "write_loc (RightOf a) p1 s1" "Some a" "map_right f t"] f
    by (auto simp: t c simp del: write_loc.simps)
qed

lemma chain_skew_right:
  assumes ch: "chain K A s0 a0 s a t" and run: "mdb_skew K (n_right (ctes s a)) s = (p1, s1)"
  shows "chain K A s0 a0 (write_loc (RightOf a) p1 s1) a (map_right aa_skew t)"
proof (cases t rule: atree_cases)
  case (Node l c n r)
  from chainD [OF ch] Node have "tree_at K s (n_right (ctes s a)) r" "distinct (nodes r)" by auto
  from chain_right [where f = aa_skew, OF ch Node skew_step [OF this run]] show ?thesis by simp
qed (use chainD [OF ch] in simp)

lemma chain_split_right:
  assumes ch: "chain K A s0 a0 s a t" and lv: "lvls_le 255 t" and run: "mdb_split K (n_right (ctes s a)) s = (p1, s1)"
  shows "chain K A s0 a0 (write_loc (RightOf a) p1 s1) a (map_right aa_split t)"
proof (cases t rule: atree_cases)
  case (Node l c n r)
  from chainD [OF ch] Node lv have "tree_at K s (n_right (ctes s a)) r" "distinct (nodes r)" "lvls_le 255 r" by auto
  from chain_right [where f = aa_split, OF ch Node split_step [OF this run]] show ?thesis by simp
qed (use chainD [OF ch] in simp)

lemma chain_skew_right_right:
  assumes ch: "chain K A s0 a0 s a t"
  shows "chain K A s0 a0
    (case n_right (ctes s a) of
       None \<Rightarrow> s
     | Some b \<Rightarrow> let (rr, s) = mdb_skew K (n_right (ctes s b)) s in write_loc (RightOf b) rr s)
    a (map_right (map_right aa_skew) t)"
proof (cases t rule: atree_cases)
  case (Node l c n r)
  note chain = chainD [OF ch]
  from chain(1) Node have t: "c = a" "tree_at K s (n_right (ctes s a)) r" by auto
  show ?thesis
  proof (cases r rule: atree_cases)
    case Leaf
    with t Node ch show ?thesis by simp
  next
    case r: (Node rl b m rr)
    with t have b: "n_right (ctes s a) = Some b" by simp
    obtain p1 s1 where 1: "mdb_skew K (n_right (ctes s b)) s = (p1, s1)" by fastforce
    have root: "mdb_root s = Some b \<or> mdb_root s \<notin> Some ` set (nodes r)"
      using chain(2-4) Node t(1) by auto
    have "chain K (set (nodes r)) s b s b r"
      using t(2) b chain(2) Node root by (simp add: chain_def step_refl del: tree_at.simps)
    from chain_skew_right [OF this 1]
    have st: "step K (set (nodes r)) s (n_right (ctes s a)) (write_loc (RightOf b) p1 s1) (n_right (ctes s a)) (map_right aa_skew r)"
      by (simp add: chain_def b)
    note chain = chain [unfolded Node t(1)]
    have "mdb_root s = Some a \<or> mdb_root s \<notin> Some ` set (nodes (Node l (a, n) r))"
      using chain(4) unfolding chain(3) [symmetric] .
    from step_inner [OF chain(1,2) this st]
    have "step K A s (Some a) (write_loc (RightOf b) p1 s1) (Some a) (Node l (a, n) (map_right aa_skew r))"
      unfolding chain(3) [symmetric] by simp
    from chain_next [OF ch this] Node t(1) have
      "chain K A s0 a0 (write_loc (RightOf b) p1 s1) a (Node l (a, n) (map_right aa_skew r))" by auto
    then show ?thesis by (simp only: b option.case 1 Let_def prod.case Node t(1) map_right.simps)
  qed
qed (use chainD [OF ch] in simp)

lemma rebalance_chain:
  assumes half: "half_at K s a n l r" and dist: "distinct (nodes (Node l (a, n) r))" and lv: "lvls_le 250 (Node l (a, n) r)"
    and root: "mdb_root s = Some a \<or> mdb_root s \<notin> Some ` set (nodes (Node l (a, n) r))"
  shows "\<exists>b s'. mdb_rebalance K (Some a) s = Some (b, s') \<and>
    chain K (set (nodes (Node l (a, n) r))) (mdb_update_end K (Some a) s) a s' b (aa_rebalance (Node l (a, n) r))"
proof -
  define t where "t = Node l (a, n) r"
  define A where "A = set (nodes t)"
  define s0 where "s0 = mdb_update_end K (Some a) s"
  have t0: "tree_at K s0 (Some a) t" unfolding s0_def t_def using half dist by (intro update_end_tree) auto
  define s1 where "s1 = mdb_decrease_level a s0"
  have "chain K A s0 a s0 a t"
    using t0 dist root by (simp add: chain_def step_refl A_def t_def [symmetric] s0_def)
  moreover have "step K A s0 (Some a) s1 (Some a) (aa_dec t)"
    unfolding s1_def A_def t_def using t0 [unfolded t_def] dist lvls_le_mono [OF lv, of 255] by (intro dec_step) simp_all
  ultimately have 1: "chain K A s0 a s1 a (aa_dec t)" by (auto elim: chain_next)
  obtain p2 s2 where 2: "mdb_skew K (Some a) s1 = (p2, s2)" by fastforce
  from chain_skew [OF 1 2] obtain b2 where c2: "p2 = Some b2" "chain K A s0 a s2 b2 (aa_skew (aa_dec t))" .
  obtain p3 s3 where 3: "mdb_skew K (n_right (ctes s2 b2)) s2 = (p3, s3)" by fastforce
  define s3' where "s3' = write_loc (RightOf b2) p3 s3"
  note c3 = chain_skew_right [OF c2(2) 3, folded s3'_def]
  define s4 where "s4 = (case n_right (ctes s3' b2) of
       None \<Rightarrow> s3'
     | Some b \<Rightarrow> let (rr, s) = mdb_skew K (n_right (ctes s3' b)) s3' in write_loc (RightOf b) rr s)"
  define t4 where "t4 = map_right (map_right aa_skew) (map_right aa_skew (aa_skew (aa_dec t)))"
  have c4: "chain K A s0 a s4 b2 t4" unfolding s4_def t4_def by (rule chain_skew_right_right [OF c3])
  have lv4: "lvls_le 250 t4"
    unfolding t4_def by (intro lvls_le_map_right lvls_le_skew lvls_le_dec lv [folded t_def])
  obtain p5 s5 where 5: "mdb_split K (Some b2) s4 = (p5, s5)" by fastforce
  from chain_split [OF c4 _ 5] lvls_le_mono [OF lv4, of 255] obtain b5 where
    c5: "p5 = Some b5" "chain K A s0 a s5 b5 (aa_split t4)" by auto
  obtain p6 s6 where 6: "mdb_split K (n_right (ctes s5 b5)) s5 = (p6, s6)" by fastforce
  have "lvls_le 255 (aa_split t4)" using lvls_le_mono [OF lvls_le_split [OF lv4]] by simp
  from chain_split_right [OF c5(2) this 6]
  have "chain K A s0 a (write_loc (RightOf b5) p6 s6) b5 (aa_rebalance t)"
    by (simp only: aa_rebalance_def t4_def)
  moreover have "mdb_rebalance K (Some a) s = Some (b5, write_loc (RightOf b5) p6 s6)"
    using 2 3 5 [unfolded s4_def s3'_def] 6 c2(1) c5(1)
    by (simp add: mdb_rebalance_def Let_def s0_def s1_def del: write_loc.simps)
  ultimately show ?thesis unfolding A_def t_def s0_def by blast
qed

section \<open>Contexts\<close>

text \<open>
  A tree with a hole, innermost node first: whether the hole is on the left of the node, the node, its
  level and its other subtree.  A context starts at a base location, which is \<^verbatim>\<open>mdb_root\<close> for the
  whole tree.
\<close>

type_synonym ctx = "(bool \<times> addr \<times> nat \<times> atree) list"

definition side :: "bool \<Rightarrow> addr \<Rightarrow> loc" where
  "side d a = (if d then LeftOf a else RightOf a)"

fun hole :: "loc \<Rightarrow> ctx \<Rightarrow> loc" where
  "hole L [] = L"
| "hole L ((d, a, n, u) # C) = side d a"

fun ctx_parent :: "ctx \<Rightarrow> ptr" where
  "ctx_parent [] = None"
| "ctx_parent ((d, a, n, u) # C) = Some a"

fun plug :: "ctx \<Rightarrow> atree \<Rightarrow> atree" where
  "plug [] t = t"
| "plug ((d, a, n, u) # C) t = plug C (if d then Node t (a, n) u else Node u (a, n) t)"

fun path :: "ctx \<Rightarrow> addr list" where
  "path [] = []"
| "path ((d, a, n, u) # C) = a # path C"

fun siblings :: "ctx \<Rightarrow> addr list" where
  "siblings [] = []"
| "siblings ((d, a, n, u) # C) = nodes u @ siblings C"

abbreviation ctx_nodes :: "ctx \<Rightarrow> addr set" where
  "ctx_nodes C \<equiv> set (path C) \<union> set (siblings C)"

fun ctx_at :: "'c cap_ops \<Rightarrow> 'c mdb \<Rightarrow> loc \<Rightarrow> ctx \<Rightarrow> bool" where
  "ctx_at K s L [] \<longleftrightarrow> True"
| "ctx_at K s L ((d, a, n, u) # C) \<longleftrightarrow>
     read_loc s (hole L C) = Some a \<and> n = Suc (unat (n_level (ctes s a))) \<and>
     tree_at K s (read_loc s (side (\<not> d) a)) u \<and> ctx_at K s L C"

lemma read_side: "read_loc s (side d a) = (if d then n_left (ctes s a) else n_right (ctes s a))"
  by (simp add: side_def)

lemma side_simps [simp]: "side d a \<noteq> MdbRoot" "side d a \<noteq> Tmp" "loc_owner (side d a) = {a}"
  "side d a = side e b \<longleftrightarrow> d = e \<and> a = b"
  by (auto simp: side_def)

lemma set_plug: "set (nodes (plug C t)) = ctx_nodes C \<union> set (nodes t)"
  by (induction C arbitrary: t rule: path.induct) auto

lemma read_loc_cong:
  assumes "\<And>b. b \<in> loc_owner l \<Longrightarrow> n_left (ctes s' b) = n_left (ctes s b) \<and> n_right (ctes s' b) = n_right (ctes s b)"
    and "l = MdbRoot \<Longrightarrow> mdb_root s' = mdb_root s" "l = Tmp \<Longrightarrow> tmp s' = tmp s"
  shows "read_loc s' l = read_loc s l"
  using assms by (cases l) auto

text \<open>What a context depends on.\<close>

lemma ctx_at_cong:
  assumes "ctx_at K s L C"
    and "\<And>b. b \<in> set (path C) \<Longrightarrow> n_level (ctes s' b) = n_level (ctes s b)"
    and "\<And>b d n u D E. C = D @ (d, b, n, u) # E \<Longrightarrow> read_loc s' (side (\<not> d) b) = read_loc s (side (\<not> d) b)"
    and "\<And>b d n u D E. C = D @ (d, b, n, u) # E \<Longrightarrow> D \<noteq> [] \<Longrightarrow> read_loc s' (side d b) = read_loc s (side d b)"
    and "\<And>b. b \<in> set (siblings C) \<Longrightarrow> ctes s' b = ctes s b"
    and "C \<noteq> [] \<Longrightarrow> read_loc s' L' = read_loc s L"
  shows "ctx_at K s' L' C"
  using assms
proof (induction C rule: path.induct)
  case (2 d a n u C)
  have "ctx_at K s' L' C"
  proof (rule "2.IH")
    show "ctx_at K s L C" using "2.prems"(1) by simp
    show "n_level (ctes s' b) = n_level (ctes s b)" if "b \<in> set (path C)" for b
      using "2.prems"(2) that by simp
    show "read_loc s' (side (\<not> d') b) = read_loc s (side (\<not> d') b)" if "C = D @ (d', b, m, v) # E" for b d' m v D E
      using "2.prems"(3) [of "(d, a, n, u) # D" d' b m v E] that by simp
    show "read_loc s' (side d' b) = read_loc s (side d' b)" if "C = D @ (d', b, m, v) # E" "D \<noteq> []" for b d' m v D E
      using "2.prems"(4) [of "(d, a, n, u) # D" d' b m v E] that by simp
  qed (use "2.prems"(5,6) in auto)
  moreover have "tree_at K s' p u = tree_at K s p u" for p
    using "2.prems"(5) by (intro tree_at_cong) auto
  moreover have "read_loc s' (side (\<not> d) a) = read_loc s (side (\<not> d) a)" using "2.prems"(3) [of "[]"] by simp
  moreover have "read_loc s' (hole L' C) = read_loc s (hole L C)"
  proof (cases C)
    case (Cons f E)
    then show ?thesis
      using "2.prems"(4) [of "[(d, a, n, u)]" "fst f" "fst (snd f)" "fst (snd (snd f))" "snd (snd (snd f))" E]
      by (cases f) simp
  qed (use "2.prems"(6) in simp)
  ultimately show ?case using "2.prems"(1,2) by simp
qed simp

lemma ctx_at_frame:
  assumes "ctx_at K s L C" "\<And>b. b \<in> ctx_nodes C \<Longrightarrow> ctes s' b = ctes s b" "C \<noteq> [] \<Longrightarrow> read_loc s' L' = read_loc s L"
  shows "ctx_at K s' L' C"
proof (rule ctx_at_cong [OF assms(1)])
  show "read_loc s' (side (\<not> d) b) = read_loc s (side (\<not> d) b)" "read_loc s' (side d b) = read_loc s (side d b)"
    if "C = D @ (d, b, n, u) # E" for b d n u D E
  proof -
    have "b \<in> set (path C)" using that by (induction D arbitrary: C) auto
    then have "ctes s' b = ctes s b" using assms(2) by auto
    then show "read_loc s' (side (\<not> d) b) = read_loc s (side (\<not> d) b)" "read_loc s' (side d b) = read_loc s (side d b)"
      by (simp_all add: read_side)
  qed
qed (use assms in auto)

definition ctx_distinct :: "ctx \<Rightarrow> bool" where
  "ctx_distinct C \<longleftrightarrow> distinct (path C) \<and> set (path C) \<inter> set (siblings C) = {}"

lemma path_append [simp]: "path (D @ E) = path D @ path E"
  by (induction D rule: path.induct) auto

lemma siblings_append [simp]: "siblings (D @ E) = siblings D @ siblings E"
  by (induction D rule: siblings.induct) auto

text \<open>A context does not depend on what its hole holds.\<close>

lemma ctx_at_hole:
  assumes at: "ctx_at K s L C" and dist: "ctx_distinct C"
    and eq: "\<And>b. b \<in> ctx_nodes C \<Longrightarrow> ctes s' b = ctes (write_loc (hole L C) q s) b"
    and L: "C \<noteq> [] \<Longrightarrow> read_loc s' L' = read_loc s L"
  shows "ctx_at K s' L' C"
proof (cases C)
  case (Cons f E)
  obtain d a n u where f: "f = (d, a, n, u)" by (cases f) auto
  have C: "C = (d, a, n, u) # E" by (simp add: Cons f)
  have eq': "ctes s' b = ctes (write_loc (side d a) q s) b" if "b \<in> ctx_nodes C" for b
    using eq [OF that] by (simp add: C)
  show ?thesis
  proof (rule ctx_at_cong [OF at])
    show "n_level (ctes s' b) = n_level (ctes s b)" if "b \<in> set (path C)" for b
      using eq' [of b] that by simp
    show "ctes s' b = ctes s b" if "b \<in> set (siblings C)" for b
    proof -
      have "b \<noteq> a" using that dist by (auto simp: ctx_distinct_def C)
      then show ?thesis using eq' [of b] that by (simp add: ctes_write_loc)
    qed
    show "read_loc s' (side (\<not> e) b) = read_loc s (side (\<not> e) b)" if "C = D @ (e, b, m, v) # F" for b e m v D F
    proof -
      have "b \<in> ctx_nodes C" using that by simp
      from eq' [OF this] show ?thesis
        using that dist unfolding ctx_distinct_def by (cases D) (auto simp: C read_side side_def)
    qed
    show "read_loc s' (side e b) = read_loc s (side e b)" if "C = D @ (e, b, m, v) # F" "D \<noteq> []" for b e m v D F
    proof -
      have b: "b \<in> ctx_nodes C" using that by simp
      have "b \<noteq> a" using that dist by (cases D) (auto simp: ctx_distinct_def C)
      then have "ctes s' b = ctes s b" using eq' [OF b] by (simp add: ctes_write_loc)
      then show ?thesis by (simp add: read_side)
    qed
  qed (use L in auto)
qed simp

lemma ctx_at_read_base: "ctx_at K s L C \<Longrightarrow> C \<noteq> [] \<Longrightarrow> \<exists>a \<in> set (path C). read_loc s L = Some a"
proof (induction C rule: path.induct)
  case (2 d a n u C)
  then show ?case by (cases C) auto
qed simp

lemma ctx_is_child: "read_loc s (hole MdbRoot C) = Some a \<Longrightarrow> mdb_is_child a (ctx_parent C) s"
  by (cases C rule: path.cases) (auto simp: mdb_is_child_def read_side split: if_splits)

section \<open>Reachability\<close>

fun shape_at :: "'c mdb \<Rightarrow> ptr \<Rightarrow> atree \<Rightarrow> bool" where
  "shape_at s p Leaf \<longleftrightarrow> p = None"
| "shape_at s p (Node l (a, n) r) \<longleftrightarrow> p = Some a \<and> shape_at s (n_left (ctes s a)) l \<and> shape_at s (n_right (ctes s a)) r"

lemma tree_at_shape: "tree_at K s p t \<Longrightarrow> shape_at s p t"
  by (induction t arbitrary: p rule: atree_induct) auto

lemma reachable_shape: "shape_at s p t \<Longrightarrow> mdb_is_reachable s p x = Some (x \<in> set (nodes t))"
proof (induction t arbitrary: p rule: atree_induct)
  case Leaf
  then show ?case by (subst mdb_is_reachable.simps) simp
next
  case (Node l a n r)
  from Node.prems have p: "p = Some a" and sub: "shape_at s (n_left (ctes s a)) l" "shape_at s (n_right (ctes s a)) r" by auto
  have l: "(case n_left (ctes s a) of None \<Rightarrow> Some False | Some y \<Rightarrow> mdb_is_reachable s (n_left (ctes s a)) x) = Some (x \<in> set (nodes l))"
    using Node.IH(1) [OF sub(1)] sub(1) by (cases l rule: atree_cases) auto
  have r: "(case n_right (ctes s a) of None \<Rightarrow> Some False | Some y \<Rightarrow> mdb_is_reachable s (n_right (ctes s a)) x) = Some (x \<in> set (nodes r))"
    using Node.IH(2) [OF sub(2)] sub(2) by (cases r rule: atree_cases) auto
  show ?case unfolding p by (subst mdb_is_reachable.simps, unfold option.case l r) auto
qed

lemma shape_plug: "ctx_at K s L C \<Longrightarrow> shape_at s (read_loc s (hole L C)) t \<Longrightarrow> shape_at s (read_loc s L) (plug C t)"
proof (induction C arbitrary: t rule: path.induct)
  case (2 d a n u C)
  show ?case
    using "2.prems" tree_at_shape
    by (cases d) (auto intro!: "2.IH" simp: read_side)
qed simp

lemma reachable_ctx:
  assumes "ctx_at K s MdbRoot C" "shape_at s (read_loc s (hole MdbRoot C)) t"
  shows "mdb_is_reachable s (mdb_root s) x = Some (x \<in> ctx_nodes C \<union> set (nodes t))"
  using reachable_shape [OF shape_plug [OF assms], of x] by (simp add: set_plug)

end
