(* ===== verification/Mdb_Remove.thy ===== *)
theory Mdb_Remove
  imports Mdb_Context
begin

text \<open>
  Removal from the capability database: the exchange of a node with its neighbour in the order, and
  \<^verbatim>\<open>mdb_remove\<close>.  The code asserts at several points that a slot is or is not reachable from the root, so
  the proofs follow the whole tree, split into a subtree and the context around it.
\<close>

section \<open>Exchanging nodes\<close>

lemma exchange_child_root: "mdb_root s = Some x \<Longrightarrow> mdb_exchange_child x None y s = Some (set_root (Some y) s)"
  by (simp add: mdb_exchange_child_def mdb_is_child_def)

lemma exchange_child_side:
  assumes "read_loc s (side d c) = Some x" "read_loc s (side (\<not> d) c) \<noteq> Some x"
  shows "mdb_exchange_child x (Some c) y s = Some (write_loc (side d c) (Some y) s)"
  using assms by (cases d) (auto simp: mdb_exchange_child_def mdb_is_child_def read_side side_def)

text \<open>Storing a new child at a location, as \<^verbatim>\<open>mdb_exchange_child\<close> does it.\<close>

definition put :: "loc \<Rightarrow> ptr \<Rightarrow> 'c mdb \<Rightarrow> 'c mdb" where
  "put l p s = (if l = MdbRoot then set_root p s else write_loc l p s)"

lemma put_ctes: "ctes (put l p s) = ctes (write_loc l p s)"
  by (cases l) (auto simp: put_def)

lemma sibling_root:
  assumes "tree_at K s p u" "x \<notin> set (nodes u)"
  shows "p \<noteq> Some x"
  using assms by (cases u rule: atree_cases) auto

lemma exchange_child_ctx:
  assumes "ctx_at K s MdbRoot C" "read_loc s (hole MdbRoot C) = Some x" "x \<notin> set (siblings C)"
  shows "mdb_exchange_child x (ctx_parent C) y s = Some (put (hole MdbRoot C) (Some y) s)"
proof (cases C rule: path.cases)
  case 1
  then show ?thesis using assms by (simp add: exchange_child_root put_def)
next
  case (2 d a n u E)
  then have "read_loc s (side (\<not> d) a) \<noteq> Some x" using assms sibling_root [of K s _ u x] by auto
  with 2 assms show ?thesis by (simp add: exchange_child_side put_def)
qed

lemma put_simps [simp]:
  "tmp (put (side d c) p s) = tmp s" "same_data s (put l p s)"
  "mdb_root (put l p s) = (if l = MdbRoot then p else mdb_root s)"
  "kcb_root (put l p s) = (if l = MdbRoot then p else kcb_root s)"
  by (auto simp: put_def same_data_def set_root_def)

lemma tmp_put_hole [simp]: "tmp (put (hole MdbRoot C) p s) = tmp s"
  by (cases C rule: path.cases) (auto simp: put_def set_root_def)

text \<open>The state in which the two nodes have changed places, apart from the links to them.\<close>

definition swapped :: "'c mdb \<Rightarrow> addr \<Rightarrow> addr \<Rightarrow> 'c mdb \<Rightarrow> bool" where
  "swapped s a b s' \<longleftrightarrow>
     n_left (ctes s' a) = n_left (ctes s b) \<and> n_right (ctes s' a) = n_right (ctes s b) \<and>
     n_level (ctes s' a) = n_level (ctes s b) \<and>
     n_left (ctes s' b) = n_left (ctes s a) \<and> n_right (ctes s' b) = n_right (ctes s a) \<and>
     n_level (ctes s' b) = n_level (ctes s a) \<and>
     (\<forall>x. x \<noteq> a \<longrightarrow> x \<noteq> b \<longrightarrow> ctes s' x = ctes s x) \<and> same_data s s' \<and>
     mdb_root s' = mdb_root s \<and> kcb_root s' = kcb_root s \<and> tmp s' = tmp s"

definition swap_nodes :: "'c cap_ops \<Rightarrow> addr \<Rightarrow> addr \<Rightarrow> 'c mdb \<Rightarrow> 'c mdb" where
  "swap_nodes K first second s =
     (let tmp_node = n_left (ctes s first);
          s = write_loc (LeftOf first) (n_left (ctes s second)) s;
          s = write_loc (LeftOf second) tmp_node s;
          tmp_node = n_right (ctes s first);
          s = write_loc (RightOf first) (n_right (ctes s second)) s;
          s = write_loc (RightOf second) tmp_node s;
          tmp_level = n_level (ctes s first);
          s = upd_cte first (n_level_update (\<lambda>_. n_level (ctes s second))) s;
          s = upd_cte second (n_level_update (\<lambda>_. tmp_level)) s;
          s = mdb_update_end K (Some first) s
      in mdb_update_end K (Some second) s)"

lemma swap_nodes_swapped: "a \<noteq> b \<Longrightarrow> swapped s a b (swap_nodes K a b s)"
  by (simp add: swapped_def swap_nodes_def Let_def same_data_def)

lemma exchange_nodes_run:
  assumes "mdb_exchange_child a pa b s = Some s1" "mdb_exchange_child b pb a s1 = Some s2"
    and "mdb_is_reachable (swap_nodes K a b s2) (mdb_root (swap_nodes K a b s2)) a = Some True"
    and "mdb_is_reachable (swap_nodes K a b s2) (mdb_root (swap_nodes K a b s2)) b = Some True"
  shows "mdb_exchange_nodes K a pa b pb s = Some (swap_nodes K a b s2)"
  using assms by (simp add: mdb_exchange_nodes_def swap_nodes_def Let_def)

text \<open>
  The exchange of a node \<open>a\<close> with a leaf \<open>b\<close> below it.  \<open>C\<close> is the context of \<open>a\<close>, \<open>u\<close> the subtree of \<open>a\<close>
  on the other side, and \<open>D\<close> the context of \<open>b\<close> below \<open>a\<close>.
\<close>

definition leaf_parent :: "ctx \<Rightarrow> addr \<Rightarrow> addr" where
  "leaf_parent D a = (case ctx_parent D of Some c \<Rightarrow> c | None \<Rightarrow> a)"

definition apart :: "addr \<Rightarrow> atree \<Rightarrow> ctx \<Rightarrow> ctx \<Rightarrow> addr set \<Rightarrow> bool" where
  "apart a u C D B \<longleftrightarrow>
     ctx_distinct C \<and> ctx_distinct D \<and> a \<notin> set (nodes u) \<and>
     ctx_nodes C \<inter> ctx_nodes D = {} \<and> insert a (set (nodes u)) \<inter> (ctx_nodes C \<union> ctx_nodes D) = {} \<and>
     B \<inter> (insert a (set (nodes u)) \<union> ctx_nodes C \<union> ctx_nodes D) = {}"

lemma swapped_read:
  assumes "swapped s a b s'"
  shows "read_loc s' (side e b) = read_loc s (side e a)" "read_loc s' (side e a) = read_loc s (side e b)"
    "x \<noteq> a \<Longrightarrow> x \<noteq> b \<Longrightarrow> read_loc s' (side e x) = read_loc s (side e x)"
  using assms by (auto simp: swapped_def read_side)

lemma read_write_other: "l \<noteq> l' \<Longrightarrow> read_loc (write_loc l p s) l' = read_loc s l'"
  by (cases l; cases l') auto

lemma hole_owner: "C \<noteq> [] \<Longrightarrow> \<exists>c \<in> set (path C). \<exists>d. hole L C = side d c \<and> ctx_parent C = Some c"
  by (cases C rule: path.cases) auto

lemma hole_simps [simp]:
  "hole MdbRoot C = MdbRoot \<longleftrightarrow> C = []" "hole MdbRoot C \<noteq> Tmp"
  by (cases C rule: path.cases; simp)+

lemma hole_side_simps [simp]: "hole (side d a) D \<noteq> MdbRoot" "hole (side d a) D \<noteq> Tmp"
  by (cases D rule: path.cases; simp)+

lemma hole_owner_root: "loc_owner (hole MdbRoot C) \<subseteq> set (path C)"
  by (cases C rule: path.cases) auto

lemma hole_owner_side: "loc_owner (hole (side d a) D) \<subseteq> insert a (set (path D))"
  by (cases D rule: path.cases) auto

lemma read_put_other: "l \<noteq> l' \<Longrightarrow> read_loc (put l p s) l' = read_loc s l'"
  by (cases l; cases l') (auto simp: put_def set_root_def)

lemma read_put [simp]: "read_loc (put l p s) l = p"
  by (cases l) (auto simp: put_def set_root_def)

text \<open>The two links to the exchanged nodes.\<close>

lemma relinked:
  fixes s :: "'c mdb" and d :: bool
  assumes ap: "apart a u C D {b}"
  defines "s2 \<equiv> write_loc (hole (side d a) D) (Some a) (put (hole MdbRoot C) (Some b) s)"
  shows "x \<in> ctx_nodes C \<Longrightarrow> ctes s2 x = ctes (write_loc (hole MdbRoot C) (Some b) s) x"
    and "x \<in> ctx_nodes D \<Longrightarrow> ctes s2 x = ctes (write_loc (hole (side d a) D) (Some a) s) x"
    and "x \<notin> insert a (ctx_nodes C \<union> ctx_nodes D) \<Longrightarrow> ctes s2 x = ctes s x"
    and "n_level (ctes s2 x) = n_level (ctes s x)"
    and "read_loc s2 (side (\<not> d) a) = read_loc s (side (\<not> d) a)"
    and "read_loc s2 (side d a) = (if D = [] then Some a else read_loc s (side d a))"
    and "read_loc s2 (hole MdbRoot C) = Some b"
    and "read_loc s2 (hole (side d a) D) = Some a"
    and "mdb_root s2 = (if C = [] then Some b else mdb_root s)" "kcb_root s2 = (if C = [] then Some b else kcb_root s)"
    and "tmp s2 = tmp s" "same_data s s2"
proof -
  note oC = hole_owner_root [of C] and oD = hole_owner_side [of d a D]
  have nDa: "a \<notin> loc_owner (hole (side d a) D)" if "D \<noteq> []"
    using hole_owner [OF that, of "side d a"] ap by (auto simp: apart_def)
  have na: "a \<notin> ctx_nodes C" "a \<notin> ctx_nodes D" "ctx_nodes C \<inter> ctx_nodes D = {}" using ap by (auto simp: apart_def)
  have ne: "hole (side d a) D \<noteq> hole MdbRoot C"
  proof
    assume eq: "hole (side d a) D = hole MdbRoot C"
    then have "C \<noteq> []" by auto
    from hole_owner [OF this, of MdbRoot] obtain c e where "c \<in> set (path C)" "hole MdbRoot C = side e c" by blast
    with eq oD na show False by auto
  qed
  have noC: "ctes (put (hole MdbRoot C) (Some b) s) x = ctes s x" if "x \<notin> set (path C)" for x
    using oC that by (auto simp: put_ctes intro!: ctes_write_loc)
  have noD: "x \<notin> loc_owner (hole (side d a) D)" if "x \<noteq> a" "x \<notin> set (path D)" for x
    using oD that by auto
  show "ctes s2 x = ctes (write_loc (hole MdbRoot C) (Some b) s) x" if x: "x \<in> ctx_nodes C" for x
  proof -
    have "x \<notin> loc_owner (hole (side d a) D)" using na x by (intro noD) auto
    then show ?thesis unfolding s2_def by (simp add: ctes_write_loc put_ctes)
  qed
  show "ctes s2 x = ctes (write_loc (hole (side d a) D) (Some a) s) x" if x: "x \<in> ctx_nodes D" for x
    unfolding s2_def using na x by (intro ctes_write_loc_cong noC) auto
  show "ctes s2 x = ctes s x" if x: "x \<notin> insert a (ctx_nodes C \<union> ctx_nodes D)" for x
    unfolding s2_def using x noC [of x] noD [of x] by (simp add: ctes_write_loc)
  show "n_level (ctes s2 x) = n_level (ctes s x)" by (simp add: s2_def put_ctes)
  have other: "hole MdbRoot C \<noteq> side e a" for e using oC na by auto
  show "read_loc s2 (side (\<not> d) a) = read_loc s (side (\<not> d) a)"
  proof -
    have "hole (side d a) D \<noteq> side (\<not> d) a" using nDa by (cases "D = []") auto
    then show ?thesis unfolding s2_def using other by (simp add: read_write_other read_put_other)
  qed
  show "read_loc s2 (side d a) = (if D = [] then Some a else read_loc s (side d a))"
  proof (cases "D = []")
    case False
    then have "hole (side d a) D \<noteq> side d a" using nDa by auto
    with False show ?thesis unfolding s2_def using other by (simp add: read_write_other read_put_other)
  qed (simp add: s2_def)
  show "read_loc s2 (hole MdbRoot C) = Some b" unfolding s2_def using ne by (simp add: read_write_other)
  show "read_loc s2 (hole (side d a) D) = Some a" by (simp add: s2_def)
  show "mdb_root s2 = (if C = [] then Some b else mdb_root s)" "kcb_root s2 = (if C = [] then Some b else kcb_root s)"
    "tmp s2 = tmp s"
    by (simp_all add: s2_def)
  show "same_data s s2" unfolding s2_def by (rule same_data_trans [OF put_simps(2) same_data_write_loc])
qed

lemma exchange_ctx:
  assumes C: "ctx_at K s MdbRoot ((d, a, n, u) # C)" and D: "ctx_at K s (side d a) D"
    and b: "read_loc s (hole (side d a) D) = Some b" "n_left (ctes s b) = None" "n_right (ctes s b) = None"
    and ap: "apart a u C D {b}"
  defines "s2 \<equiv> write_loc (hole (side d a) D) (Some a) (put (hole MdbRoot C) (Some b) s)"
  defines "s' \<equiv> swap_nodes K a b s2"
  shows "ctx_at K s' MdbRoot ((d, b, n, u) # C)" "ctx_at K s' (side d b) D" "read_loc s' (hole (side d b) D) = Some a"
    "n_left (ctes s' a) = None" "n_right (ctes s' a) = None" "n_level (ctes s' a) = n_level (ctes s b)"
proof -
  note re = relinked [OF ap, where d = d and s = s, folded s2_def]
  have ab: "a \<noteq> b" using ap by (auto simp: apart_def)
  have sw: "swapped s2 a b s'" unfolding s'_def by (rule swap_nodes_swapped [OF ab])
  note rd = swapped_read [OF sw]
  have nin: "x \<noteq> a \<and> x \<noteq> b" if "x \<in> ctx_nodes C \<union> ctx_nodes D \<union> set (nodes u)" for x
    using that ap by (auto simp: apart_def)
  then have s': "ctes s' x = ctes s2 x" if "x \<in> ctx_nodes C \<union> ctx_nodes D \<union> set (nodes u)" for x
    using that sw by (auto simp: swapped_def)
  have root: "mdb_root s' = mdb_root s2" using sw by (simp add: swapped_def)
  have "ctx_at K s' MdbRoot C"
  proof (rule ctx_at_hole)
    show "ctx_at K s MdbRoot C" "ctx_distinct C" using C ap by (simp_all add: apart_def)
    show "ctes s' x = ctes (write_loc (hole MdbRoot C) (Some b) s) x" if "x \<in> ctx_nodes C" for x
      using s' [of x] re(1) [OF that] that by auto
    show "read_loc s' MdbRoot = read_loc s MdbRoot" if "C \<noteq> []" using root re(9) that by simp
  qed
  moreover have "read_loc s' (hole MdbRoot C) = Some b"
  proof (cases "C = []")
    case True
    then show ?thesis using root re(9) by simp
  next
    case False
    from hole_owner [OF this, of MdbRoot] obtain c e where c: "c \<in> set (path C)" "hole MdbRoot C = side e c" by blast
    then have "read_loc s' (side e c) = read_loc s2 (side e c)" using nin [of c] by (intro rd(3)) auto
    with c re(7) show ?thesis by simp
  qed
  moreover have "n = Suc (unat (n_level (ctes s' b)))" using C sw re(4) by (simp add: swapped_def)
  moreover have "tree_at K s' (read_loc s' (side (\<not> d) b)) u"
  proof -
    have "ctes s' x = ctes s x" if "x \<in> set (nodes u)" for x
    proof -
      have "x \<notin> insert a (ctx_nodes C \<union> ctx_nodes D)" using ap that by (auto simp: apart_def)
      then show ?thesis using s' [of x] re(3) [of x] that by simp
    qed
    then have "tree_at K s' p u = tree_at K s p u" for p by (rule tree_at_cong)
    with C rd(1) re(5) show ?thesis by simp
  qed
  ultimately show "ctx_at K s' MdbRoot ((d, b, n, u) # C)" by simp
  show "ctx_at K s' (side d b) D"
  proof (rule ctx_at_hole)
    show "ctx_at K s (side d a) D" "ctx_distinct D" using D ap by (simp_all add: apart_def)
    show "ctes s' x = ctes (write_loc (hole (side d a) D) (Some a) s) x" if "x \<in> ctx_nodes D" for x
      using s' [of x] re(2) [OF that] that by auto
    show "read_loc s' (side d b) = read_loc s (side d a)" if "D \<noteq> []" using rd(1) re(6) that by simp
  qed
  show "read_loc s' (hole (side d b) D) = Some a"
  proof (cases "D = []")
    case True
    then show ?thesis using rd(1) re(6) by simp
  next
    case False
    from hole_owner [OF this, of "side d a"] obtain c e where c: "c \<in> set (path D)" "hole (side d a) D = side e c" by blast
    moreover have "hole (side d b) D = hole (side d a) D" using False by (cases D rule: path.cases) auto
    moreover have "read_loc s' (side e c) = read_loc s2 (side e c)" using c nin [of c] by (intro rd(3)) auto
    ultimately show ?thesis using re(8) by simp
  qed
  have "ctes s2 b = ctes s b" using ap by (intro re(3)) (auto simp: apart_def)
  then show "n_left (ctes s' a) = None" "n_right (ctes s' a) = None" "n_level (ctes s' a) = n_level (ctes s b)"
    using sw b by (simp_all add: swapped_def)
qed

text \<open>
  Outside \<open>Z\<close> only the hole of the context has changed; it holds \<open>b\<close> now.
\<close>

definition replaced :: "'c mdb \<Rightarrow> ctx \<Rightarrow> addr \<Rightarrow> addr set \<Rightarrow> 'c mdb \<Rightarrow> bool" where
  "replaced s C b Z s' \<longleftrightarrow>
     same_data s s' \<and> (\<forall>x. x \<notin> Z \<union> ctx_nodes C \<longrightarrow> ctes s' x = ctes s x) \<and>
     (\<forall>x \<in> ctx_nodes C. ctes s' x = ctes (write_loc (hole MdbRoot C) (Some b) s) x) \<and>
     mdb_root s' = (if C = [] then Some b else mdb_root s) \<and> kcb_root s' = (if C = [] then Some b else kcb_root s)"

lemma replaced_mono: "replaced s C b Z s' \<Longrightarrow> Z \<subseteq> Z' \<Longrightarrow> replaced s C b Z' s'"
  by (auto simp: replaced_def)

lemma replaced_trans:
  assumes "replaced s C b Z s1" "\<And>x. x \<notin> Z \<Longrightarrow> ctes s2 x = ctes s1 x" "same_data s1 s2"
    "mdb_root s2 = mdb_root s1" "kcb_root s2 = kcb_root s1" "Z \<inter> ctx_nodes C = {}"
  shows "replaced s C b Z s2"
proof -
  have "same_data s s2" using assms(1,3) by (auto simp: replaced_def intro: same_data_trans)
  moreover have "x \<notin> Z" if "x \<in> ctx_nodes C" for x using assms(6) that by auto
  ultimately show ?thesis using assms(1,2,4,5) unfolding replaced_def by simp
qed

lemma leaf_parent_hole: "\<exists>e. hole (side d a) D = side e (leaf_parent D a)"
  by (cases D rule: path.cases) (auto simp: leaf_parent_def)

lemma exchange_child_below:
  assumes "ctx_at K s MdbRoot ((d, a, n, u) # C)" "ctx_at K s (side d a) D" "read_loc s (hole (side d a) D) = Some b"
    "apart a u C D {b}"
  shows "mdb_exchange_child b (Some (leaf_parent D a)) y (put (hole MdbRoot C) q s) =
    Some (write_loc (hole (side d a) D) (Some y) (put (hole MdbRoot C) q s))"
proof -
  let ?s = "put (hole MdbRoot C) q s"
  obtain e where e: "hole (side d a) D = side e (leaf_parent D a)" using leaf_parent_hole [of d a D] by blast
  have "leaf_parent D a \<in> insert a (set (path D))" by (cases D rule: path.cases) (auto simp: leaf_parent_def)
  then have "leaf_parent D a \<notin> set (path C)" using assms(4) by (auto simp: apart_def)
  then have "hole MdbRoot C \<noteq> side f (leaf_parent D a)" for f using hole_owner_root [of C] by auto
  then have rd: "read_loc ?s (side f (leaf_parent D a)) = read_loc s (side f (leaf_parent D a))" for f
    by (rule read_put_other)
  have "read_loc s (side (\<not> e) (leaf_parent D a)) \<noteq> Some b"
  proof (cases D rule: path.cases)
    case 1
    with e have "e = d" by (simp add: leaf_parent_def)
    with assms(1,4) 1 sibling_root [of K s _ u b] show ?thesis by (auto simp: leaf_parent_def apart_def)
  next
    case (2 e' c m v E)
    with e have "e = e'" by (simp add: leaf_parent_def)
    with assms(2,4) 2 sibling_root [of K s _ v b] show ?thesis by (auto simp: leaf_parent_def apart_def)
  qed
  with assms(3) rd show ?thesis unfolding e by (intro exchange_child_side) auto
qed

lemma exchange_nodes_ctx:
  assumes C: "ctx_at K s MdbRoot ((d, a, n, u) # C)" and D: "ctx_at K s (side d a) D"
    and b: "read_loc s (hole (side d a) D) = Some b" "detached (ctes s b)"
    and ap: "apart a u C D {b}"
  shows "\<exists>s'. mdb_exchange_nodes K a (ctx_parent C) b (Some (leaf_parent D a)) s = Some s' \<and>
    ctx_at K s' MdbRoot ((d, b, n, u) # C) \<and> ctx_at K s' (side d b) D \<and> read_loc s' (hole (side d b) D) = Some a \<and>
    detached (ctes s' a) \<and> replaced s C b (insert a (insert b (set (path D)))) s' \<and> tmp s' = tmp s"
proof -
  define s2 where "s2 = write_loc (hole (side d a) D) (Some a) (put (hole MdbRoot C) (Some b) s)"
  define s' where "s' = swap_nodes K a b s2"
  have leaf: "n_left (ctes s b) = None" "n_right (ctes s b) = None" "n_level (ctes s b) = 0"
    using b(2) by (auto simp: detached_def)
  note ex = exchange_ctx [OF C D b(1) leaf(1,2) ap, folded s2_def, folded s'_def]
  note re = relinked [OF ap, where d = d and s = s, folded s2_def]
  have ab: "a \<noteq> b" using ap by (auto simp: apart_def)
  have sw: "swapped s2 a b s'" unfolding s'_def by (rule swap_nodes_swapped [OF ab])
  have det: "detached (ctes s' a)" using ex(4-6) leaf(3) by (simp add: detached_def)
  have "shape_at s' (read_loc s' (hole (side d b) D)) (Node Leaf (a, 0) Leaf)" using ex(3-5) by simp
  from shape_plug [OF ex(2) this] have "shape_at s' (read_loc s' (hole MdbRoot ((d, b, n, u) # C))) (plug D (Node Leaf (a, 0) Leaf))"
    by simp
  from reachable_ctx [OF ex(1) this] have reach: "mdb_is_reachable s' (mdb_root s') a = Some True" "mdb_is_reachable s' (mdb_root s') b = Some True"
    by (simp_all add: set_plug)
  have "mdb_exchange_child a (ctx_parent C) b s = Some (put (hole MdbRoot C) (Some b) s)"
    using C ap by (intro exchange_child_ctx [of K]) (auto simp: apart_def)
  from exchange_nodes_run [OF this exchange_child_below [OF C D b(1) ap, of a "Some b"], folded s2_def, of K, folded s'_def] reach
  have run: "mdb_exchange_nodes K a (ctx_parent C) b (Some (leaf_parent D a)) s = Some s'" by simp
  have "replaced s C b (insert a (insert b (set (path D)))) s'"
  proof -
    have "ctes s' x = ctes s x" if x: "x \<notin> insert a (insert b (set (path D))) \<union> ctx_nodes C" for x
    proof (cases "x \<in> set (siblings D)")
      case True
      have "x \<notin> loc_owner (hole (side d a) D)" using x hole_owner_side [of d a D] by auto
      with re(2) [of x] True sw x show ?thesis by (simp add: swapped_def ctes_write_loc)
    next
      case False
      with x re(3) [of x] sw show ?thesis by (simp add: swapped_def)
    qed
    moreover have "ctes s' x = ctes (write_loc (hole MdbRoot C) (Some b) s) x" if x: "x \<in> ctx_nodes C" for x
    proof -
      have "x \<noteq> a" "x \<noteq> b" using ap x by (auto simp: apart_def)
      with sw re(1) [OF x] show ?thesis by (simp add: swapped_def)
    qed
    ultimately show ?thesis
      using sw re(9,10,12) same_data_trans [of s s2 s'] by (simp add: replaced_def swapped_def)
  qed
  with run ex det re(11) sw show ?thesis by (auto simp: swapped_def)
qed

section \<open>Removing the largest node of a subtree\<close>

text \<open>
  The largest node \<open>b\<close> of the left subtree takes the place of the target \<open>a\<close>.  The walk to the
  right has reached the tree \<open>w\<close> in the context \<open>D\<close> below \<open>a\<close>.
\<close>

definition cur_loc :: "ctx \<Rightarrow> addr \<Rightarrow> loc" where
  "cur_loc D a = (if D = [] then Tmp else hole (LeftOf a) D)"

definition right_spine :: "ctx \<Rightarrow> bool" where
  "right_spine D \<longleftrightarrow> (\<forall>f \<in> set D. \<not> fst f)"

lemma side_True: "side True a = LeftOf a"
  by (simp add: side_def)

lemma cur_loc_Cons: "cur_loc ((False, c, m, v) # D) a = RightOf c"
  by (simp add: cur_loc_def side_def)

lemma cur_loc_other: "D \<noteq> [] \<Longrightarrow> cur_loc D a = cur_loc D b"
  by (cases D rule: path.cases) (auto simp: cur_loc_def)

text \<open>The checks at the entry of \<^verbatim>\<open>mdb_exchange_remove\<close> succeed.\<close>

lemma exchange_remove_asserts:
  assumes C: "ctx_at K s MdbRoot ((True, a, n, r) # C)" and D: "ctx_at K s (LeftOf a) D"
    and w: "read_loc s (hole (LeftOf a) D) = Some c" "tree_at K s (Some c) w"
    and ap: "apart a r C D (set (nodes w))" and spine: "right_spine D"
  shows "compare_caps K (cte_cap s a) (cte_cap s c) True \<noteq> 0" "mdb_is_child a (ctx_parent C) s"
    "mdb_is_child c (Some (leaf_parent D a)) s"
    "mdb_is_reachable s (mdb_root s) a = Some True"
    "(if leaf_parent D a = a then n_left (ctes s (leaf_parent D a)) else n_right (ctes s (leaf_parent D a))) = Some c"
proof -
  have c: "c \<in> set (nodes w)" using tree_at_nonempty [OF w(2)] w(2) by (cases w rule: atree_cases) auto
  then have "a \<noteq> c" using ap by (auto simp: apart_def)
  then show "compare_caps K (cte_cap s a) (cte_cap s c) True \<noteq> 0" by (auto simp: compare_caps_eq dest: cte_key_inj)
  show "mdb_is_child a (ctx_parent C) s" using C by (intro ctx_is_child) simp
  show link: "(if leaf_parent D a = a then n_left (ctes s (leaf_parent D a)) else n_right (ctes s (leaf_parent D a))) = Some c"
  proof (cases D rule: path.cases)
    case 1
    then show ?thesis using w(1) by (simp add: leaf_parent_def)
  next
    case (2 d x m v E)
    then have "\<not> d" "x \<noteq> a" using spine ap by (auto simp: right_spine_def apart_def)
    with 2 w(1) show ?thesis by (simp add: leaf_parent_def read_side)
  qed
  then show "mdb_is_child c (Some (leaf_parent D a)) s" by (auto simp: mdb_is_child_def split: if_splits)
  have "shape_at s (read_loc s (hole MdbRoot ((True, a, n, r) # C))) (plug D w)"
    using shape_plug [OF D, of w] tree_at_shape [OF w(2)] w(1) by (simp add: side_True)
  from reachable_ctx [OF C this, of a] show "mdb_is_reachable s (mdb_root s) a = Some True" by simp
qed

lemma apart_step:
  assumes "apart a r C D (set (nodes (Node l (c, m) u)))" "distinct (nodes (Node l (c, m) u))"
  shows "apart a r C ((False, c, m, l) # D) (set (nodes u))"
  using assms by (auto simp: apart_def ctx_distinct_def)

lemma write_cur:
  assumes "ctx_at K s MdbRoot ((True, b, n, r) # C)" "ctx_at K s (LeftOf b) D" "apart b r C D {}"
  shows "ctx_at K (write_loc (cur_loc D b) q s) MdbRoot ((True, b, n, r) # C)"
    "ctx_at K (write_loc (cur_loc D b) q s) (LeftOf b) D"
    "\<And>x. x \<notin> set (path D) \<Longrightarrow> ctes (write_loc (cur_loc D b) q s) x = ctes s x"
    "mdb_root (write_loc (cur_loc D b) q s) = mdb_root s" "kcb_root (write_loc (cur_loc D b) q s) = kcb_root s"
proof -
  let ?s = "write_loc (cur_loc D b) q s"
  have owner: "loc_owner (cur_loc D b) \<subseteq> set (path D)"
    by (cases D rule: path.cases) (auto simp: cur_loc_def)
  then show fr: "\<And>x. x \<notin> set (path D) \<Longrightarrow> ctes ?s x = ctes s x"
    by (auto intro: ctes_write_loc)
  have nroot: "cur_loc D b \<noteq> MdbRoot" by (cases D rule: path.cases) (auto simp: cur_loc_def)
  then show "mdb_root ?s = mdb_root s" "kcb_root ?s = kcb_root s" by simp_all
  have disj: "x \<notin> set (path D)" if "x \<in> ctx_nodes ((True, b, n, r) # C)" for x
    using assms(3) that by (auto simp: apart_def)
  show "ctx_at K ?s MdbRoot ((True, b, n, r) # C)"
    using fr disj nroot by (intro ctx_at_frame [OF assms(1)]) auto
  show "ctx_at K ?s (LeftOf b) D"
  proof (cases "D = []")
    case False
    then have cur: "cur_loc D b = hole (LeftOf b) D" by (simp add: cur_loc_def)
    have "b \<notin> set (path D)" using assms(3) by (auto simp: apart_def)
    then have "read_loc ?s (LeftOf b) = read_loc s (LeftOf b)" using fr by simp
    then show ?thesis
      using assms(3) by (intro ctx_at_hole [OF assms(2)]) (auto simp: apart_def cur)
  qed simp
qed

lemma apart_swap:
  assumes "apart a u C D (insert b B)" "b \<notin> B"
  shows "apart b u C D B"
  using assms by (auto simp: apart_def)

lemma read_cur: "D \<noteq> [] \<Longrightarrow> read_loc s (cur_loc D a) = read_loc s (hole (LeftOf a) D)"
  by (simp add: cur_loc_def)

lemma exchange_remove_leaf:
  assumes C: "ctx_at K s MdbRoot ((True, a, n, r) # C)" and D: "ctx_at K s (LeftOf a) D"
    and b: "read_loc s (hole (LeftOf a) D) = Some b" "read_loc s (cur_loc D a) = Some b" "tree_at K s (Some b) (Node Leaf (b, 1) Leaf)"
    and ap: "apart a r C D {b}" and spine: "right_spine D"
    and ty: "type_of K (cap (ctes s a)) \<noteq> 0" "type_of K (cap (ctes s b)) \<noteq> 0" "type_of K (cap (ctes s (leaf_parent D a))) \<noteq> 0"
  shows "\<exists>s'. mdb_exchange_remove K a (ctx_parent C) (cur_loc D a) (leaf_parent D a) 1 s = Some (Some b, s') \<and>
    ctx_at K s' MdbRoot ((True, b, n, r) # C) \<and> ctx_at K s' (LeftOf b) D \<and> read_loc s' (cur_loc D b) = None \<and>
    detached (ctes s' a) \<and> replaced s C b (insert a (insert b (set (path D)))) s'"
proof -
  have leaf: "detached (ctes s b)" using b(3) by (auto simp: detached_def unat_eq_0)
  have aw: "apart a r C D (set (nodes (Node Leaf (b, 1) Leaf)))" using ap by simp
  note asserts = exchange_remove_asserts [OF C D b(1,3) aw spine]
  from exchange_nodes_ctx [OF C D [folded side_True] b(1) [folded side_True] leaf ap, unfolded side_True] obtain s1 where
    run: "mdb_exchange_nodes K a (ctx_parent C) b (Some (leaf_parent D a)) s = Some s1"
    and C1: "ctx_at K s1 MdbRoot ((True, b, n, r) # C)" and D1: "ctx_at K s1 (LeftOf b) D"
    and det: "detached (ctes s1 a)" and rep: "replaced s C b (insert a (insert b (set (path D)))) s1"
    by blast
  define s' where "s' = write_loc (cur_loc D a) None s1"
  have cur: "cur_loc D a = cur_loc D b" by (cases D rule: path.cases) (auto simp: cur_loc_def)
  have apb: "apart b r C D {}" using ap by (rule apart_swap) simp
  note w = write_cur [OF C1 D1 apb, where q = None, folded cur, folded s'_def]
  have "ctes s' a = ctes s1 a" using ap by (intro w(3)) (auto simp: apart_def)
  moreover have "replaced s C b (insert a (insert b (set (path D)))) s'"
    using w(3-5) ap by (intro replaced_trans [OF rep]) (auto simp: apart_def s'_def)
  moreover have "mdb_exchange_remove K a (ctx_parent C) (cur_loc D a) (leaf_parent D a) 1 s = Some (Some b, s')"
    using asserts ty b(2) leaf run by (subst mdb_exchange_remove.simps) (simp add: NULL_def detached_def s'_def)
  ultimately show ?thesis using w(1,2) det by (auto simp: s'_def cur)
qed

text \<open>On the way back up each node of the walk is rebalanced and linked into its parent.\<close>

lemma rebalance_below:
  assumes C: "ctx_at K s MdbRoot ((d, b, n, r) # C)"
    and half: "half_at K s c m wl wr" and dist: "distinct (nodes (Node wl (c, m) wr))"
    and lv: "lvls_le 250 (Node wl (c, m) wr)" and ap: "apart b r C D (set (nodes (Node wl (c, m) wr)))"
  shows "\<exists>p s'. mdb_rebalance K (Some c) s = Some (p, s') \<and> tree_at K s' (Some p) (aa_rebalance (Node wl (c, m) wr)) \<and>
    (\<forall>x. x \<notin> set (nodes (Node wl (c, m) wr)) \<longrightarrow> ctes s' x = ctes s x) \<and> same_data s s' \<and>
    mdb_root s' = mdb_root s \<and> kcb_root s' = kcb_root s"
proof -
  let ?A = "set (nodes (Node wl (c, m) wr))"
  from ctx_at_read_base [OF C] obtain x where x: "x = b \<or> x \<in> set (path C)" "mdb_root s = Some x" by auto
  then have nroot: "mdb_root s \<notin> Some ` ?A" using ap by (auto simp: apart_def)
  from rebalance_chain [OF half dist lv] nroot obtain p s' where
    run: "mdb_rebalance K (Some c) s = Some (p, s')"
    and ch: "chain K ?A (mdb_update_end K (Some c) s) c s' p (aa_rebalance (Node wl (c, m) wr))" by blast
  then have st: "step K ?A (mdb_update_end K (Some c) s) (Some c) s' (Some p) (aa_rebalance (Node wl (c, m) wr))"
    by (simp add: chain_def)
  have "mdb_root s \<noteq> Some c" using nroot by auto
  with st have "mdb_root s' = mdb_root s" "kcb_root s' = kcb_root s" by (simp_all add: step_def)
  moreover have "same_data s s'"
    using st same_data_trans [of s "mdb_update_end K (Some c) s" s'] by (simp add: step_def same_data_def)
  moreover have "ctes s' x = ctes s x" if "x \<notin> ?A" for x using st that by (simp add: step_def)
  ultimately show ?thesis using run chainD(1) [OF ch] by blast
qed

lemma exchange_remove_up:
  assumes C: "ctx_at K s MdbRoot ((True, b, n, r) # C)" and D: "ctx_at K s (LeftOf b) ((False, c, m, wl) # D)"
    and wr: "tree_at K s (n_right (ctes s c)) wr" and dist: "distinct (nodes (Node wl (c, m) wr))"
    and lv: "lvls_le 250 (Node wl (c, m) wr)" and ap: "apart b r C D (set (nodes (Node wl (c, m) wr)))"
  shows "\<exists>p s1 s'. mdb_rebalance K (Some c) s = Some (p, s1) \<and> s' = write_loc (cur_loc D b) (Some p) s1 \<and>
    ctx_at K s' MdbRoot ((True, b, n, r) # C) \<and> ctx_at K s' (LeftOf b) D \<and>
    tree_at K s' (read_loc s' (cur_loc D b)) (aa_rebalance (Node wl (c, m) wr)) \<and>
    (\<forall>x. x \<notin> set (nodes (Node wl (c, m) wr)) \<union> set (path D) \<longrightarrow> ctes s' x = ctes s x) \<and> same_data s s' \<and>
    mdb_root s' = mdb_root s \<and> kcb_root s' = kcb_root s"
proof -
  let ?w = "Node wl (c, m) wr"
  have "half_at K s c m wl wr" using D wr by (simp add: half_at_def read_side)
  from rebalance_below [OF C this dist lv ap] obtain p s1 where
    run: "mdb_rebalance K (Some c) s = Some (p, s1)" and t1: "tree_at K s1 (Some p) (aa_rebalance ?w)"
    and fr: "\<And>x. x \<notin> set (nodes ?w) \<Longrightarrow> ctes s1 x = ctes s x" and dat: "same_data s s1"
    and roots: "mdb_root s1 = mdb_root s" "kcb_root s1 = kcb_root s" by blast
  have ap0: "apart b r C D {}" using ap by (simp add: apart_def)
  have bw: "b \<notin> set (nodes ?w)" using ap by (auto simp: apart_def)
  have C1: "ctx_at K s1 MdbRoot ((True, b, n, r) # C)"
    using ap roots by (intro ctx_at_frame [OF C] fr) (auto simp: apart_def)
  have D1: "ctx_at K s1 (LeftOf b) D"
  proof (rule ctx_at_frame)
    show "ctx_at K s (LeftOf b) D" using D by simp
    show "ctes s1 x = ctes s x" if "x \<in> ctx_nodes D" for x
      using ap that by (intro fr) (auto simp: apart_def)
    show "read_loc s1 (LeftOf b) = read_loc s (LeftOf b)" using fr [OF bw] by simp
  qed
  define s' where "s' = write_loc (cur_loc D b) (Some p) s1"
  note wr = write_cur [OF C1 D1 ap0, where q = "Some p", folded s'_def]
  have "tree_at K s' (Some p) (aa_rebalance ?w)"
    unfolding s'_def using t1 wr(3) ap
    by (subst tree_at_frame [where A = "set (path D)"]) (auto simp: apart_def s'_def)
  moreover have "ctes s' x = ctes s x" if "x \<notin> set (nodes ?w) \<union> set (path D)" for x
    using that fr wr(3) [of x] by simp
  moreover have "same_data s s'" using dat unfolding s'_def by (rule same_data_trans) simp
  ultimately show ?thesis using run wr(1,2,4,5) roots by (auto simp: s'_def)
qed

lemma exchange_remove_max:
  assumes "ctx_at K s MdbRoot ((True, a, n, r) # C)" "ctx_at K s (LeftOf a) D"
    and "read_loc s (hole (LeftOf a) D) = Some c" "read_loc s (cur_loc D a) = Some c" "tree_at K s (Some c) w"
    and "aa_ok w" "lvl w \<le> 250" "distinct (nodes w)" "apart a r C D (set (nodes w))" "right_spine D"
    and "\<And>x. x \<in> insert a (set (path D) \<union> set (nodes w)) \<Longrightarrow> type_of K (cap (ctes s x)) \<noteq> 0"
    and "aa_split_max w = (w', b)"
  shows "\<exists>s'. mdb_exchange_remove K a (ctx_parent C) (cur_loc D a) (leaf_parent D a) 1 s = Some (Some b, s') \<and>
    ctx_at K s' MdbRoot ((True, b, n, r) # C) \<and> ctx_at K s' (LeftOf b) D \<and> tree_at K s' (read_loc s' (cur_loc D b)) w' \<and>
    detached (ctes s' a) \<and> replaced s C b (insert a (set (nodes w) \<union> set (path D))) s'"
  using assms
proof (induction w arbitrary: D c w' rule: atree_induct)
  case (Node wl x m wr)
  have x: "x = c" using Node.prems(5) by simp
  have lp: "leaf_parent D a \<in> insert a (set (path D))" by (cases D rule: path.cases) (auto simp: leaf_parent_def)
  note asserts = exchange_remove_asserts [OF Node.prems(1-3,5,9,10)]
  show ?case
  proof (cases "wr = Leaf")
    case True
    then have w: "wl = Leaf" "m = 1" "w' = Leaf" "b = c" using Node.prems(6,12) x by (auto simp: lvl_0_iff)
    have tree: "tree_at K s (Some c) (Node Leaf (c, 1) Leaf)" and ap: "apart a r C D {c}"
      using Node.prems(5,9) True w x by simp_all
    have ty: "type_of K (cap (ctes s a)) \<noteq> 0" "type_of K (cap (ctes s c)) \<noteq> 0" "type_of K (cap (ctes s (leaf_parent D a))) \<noteq> 0"
      using Node.prems(11) [of a] Node.prems(11) [of c] Node.prems(11) [of "leaf_parent D a"] lp x by auto
    from exchange_remove_leaf [OF Node.prems(1-4) tree ap Node.prems(10) ty] show ?thesis
      using True w x by auto
  next
    case False
    obtain wr' where wr': "aa_split_max wr = (wr', b)" "w' = aa_rebalance (Node wl (c, m) wr')"
      using Node.prems(12) False x by (auto split: prod.splits)
    have tree: "m = Suc (unat (n_level (ctes s c)))" "tree_at K s (n_left (ctes s c)) wl" "tree_at K s (n_right (ctes s c)) wr"
      using Node.prems(5) x by auto
    obtain e where e: "n_right (ctes s c) = Some e" using tree_at_nonempty [OF tree(3) False] by auto
    let ?D = "(False, c, m, wl) # D"
    have "\<exists>s1. mdb_exchange_remove K a (ctx_parent C) (cur_loc ?D a) (leaf_parent ?D a) 1 s = Some (Some b, s1) \<and>
      ctx_at K s1 MdbRoot ((True, b, n, r) # C) \<and> ctx_at K s1 (LeftOf b) ?D \<and> tree_at K s1 (read_loc s1 (cur_loc ?D b)) wr' \<and>
      detached (ctes s1 a) \<and> replaced s C b (insert a (set (nodes wr) \<union> set (path ?D))) s1"
    proof (rule Node.IH(2) [of ?D e])
      show "ctx_at K s (LeftOf a) ?D" using Node.prems(2,3) tree by (simp add: read_side)
      show "apart a r C ?D (set (nodes wr))" using Node.prems(8,9) x by (intro apart_step) auto
      show "right_spine ?D" using Node.prems(10) by (simp add: right_spine_def)
    qed (use Node.prems x e tree wr' in \<open>auto simp: cur_loc_def read_side\<close>)
    then obtain s1 where
      run: "mdb_exchange_remove K a (ctx_parent C) (RightOf c) c 1 s = Some (Some b, s1)"
      and C1: "ctx_at K s1 MdbRoot ((True, b, n, r) # C)" and D1: "ctx_at K s1 (LeftOf b) ?D"
      and wr1: "tree_at K s1 (n_right (ctes s1 c)) wr'" and det: "detached (ctes s1 a)"
      and rep: "replaced s C b (insert a (set (nodes wr) \<union> set (path ?D))) s1"
      by (auto simp: cur_loc_Cons leaf_parent_def)
    have sm: "nodes wr = nodes wr' @ [b]" "shrunk wr wr'" using aa_split_max [OF _ False wr'(1)] Node.prems(6) by auto
    have dist: "distinct (nodes (Node wl (c, m) wr'))" and bw: "b \<notin> set (nodes (Node wl (c, m) wr'))"
      using Node.prems(8) x sm(1) by auto
    have lv: "lvls_le 250 (Node wl (c, m) wr')"
      using Node.prems(6,7) sm(2) aa_ok_lvls [of wl] aa_ok_lvls [of wr'] by (auto simp: shrunk_def elim!: lvls_le_mono)
    have "apart a r C D (insert b (set (nodes (Node wl (c, m) wr'))))"
      using Node.prems(9) x sm(1) by (simp add: insert_commute Un_commute)
    then have ap: "apart b r C D (set (nodes (Node wl (c, m) wr')))" using bw by (rule apart_swap)
    from exchange_remove_up [OF C1 D1 wr1 dist lv ap] obtain p s2 s' where
      up: "mdb_rebalance K (Some c) s1 = Some (p, s2)" "s' = write_loc (cur_loc D b) (Some p) s2"
      "ctx_at K s' MdbRoot ((True, b, n, r) # C)" "ctx_at K s' (LeftOf b) D" "tree_at K s' (read_loc s' (cur_loc D b)) w'"
      and fr: "\<And>y. y \<notin> set (nodes (Node wl (c, m) wr')) \<union> set (path D) \<Longrightarrow> ctes s' y = ctes s1 y"
      and dat: "same_data s1 s'" "mdb_root s' = mdb_root s1" "kcb_root s' = kcb_root s1"
      unfolding wr'(2) by blast
    have a: "a \<notin> set (nodes (Node wl (c, m) wr')) \<union> set (path D)" and ab: "a \<noteq> b"
      using Node.prems(9) x sm(1) by (auto simp: apart_def)
    have "replaced s C b (insert a (set (nodes (Node wl (x, m) wr)) \<union> set (path D))) s1"
      using rep by (rule replaced_mono) (auto simp: x)
    then have "replaced s C b (insert a (set (nodes (Node wl (x, m) wr)) \<union> set (path D))) s'"
      using dat Node.prems(9) fr sm(1) x by (elim replaced_trans) (auto simp: apart_def)
    moreover have "mdb_exchange_remove K a (ctx_parent C) (cur_loc D a) (leaf_parent D a) 1 s = Some (Some b, s')"
    proof -
      have "shape_at s1 (read_loc s1 (hole MdbRoot ((True, b, n, r) # C))) (plug ?D wr')"
        using shape_plug [OF D1, of wr'] tree_at_shape [OF wr1] by (simp add: side_def)
      from reachable_ctx [OF C1 this, of a] have "mdb_is_reachable s1 (mdb_root s1) a = Some False"
        using Node.prems(9) ab x sm(1) by (auto simp: set_plug apart_def)
      moreover have "type_of K (cap (ctes s a)) \<noteq> 0" "type_of K (cap (ctes s c)) \<noteq> 0" "type_of K (cap (ctes s (leaf_parent D a))) \<noteq> 0"
        using Node.prems(11) [of a] Node.prems(11) [of c] Node.prems(11) [of "leaf_parent D a"] lp x by auto
      moreover have "cur_loc D a = cur_loc D b" by (cases D rule: path.cases) (auto simp: cur_loc_def)
      ultimately show ?thesis
        using asserts Node.prems(4) e run up(1,2) by (subst mdb_exchange_remove.simps) simp
    qed
    moreover have "detached (ctes s' a)" using det fr [OF a] by simp
    ultimately show ?thesis using up by blast
  qed
qed simp

end
