(* ===== verification/Mdb_Delete.thy ===== *)
theory Mdb_Delete
  imports Mdb_Remove
begin

text \<open>
  \<^verbatim>\<open>mdb_subtree_remove\<close> and \<^verbatim>\<open>mdb_remove\<close>: finding the slot, unlinking it and rebalancing the path
  back to the root.
\<close>

section \<open>Rebalancing a node in its context\<close>

text \<open>Like \<open>replaced\<close>, but the root in the kernel control block may lag behind if it did before.\<close>

definition retained :: "'c mdb \<Rightarrow> ctx \<Rightarrow> addr \<Rightarrow> addr set \<Rightarrow> 'c mdb \<Rightarrow> bool" where
  "retained s C b A s' \<longleftrightarrow>
     same_data s s' \<and> (\<forall>x. x \<notin> A \<union> ctx_nodes C \<longrightarrow> ctes s' x = ctes s x) \<and>
     (\<forall>x \<in> ctx_nodes C. ctes s' x = ctes (write_loc (hole MdbRoot C) (Some b) s) x) \<and>
     (if C = [] then mdb_root s' = Some b \<and> (kcb_root s = mdb_root s \<longrightarrow> kcb_root s' = Some b)
      else mdb_root s' = mdb_root s \<and> kcb_root s' = kcb_root s)"

lemma replaced_retained: "replaced s C b A s' \<Longrightarrow> retained s C b A s'"
  by (auto simp: replaced_def retained_def)

lemma retained_same:
  assumes "read_loc s (hole MdbRoot C) = Some a" "\<And>x. x \<notin> A \<Longrightarrow> ctes s' x = ctes s x" "same_data s s'"
    "mdb_root s' = mdb_root s" "kcb_root s' = kcb_root s" "A \<inter> ctx_nodes C = {}"
  shows "retained s C a A s'"
proof -
  have "write_loc (hole MdbRoot C) (Some a) s = s" using assms(1) by (rule write_loc_same)
  moreover have "x \<notin> A" if "x \<in> ctx_nodes C" for x using assms(6) that by auto
  ultimately show ?thesis using assms by (auto simp: retained_def)
qed

lemma write_loc_twice: "write_loc l p (write_loc l q s) = write_loc l p s"
  by (cases l) (auto simp: upd_cte_def)

lemma remove_finish:
  assumes C: "ctx_at K s1 MdbRoot C" and half: "half_at K s1 b n l r"
    and dist: "distinct (nodes (Node l (b, n) r))" and lv: "lvls_le 250 (Node l (b, n) r)"
    and ret: "retained s C b A s1" and A: "set (nodes (Node l (b, n) r)) \<subseteq> A" "A \<inter> ctx_nodes C = {}"
  shows "\<exists>p s2 s'. mdb_rebalance K (Some b) s1 = Some (p, s2) \<and> p \<in> A \<and> s' = write_loc (hole MdbRoot C) (Some p) s2 \<and>
    moved K A (hole MdbRoot C) s s' (aa_rebalance (Node l (b, n) r)) \<and>
    (\<forall>x. x \<notin> set (nodes (Node l (b, n) r)) \<union> ctx_nodes C \<longrightarrow> ctes s' x = ctes s1 x)"
proof -
  let ?t = "Node l (b, n) r"
  have root: "mdb_root s1 = Some b \<or> mdb_root s1 \<notin> Some ` set (nodes ?t)"
  proof (cases "C = []")
    case False
    from ctx_at_read_base [OF C this] A show ?thesis by auto
  qed (use ret in \<open>simp add: retained_def\<close>)
  from rebalance_chain [OF half dist lv root] obtain p s2 where
    run: "mdb_rebalance K (Some b) s1 = Some (p, s2)"
    and ch: "chain K (set (nodes ?t)) (mdb_update_end K (Some b) s1) b s2 p (aa_rebalance ?t)" by blast
  then have st: "step K (set (nodes ?t)) (mdb_update_end K (Some b) s1) (Some b) s2 (Some p) (aa_rebalance ?t)"
    by (simp add: chain_def)
  define s' where "s' = write_loc (hole MdbRoot C) (Some p) s2"
  have fr: "ctes s2 x = ctes s1 x" if "x \<notin> set (nodes ?t)" for x using st that by (simp add: step_def)
  have owner: "x \<notin> loc_owner (hole MdbRoot C)" if "x \<notin> ctx_nodes C" for x
    using that hole_owner_root [of C] by auto
  have "tree_at K s' (Some p) (aa_rebalance ?t)"
    unfolding s'_def using chainD(1) [OF ch] hole_owner_root [of C] A
    by (subst tree_at_frame [where A = "loc_owner (hole MdbRoot C)"]) (auto simp: ctes_write_loc)
  moreover have "same_data s s'"
  proof -
    have "same_data s s1" using ret by (simp add: retained_def)
    moreover have "same_data s1 s2" using st by (simp add: step_def same_data_def)
    ultimately show ?thesis unfolding s'_def by (blast intro: same_data_trans same_data_write_loc)
  qed
  moreover have "ctes s' x = ctes (write_loc (hole MdbRoot C) (Some p) s) x" if "x \<notin> A" for x
  proof (cases "x \<in> ctx_nodes C")
    case True
    then have "ctes s2 x = ctes (write_loc (hole MdbRoot C) (Some b) s) x"
      using fr [of x] ret A by (auto simp: retained_def)
    then have "ctes s' x = ctes (write_loc (hole MdbRoot C) (Some p) (write_loc (hole MdbRoot C) (Some b) s)) x"
      unfolding s'_def by (rule ctes_write_loc_cong)
    then show ?thesis by (simp add: write_loc_twice)
  next
    case False
    then have "ctes s' x = ctes s x" unfolding s'_def using owner [OF False] fr [of x] A ret that
      by (auto simp: ctes_write_loc retained_def)
    then show ?thesis using owner [OF False] by (simp add: ctes_write_loc)
  qed
  moreover have "mdb_root s1 \<noteq> Some b" if "C \<noteq> []"
    using ctx_at_read_base [OF C that] A by auto
  ultimately have "moved K A (hole MdbRoot C) s s' (aa_rebalance ?t)"
    using st ret by (auto simp: moved_def s'_def step_def retained_def split: if_splits)
  moreover have "ctes s' x = ctes s1 x" if "x \<notin> set (nodes ?t) \<union> ctx_nodes C" for x
    using that fr [of x] owner [of x] by (simp add: s'_def ctes_write_loc)
  moreover have "p \<in> A" using chainD(6) [OF ch] A(1) by auto
  ultimately show ?thesis using run by (auto simp: s'_def)
qed

section \<open>Unlinking a node with children\<close>

lemma tree_at_tmp [simp]: "tree_at K (s\<lparr>tmp := q\<rparr>) p t = tree_at K s p t"
  by (rule tree_at_cong) simp

lemma read_loc_tmp [simp]: "l \<noteq> Tmp \<Longrightarrow> read_loc (s\<lparr>tmp := q\<rparr>) l = read_loc s l"
  by (cases l) auto

lemma ctx_at_tmp [simp]: "L \<noteq> Tmp \<Longrightarrow> ctx_at K (s\<lparr>tmp := q\<rparr>) L C = ctx_at K s L C"
  using ctx_at_frame [of K s L C "s\<lparr>tmp := q\<rparr>" L] ctx_at_frame [of K "s\<lparr>tmp := q\<rparr>" L C s L] by auto

lemma replaced_tmp: "replaced (s\<lparr>tmp := q\<rparr>) C b A s' \<longleftrightarrow> replaced s C b A s'"
proof -
  have "ctes (write_loc (hole MdbRoot C) p (s\<lparr>tmp := q\<rparr>)) x = ctes (write_loc (hole MdbRoot C) p s) x" for p x
    by (rule ctes_write_loc_cong) simp
  then show ?thesis by (simp add: replaced_def same_data_def)
qed

abbreviation join :: "bool \<Rightarrow> atree \<Rightarrow> addr \<Rightarrow> nat \<Rightarrow> atree \<Rightarrow> atree" where
  "join d v b n u \<equiv> (if d then Node v (b, n) u else Node u (b, n) v)"

text \<open>
  The neighbour \<open>b\<close> has taken the place of the target \<open>a\<close>; its new child \<open>v\<close>, which the local
  variable holds, is linked, and the subtree is rebalanced.
\<close>

lemma unlink_finish:
  assumes C: "ctx_at K s1 MdbRoot ((d, b, n, u) # C)" and v: "tree_at K s1 (tmp s1) v"
    and rep: "replaced s C b A s1" and det: "detached (ctes s1 a)"
    and dist: "distinct (nodes (join d v b n u))" and lv: "lvls_le 250 (join d v b n u)"
    and A: "insert a (set (nodes (join d v b n u))) \<subseteq> A" "A \<inter> ctx_nodes C = {}" "a \<notin> set (nodes (join d v b n u))"
  defines "s2 \<equiv> write_loc (side d b) (tmp s1) s1"
  shows "\<exists>p s3 s'. mdb_is_reachable s2 (mdb_root s2) a = Some False \<and> mdb_rebalance K (Some b) s2 = Some (p, s3) \<and> p \<in> A \<and>
    s' = write_loc (hole MdbRoot C) (Some p) s3 \<and>
    moved K A (hole MdbRoot C) s s' (aa_rebalance (join d v b n u)) \<and> detached (ctes s' a)"
proof -
  have bA: "b \<in> A" "b \<notin> ctx_nodes C" "a \<noteq> b" "b \<notin> set (nodes u)" "b \<notin> set (nodes v)" "a \<notin> ctx_nodes C"
    using A dist by (auto split: if_splits)
  have s2: "ctes s2 x = ctes s1 x" if "x \<noteq> b" for x using that by (simp add: s2_def ctes_write_loc)
  have C2: "ctx_at K s2 MdbRoot C" "read_loc s2 (hole MdbRoot C) = Some b"
  proof -
    show "ctx_at K s2 MdbRoot C"
    proof (rule ctx_at_frame)
      show "ctx_at K s1 MdbRoot C" using C by simp
      show "ctes s2 x = ctes s1 x" if "x \<in> ctx_nodes C" for x using bA that by (intro s2) auto
    qed (simp add: s2_def)
    have "hole MdbRoot C \<noteq> side d b" using hole_owner_root [of C] bA by auto
    then show "read_loc s2 (hole MdbRoot C) = Some b" using C by (simp add: s2_def read_write_other)
  qed
  have "tree_at K s2 p u = tree_at K s1 p u" "tree_at K s2 p v = tree_at K s1 p v" for p
    using s2 bA by (auto intro!: tree_at_frame [where A = "{b}"])
  moreover have "read_loc s2 (side d b) = tmp s1" "read_loc s2 (side (\<not> d) b) = read_loc s1 (side (\<not> d) b)"
    by (auto simp: s2_def read_write_other)
  moreover have "n_level (ctes s2 b) = n_level (ctes s1 b)" by (simp add: s2_def)
  ultimately have half: "half_at K s2 b n (if d then v else u) (if d then u else v)"
    using C v by (auto simp: half_at_def read_side split: if_splits)
  have join: "join d v b n u = Node (if d then v else u) (b, n) (if d then u else v)" by simp
  have "shape_at s2 (read_loc s2 (hole MdbRoot C)) (join d v b n u)"
    unfolding join C2(2) using half by (auto simp: half_at_def intro: tree_at_shape)
  from reachable_ctx [OF C2(1) this, of a] have reach: "mdb_is_reachable s2 (mdb_root s2) a = Some False"
    using A(3) bA by simp
  have "replaced s C b A s2"
  proof (rule replaced_trans [OF rep])
    show "ctes s2 x = ctes s1 x" if "x \<notin> A" for x using bA that by (intro s2) auto
  qed (use A(2) in \<open>simp_all add: s2_def\<close>)
  then have ret: "retained s C b A s2" by (rule replaced_retained)
  from remove_finish [OF C2(1) half dist [unfolded join] lv [unfolded join] ret _ A(2)] A(1) obtain p s3 s' where
    fin: "mdb_rebalance K (Some b) s2 = Some (p, s3)" "p \<in> A" "s' = write_loc (hole MdbRoot C) (Some p) s3"
    "moved K A (hole MdbRoot C) s s' (aa_rebalance (join d v b n u))"
    "\<And>x. x \<notin> set (nodes (join d v b n u)) \<union> ctx_nodes C \<Longrightarrow> ctes s' x = ctes s2 x"
    unfolding join by auto
  have "ctes s' a = ctes s1 a" using fin(5) [of a] A(3) bA s2 [of a] by simp
  then show ?thesis using reach fin det by auto
qed

lemma same_key_compare: "compare_caps K (cte_cap s a) (cte_cap s a) True = 0"
  by (simp add: compare_caps_eq)

text \<open>What the functions assume of the subtree and its context.\<close>

definition remove_pre :: "'c cap_ops \<Rightarrow> 'c mdb \<Rightarrow> ctx \<Rightarrow> atree \<Rightarrow> bool" where
  "remove_pre K s C t \<longleftrightarrow>
     ctx_at K s MdbRoot C \<and> tree_at K s (read_loc s (hole MdbRoot C)) t \<and>
     ordered (key_of K s) (nodes t) \<and> aa_ok t \<and> lvl t \<le> 250 \<and>
     ctx_distinct C \<and> set (nodes t) \<inter> ctx_nodes C = {} \<and>
     (\<forall>x \<in> set (nodes t). type_of K (cap (ctes s x)) \<noteq> 0)"

lemma remove_preD:
  assumes "remove_pre K s C (Node l (a, n) r)"
  shows "read_loc s (hole MdbRoot C) = Some a" "tree_at K s (Some a) (Node l (a, n) r)"
    "distinct (nodes (Node l (a, n) r))" "lvls_le 250 (Node l (a, n) r)"
    "ctx_at K s MdbRoot ((True, a, n, r) # C)" "ctx_at K s MdbRoot ((False, a, n, l) # C)"
    "apart a r C [] (set (nodes l))" "apart a l C [] (set (nodes r))"
proof -
  show a: "read_loc s (hole MdbRoot C) = Some a" "tree_at K s (Some a) (Node l (a, n) r)"
    using assms by (auto simp: remove_pre_def)
  have ord: "ordered (key_of K s) (nodes (Node l (a, n) r))" and ok: "aa_ok (Node l (a, n) r)" "lvl (Node l (a, n) r) \<le> 250"
    using assms unfolding remove_pre_def by auto
  from ord show d: "distinct (nodes (Node l (a, n) r))" by (rule ordered_distinct)
  from aa_ok_lvls [OF ok(1)] ok(2) show "lvls_le 250 (Node l (a, n) r)" by (rule lvls_le_mono)
  show "ctx_at K s MdbRoot ((True, a, n, r) # C)" "ctx_at K s MdbRoot ((False, a, n, l) # C)"
    using assms a by (auto simp: remove_pre_def read_side)
  show "apart a r C [] (set (nodes l))" "apart a l C [] (set (nodes r))"
    using assms d by (auto simp: remove_pre_def apart_def ctx_distinct_def)
qed

lemma remove_preD':
  assumes "remove_pre K s C t"
  shows "aa_ok t" "lvl t \<le> 250" "ordered (key_of K s) (nodes t)" "set (nodes t) \<inter> ctx_nodes C = {}" "ctx_at K s MdbRoot C"
    "\<And>x. x \<in> set (nodes t) \<Longrightarrow> type_of K (cap (ctes s x)) \<noteq> 0"
  using assms by (simp_all add: remove_pre_def)

lemma remove_root_max:
  assumes pre: "remove_pre K s C (Node l (a, n) r)" and l: "l \<noteq> Leaf" "aa_split_max l = (l', b)"
  shows "\<exists>s'. mdb_subtree_remove K a (hole MdbRoot C) (ctx_parent C) s = Some (SYS_ERR_OK, s') \<and>
    moved K (set (nodes (Node l (a, n) r))) (hole MdbRoot C) s s' (aa_rebalance (Node l' (b, n) r)) \<and> detached (ctes s' a)"
proof -
  let ?A = "set (nodes (Node l (a, n) r))"
  note pre' = remove_preD [OF pre] and pre'' = remove_preD' [OF pre]
  define s0 where "s0 = s\<lparr>tmp := n_left (ctes s a)\<rparr>"
  have okl: "aa_ok l" "aa_ok r" "lvl l \<le> 250" using pre''(1,2) by auto
  obtain c where c: "n_left (ctes s a) = Some c"
    using pre'(2) tree_at_nonempty [of K s "n_left (ctes s a)" l] l(1) by auto
  have sm: "nodes l = nodes l' @ [b]" "shrunk l l'" using aa_split_max [OF okl(1) l] by auto
  have "\<exists>s1. mdb_exchange_remove K a (ctx_parent C) (cur_loc [] a) (leaf_parent [] a) 1 s0 = Some (Some b, s1) \<and>
    ctx_at K s1 MdbRoot ((True, b, n, r) # C) \<and> ctx_at K s1 (LeftOf b) [] \<and> tree_at K s1 (read_loc s1 (cur_loc [] b)) l' \<and>
    detached (ctes s1 a) \<and> replaced s0 C b (insert a (set (nodes l) \<union> set (path []))) s1"
  proof (rule exchange_remove_max)
    show "ctx_at K s0 MdbRoot ((True, a, n, r) # C)" using pre'(5) by (simp add: s0_def del: ctx_at.simps)
    show "tree_at K s0 (Some c) l" using pre'(2) c by (simp add: s0_def)
    show "type_of K (cap (ctes s0 x)) \<noteq> 0" if "x \<in> insert a (set (path []) \<union> set (nodes l))" for x
      using pre''(6) [of x] that by (auto simp: s0_def)
  qed (use okl pre'(3,7) l c in \<open>auto simp: s0_def cur_loc_def right_spine_def\<close>)
  then obtain s1 where run: "mdb_exchange_remove K a (ctx_parent C) Tmp a 1 s0 = Some (Some b, s1)"
    and C1: "ctx_at K s1 MdbRoot ((True, b, n, r) # C)" and v: "tree_at K s1 (tmp s1) l'" and det: "detached (ctes s1 a)"
    and rep: "replaced s0 C b (insert a (set (nodes l))) s1"
    by (auto simp: cur_loc_def leaf_parent_def)
  have "replaced s C b (insert a (set (nodes l))) s1" using rep by (simp only: s0_def replaced_tmp)
  then have rep': "replaced s C b ?A s1" by (rule replaced_mono) auto
  have "\<exists>p s3 s'. mdb_is_reachable (write_loc (side True b) (tmp s1) s1) (mdb_root (write_loc (side True b) (tmp s1) s1)) a = Some False \<and>
    mdb_rebalance K (Some b) (write_loc (side True b) (tmp s1) s1) = Some (p, s3) \<and> p \<in> ?A \<and>
    s' = write_loc (hole MdbRoot C) (Some p) s3 \<and>
    moved K ?A (hole MdbRoot C) s s' (aa_rebalance (join True l' b n r)) \<and> detached (ctes s' a)"
  proof (rule unlink_finish [OF C1 v rep' det])
    show "distinct (nodes (join True l' b n r))" "insert a (set (nodes (join True l' b n r))) \<subseteq> ?A"
      "a \<notin> set (nodes (join True l' b n r))"
      using pre'(3) sm(1) by auto
    show "lvls_le 250 (join True l' b n r)"
      using pre'(4) sm(2) aa_ok_lvls [of l'] okl by (auto simp: shrunk_def elim!: lvls_le_mono)
  qed (use pre''(4) in simp)
  then obtain p s3 s' where fin: "mdb_is_reachable (write_loc (LeftOf b) (tmp s1) s1) (mdb_root (write_loc (LeftOf b) (tmp s1) s1)) a = Some False"
    "mdb_rebalance K (Some b) (write_loc (LeftOf b) (tmp s1) s1) = Some (p, s3)" "p \<in> ?A"
    "s' = write_loc (hole MdbRoot C) (Some p) s3" "moved K ?A (hole MdbRoot C) s s' (aa_rebalance (Node l' (b, n) r))" "detached (ctes s' a)"
    by (auto simp: side_True)
  have "cap (ctes s' x) = cap (ctes s x)" for x using same_data_cap [OF movedD(2) [OF fin(5)]] .
  then have "type_of K (cap (ctes s' a)) \<noteq> 0" "type_of K (cap (ctes s' p)) \<noteq> 0" using pre''(6) fin(3) by auto
  then have "mdb_subtree_remove K a (hole MdbRoot C) (ctx_parent C) s = Some (SYS_ERR_OK, s')"
    using pre'(1) c run fin(1,2,4) same_key_compare [of K s a]
    by (subst mdb_subtree_remove.simps) (simp add: s0_def Let_def)
  with fin(5,6) show ?thesis by blast
qed

lemma exchange_remove_min:
  assumes C: "ctx_at K s MdbRoot ((False, a, n, Leaf) # C)" and c: "n_right (ctes s a) = Some c" "tmp s = Some c"
    and leaf: "tree_at K s (Some c) (Node Leaf (c, 1) Leaf)" and ap: "apart a Leaf C [] {c}"
    and ty: "type_of K (cap (ctes s a)) \<noteq> 0" "type_of K (cap (ctes s c)) \<noteq> 0"
  shows "\<exists>s'. mdb_exchange_remove K a (ctx_parent C) Tmp a (-1) s = Some (Some c, s') \<and>
    ctx_at K s' MdbRoot ((False, c, n, Leaf) # C) \<and> tmp s' = None \<and> detached (ctes s' a) \<and> replaced s C c {a, c} s'"
proof -
  have det: "detached (ctes s c)" using leaf by (auto simp: detached_def unat_eq_0)
  have R: "side False a = RightOf a" by (simp add: side_def)
  have "\<exists>s1. mdb_exchange_nodes K a (ctx_parent C) c (Some (leaf_parent [] a)) s = Some s1 \<and>
    ctx_at K s1 MdbRoot ((False, c, n, Leaf) # C) \<and> ctx_at K s1 (side False c) [] \<and>
    read_loc s1 (hole (side False c) []) = Some a \<and> detached (ctes s1 a) \<and>
    replaced s C c (insert a (insert c (set (path [])))) s1 \<and> tmp s1 = tmp s"
    using C c det ap by (intro exchange_nodes_ctx) (auto simp: R)
  then obtain s1 where run: "mdb_exchange_nodes K a (ctx_parent C) c (Some a) s = Some s1"
    and s1: "ctx_at K s1 MdbRoot ((False, c, n, Leaf) # C)" "detached (ctes s1 a)" "replaced s C c {a, c} s1"
    by (auto simp: leaf_parent_def)
  have "a \<noteq> c" using ap by (auto simp: apart_def)
  then have cmp: "compare_caps K (cte_cap s a) (cte_cap s c) True \<noteq> 0" by (auto simp: compare_caps_eq dest: cte_key_inj)
  have child: "mdb_is_child a (ctx_parent C) s" "mdb_is_child c (Some a) s"
    using C c(1) ctx_is_child [of s C a] by (simp_all add: mdb_is_child_def [of c])
  have "shape_at s (read_loc s (hole MdbRoot ((False, a, n, Leaf) # C))) (Node Leaf (c, 1) Leaf)"
    using tree_at_shape [OF leaf] c(1) by (simp add: R)
  from reachable_ctx [OF C this, of a] have reach: "mdb_is_reachable s (mdb_root s) a = Some True" by simp
  have "mdb_exchange_remove K a (ctx_parent C) Tmp a (-1) s = Some (Some c, s1\<lparr>tmp := None\<rparr>)"
    using run cmp child reach ty c det by (subst mdb_exchange_remove.simps) (simp add: NULL_def detached_def)
  moreover have "replaced s C c {a, c} (s1\<lparr>tmp := None\<rparr>)"
    using s1(3) by (simp add: replaced_def same_data_def)
  ultimately show ?thesis using s1(1,2) by (auto simp del: ctx_at.simps)
qed

lemma remove_root_min:
  assumes pre: "remove_pre K s C (Node Leaf (a, n) (Node Leaf (c, 1) Leaf))"
  shows "\<exists>s'. mdb_subtree_remove K a (hole MdbRoot C) (ctx_parent C) s = Some (SYS_ERR_OK, s') \<and>
    moved K {a, c} (hole MdbRoot C) s s' (aa_rebalance (Node Leaf (c, n) Leaf)) \<and> detached (ctes s' a)"
proof -
  note pre' = remove_preD [OF pre] and pre'' = remove_preD' [OF pre]
  define s0 where "s0 = s\<lparr>tmp := n_right (ctes s a)\<rparr>"
  have c: "n_right (ctes s a) = Some c" "n_left (ctes s a) = None" using pre'(2) by auto
  have "\<exists>s1. mdb_exchange_remove K a (ctx_parent C) Tmp a (-1) s0 = Some (Some c, s1) \<and>
    ctx_at K s1 MdbRoot ((False, c, n, Leaf) # C) \<and> tmp s1 = None \<and> detached (ctes s1 a) \<and> replaced s0 C c {a, c} s1"
  proof (rule exchange_remove_min)
    show "ctx_at K s0 MdbRoot ((False, a, n, Leaf) # C)" using pre'(6) by (simp add: s0_def del: ctx_at.simps)
    have "tree_at K s (Some c) (Node Leaf (c, 1) Leaf)" using pre'(2) c(1) by auto
    then show "tree_at K s0 (Some c) (Node Leaf (c, 1) Leaf)" unfolding s0_def by (simp only: tree_at_tmp)
  qed (use pre'(8) pre''(6) c in \<open>auto simp: s0_def\<close>)
  then obtain s1 where run: "mdb_exchange_remove K a (ctx_parent C) Tmp a (-1) s0 = Some (Some c, s1)"
    and C1: "ctx_at K s1 MdbRoot ((False, c, n, Leaf) # C)" and v: "tmp s1 = None" and det: "detached (ctes s1 a)"
    and rep: "replaced s0 C c {a, c} s1" by blast
  have rep': "replaced s C c {a, c} s1" using rep by (simp only: s0_def replaced_tmp)
  have "\<exists>p s3 s'. mdb_is_reachable (write_loc (side False c) (tmp s1) s1) (mdb_root (write_loc (side False c) (tmp s1) s1)) a = Some False \<and>
    mdb_rebalance K (Some c) (write_loc (side False c) (tmp s1) s1) = Some (p, s3) \<and> p \<in> {a, c} \<and>
    s' = write_loc (hole MdbRoot C) (Some p) s3 \<and>
    moved K {a, c} (hole MdbRoot C) s s' (aa_rebalance (join False Leaf c n Leaf)) \<and> detached (ctes s' a)"
    using pre'(3,4) pre''(4) v by (intro unlink_finish [OF C1 _ rep' det]) auto
  then obtain p s3 s' where fin: "mdb_is_reachable (write_loc (RightOf c) (tmp s1) s1) (mdb_root (write_loc (RightOf c) (tmp s1) s1)) a = Some False"
    "mdb_rebalance K (Some c) (write_loc (RightOf c) (tmp s1) s1) = Some (p, s3)" "p \<in> {a, c}"
    "s' = write_loc (hole MdbRoot C) (Some p) s3" "moved K {a, c} (hole MdbRoot C) s s' (aa_rebalance (Node Leaf (c, n) Leaf))"
    "detached (ctes s' a)"
    by (auto simp: side_def)
  have "cap (ctes s' x) = cap (ctes s x)" for x using same_data_cap [OF movedD(2) [OF fin(5)]] .
  then have "type_of K (cap (ctes s' a)) \<noteq> 0" "type_of K (cap (ctes s' p)) \<noteq> 0" using pre''(6) fin(3) by auto
  then have "mdb_subtree_remove K a (hole MdbRoot C) (ctx_parent C) s = Some (SYS_ERR_OK, s')"
    using pre'(1) c run fin(1,2,4) same_key_compare [of K s a]
    by (subst mdb_subtree_remove.simps) (simp add: s0_def Let_def)
  with fin(5,6) show ?thesis by blast
qed

lemma remove_root_leaf:
  assumes pre: "remove_pre K s C (Node Leaf (a, n) Leaf)"
  shows "\<exists>s'. mdb_subtree_remove K a (hole MdbRoot C) (ctx_parent C) s = Some (SYS_ERR_OK, s') \<and>
    moved K {a} (hole MdbRoot C) s s' Leaf \<and> detached (ctes s' a)"
proof -
  note pre' = remove_preD [OF pre] and pre'' = remove_preD' [OF pre]
  let ?s = "write_loc (hole MdbRoot C) None s"
  have c: "n_right (ctes s a) = None" "n_left (ctes s a) = None" "n_level (ctes s a) = 0"
    using pre'(2) pre''(1) by (auto simp: unat_eq_0)
  have "mdb_subtree_remove K a (hole MdbRoot C) (ctx_parent C) s = Some (SYS_ERR_OK, ?s)"
    using pre'(1) c same_key_compare [of K s a] by (subst mdb_subtree_remove.simps) (simp add: Let_def)
  moreover have "moved K {a} (hole MdbRoot C) s ?s Leaf" by (simp add: moved_def)
  moreover have "a \<notin> loc_owner (hole MdbRoot C)" using pre''(4) hole_owner_root [of C] by auto
  then have "detached (ctes ?s a)" using c by (simp add: ctes_write_loc detached_def)
  ultimately show ?thesis by blast
qed

text \<open>Removing the topmost node of a subtree.\<close>

lemma remove_root:
  assumes pre: "remove_pre K s C (Node l (a, n) r)"
  shows "\<exists>s' t'. aa_remove (key_of K s) a (Node l (a, n) r) = Some t' \<and>
    mdb_subtree_remove K a (hole MdbRoot C) (ctx_parent C) s = Some (SYS_ERR_OK, s') \<and>
    moved K (set (nodes (Node l (a, n) r))) (hole MdbRoot C) s s' t' \<and> detached (ctes s' a)"
proof (cases "l = Leaf")
  case l: True
  show ?thesis
  proof (cases r rule: atree_cases)
    case Leaf
    with remove_root_leaf pre l show ?thesis by auto
  next
    case (Node rl c m rr)
    with remove_preD' [OF pre] l have r: "rl = Leaf" "rr = Leaf" "m = 1" by (auto simp: lvl_0_iff)
    with remove_root_min [of K s C a n c] pre l Node show ?thesis by auto
  qed
next
  case False
  obtain l' b where "aa_split_max l = (l', b)" by fastforce
  with remove_root_max [OF pre False this] False show ?thesis by auto
qed

section \<open>Descending to the target\<close>

lemma remove_pre_sub:
  assumes "remove_pre K s C (Node l (a, n) r)"
  shows "remove_pre K s ((True, a, n, r) # C) l" "remove_pre K s ((False, a, n, l) # C) r"
proof -
  note pre' = remove_preD [OF assms] and pre'' = remove_preD' [OF assms]
  have ord: "ordered (key_of K s) (nodes l)" "ordered (key_of K s) (nodes r)" "lvl l \<le> 250" "lvl r \<le> 250" "aa_ok l" "aa_ok r"
    using pre''(1-3) by (auto simp: sorted_wrt_append)
  have dist: "ctx_distinct ((True, a, n, r) # C)" "ctx_distinct ((False, a, n, l) # C)"
    using assms pre'(3) unfolding remove_pre_def ctx_distinct_def by auto
  have sub: "tree_at K s (n_left (ctes s a)) l" "tree_at K s (n_right (ctes s a)) r" using pre'(2) by simp_all
  have ds: "set (nodes l) \<inter> ctx_nodes ((True, a, n, r) # C) = {}" "set (nodes r) \<inter> ctx_nodes ((False, a, n, l) # C) = {}"
    using pre''(4) pre'(3) by auto
  show "remove_pre K s ((True, a, n, r) # C) l"
    unfolding remove_pre_def using ord pre'(5) dist(1) ds(1) sub(1) pre''(6) by (simp add: read_side del: ctx_at.simps)
  show "remove_pre K s ((False, a, n, l) # C) r"
    unfolding remove_pre_def using ord pre'(6) dist(2) ds(2) sub(2) pre''(6) by (simp add: read_side del: ctx_at.simps)
qed

lemma remove_up:
  assumes pre: "remove_pre K s C (Node l (a, n) r)" and half: "half_at K s1 a n l' r'"
    and fr: "\<And>b. b \<notin> set (nodes (Node l (a, n) r)) \<Longrightarrow> ctes s1 b = ctes s b" "same_data s s1"
      "mdb_root s1 = mdb_root s" "kcb_root s1 = kcb_root s"
    and dist: "distinct (nodes (Node l' (a, n) r'))" and lv: "lvls_le 250 (Node l' (a, n) r')"
    and sub: "set (nodes (Node l' (a, n) r')) \<subseteq> set (nodes (Node l (a, n) r))"
    and x: "x \<in> set (nodes (Node l (a, n) r))" "x \<notin> set (nodes (Node l' (a, n) r'))" "detached (ctes s1 x)"
  shows "\<exists>p s2 s'. mdb_rebalance K (Some a) s1 = Some (p, s2) \<and> s' = write_loc (hole MdbRoot C) (Some p) s2 \<and>
    type_of K (cap (ctes s' x)) \<noteq> 0 \<and> type_of K (cap (ctes s' p)) \<noteq> 0 \<and>
    moved K (set (nodes (Node l (a, n) r))) (hole MdbRoot C) s s' (aa_rebalance (Node l' (a, n) r')) \<and> detached (ctes s' x)"
proof -
  let ?A = "set (nodes (Node l (a, n) r))"
  note pre' = remove_preD [OF pre] and pre'' = remove_preD' [OF pre]
  have "ctx_at K s1 MdbRoot C"
  proof (rule ctx_at_frame [OF pre''(5)])
    show "ctes s1 b = ctes s b" if "b \<in> ctx_nodes C" for b using that pre''(4) by (intro fr(1)) auto
  qed (use fr(3) in simp)
  moreover have "retained s C a ?A s1" using pre'(1) fr pre''(4) by (intro retained_same) auto
  ultimately obtain p s2 s' where fin: "mdb_rebalance K (Some a) s1 = Some (p, s2)" "p \<in> ?A"
    "s' = write_loc (hole MdbRoot C) (Some p) s2" "moved K ?A (hole MdbRoot C) s s' (aa_rebalance (Node l' (a, n) r'))"
    "\<And>x. x \<notin> set (nodes (Node l' (a, n) r')) \<union> ctx_nodes C \<Longrightarrow> ctes s' x = ctes s1 x"
    using remove_finish [OF _ half dist lv _ sub pre''(4)] by blast
  have "cap (ctes s' b) = cap (ctes s b)" for b using same_data_cap [OF movedD(2) [OF fin(4)]] .
  then have "type_of K (cap (ctes s' b)) \<noteq> 0" if "b \<in> ?A" for b using pre''(6) that by auto
  moreover have "ctes s' x = ctes s1 x" using x pre''(4) by (intro fin(5)) auto
  ultimately show ?thesis using fin(1-4) x by auto
qed

definition removed :: "'c cap_ops \<Rightarrow> addr \<Rightarrow> 'c mdb \<Rightarrow> ctx \<Rightarrow> atree \<Rightarrow> bool" where
  "removed K x s C t \<longleftrightarrow>
     (\<exists>s' t'. aa_remove (key_of K s) x t = Some t' \<and>
        mdb_subtree_remove K x (hole MdbRoot C) (ctx_parent C) s = Some (SYS_ERR_OK, s') \<and>
        moved K (set (nodes t)) (hole MdbRoot C) s s' t' \<and> detached (ctes s' x))"

lemma removed_left:
  assumes pre: "remove_pre K s C (Node l (a, n) r)" and x: "x \<in> set (nodes l)"
    and IH: "removed K x s ((True, a, n, r) # C) l"
  shows "removed K x s C (Node l (a, n) r)"
proof -
  note pre' = remove_preD [OF pre] and pre'' = remove_preD' [OF pre] and sub = remove_preD' [OF remove_pre_sub(1) [OF pre]]
  from IH obtain s1 l' where l': "aa_remove (key_of K s) x l = Some l'"
    and run: "mdb_subtree_remove K x (LeftOf a) (Some a) s = Some (SYS_ERR_OK, s1)"
    and m: "moved K (set (nodes l)) (LeftOf a) s s1 l'" and det: "detached (ctes s1 x)"
    by (auto simp: removed_def side_True)
  from aa_remove_in [OF sub(1,3) x] l' have nl: "nodes l' = remove1 x (nodes l)" and sh: "shrunk l l'" by auto
  have dl: "distinct (nodes l)" using pre'(3) by simp
  note ml = moved_left [OF pre'(2) m]
  have "\<exists>p s2 s'. mdb_rebalance K (Some a) s1 = Some (p, s2) \<and> s' = write_loc (hole MdbRoot C) (Some p) s2 \<and>
    type_of K (cap (ctes s' x)) \<noteq> 0 \<and> type_of K (cap (ctes s' p)) \<noteq> 0 \<and>
    moved K (set (nodes (Node l (a, n) r))) (hole MdbRoot C) s s' (aa_rebalance (Node l' (a, n) r)) \<and> detached (ctes s' x)"
  proof (rule remove_up [OF pre])
    show "half_at K s1 a n l' r" using pre'(3) by (intro ml(1)) auto
    show "ctes s1 b = ctes s b" if "b \<notin> set (nodes (Node l (a, n) r))" for b using that pre'(3) by (intro ml(2)) auto
    show "lvls_le 250 (Node l' (a, n) r)"
      using pre'(4) sh sub(2) aa_ok_lvls [of l'] by (auto simp: shrunk_def elim!: lvls_le_mono)
  qed (use ml(3-5) pre'(3) dl x det in \<open>auto simp: nl\<close>)
  then obtain p s2 s' where fin: "mdb_rebalance K (Some a) s1 = Some (p, s2)" "s' = write_loc (hole MdbRoot C) (Some p) s2"
    "type_of K (cap (ctes s' x)) \<noteq> 0" "type_of K (cap (ctes s' p)) \<noteq> 0"
    "moved K (set (nodes (Node l (a, n) r))) (hole MdbRoot C) s s' (aa_rebalance (Node l' (a, n) r))" "detached (ctes s' x)"
    by blast
  have less: "key_of K s x < key_of K s a" using pre''(3) x by (auto simp: sorted_wrt_append)
  then have ng: "\<not> key_of K s a < key_of K s x" by (rule less_not_sym)
  have "mdb_subtree_remove K x (hole MdbRoot C) (ctx_parent C) s = Some (SYS_ERR_OK, s')"
    using pre'(1) run fin(1-4) less compare_caps_iff [of K "cte_cap s x" "cte_cap s a" True]
    by (subst mdb_subtree_remove.simps) (simp add: Let_def)
  moreover have "aa_remove (key_of K s) x (Node l (a, n) r) = Some (aa_rebalance (Node l' (a, n) r))"
    using less ng l' by simp
  ultimately show ?thesis unfolding removed_def using fin(5,6) by blast
qed

lemma removed_right:
  assumes pre: "remove_pre K s C (Node l (a, n) r)" and x: "x \<in> set (nodes r)"
    and IH: "removed K x s ((False, a, n, l) # C) r"
  shows "removed K x s C (Node l (a, n) r)"
proof -
  note pre' = remove_preD [OF pre] and pre'' = remove_preD' [OF pre] and sub = remove_preD' [OF remove_pre_sub(2) [OF pre]]
  from IH obtain s1 r' where r': "aa_remove (key_of K s) x r = Some r'"
    and run: "mdb_subtree_remove K x (RightOf a) (Some a) s = Some (SYS_ERR_OK, s1)"
    and m: "moved K (set (nodes r)) (RightOf a) s s1 r'" and det: "detached (ctes s1 x)"
    by (auto simp: removed_def side_def)
  from aa_remove_in [OF sub(1,3) x] r' have nr: "nodes r' = remove1 x (nodes r)" and sh: "shrunk r r'" by auto
  have dr: "distinct (nodes r)" using pre'(3) by simp
  note mr = moved_right [OF pre'(2) m]
  have "\<exists>p s2 s'. mdb_rebalance K (Some a) s1 = Some (p, s2) \<and> s' = write_loc (hole MdbRoot C) (Some p) s2 \<and>
    type_of K (cap (ctes s' x)) \<noteq> 0 \<and> type_of K (cap (ctes s' p)) \<noteq> 0 \<and>
    moved K (set (nodes (Node l (a, n) r))) (hole MdbRoot C) s s' (aa_rebalance (Node l (a, n) r')) \<and> detached (ctes s' x)"
  proof (rule remove_up [OF pre])
    show "half_at K s1 a n l r'" using pre'(3) by (intro mr(1)) auto
    show "ctes s1 b = ctes s b" if "b \<notin> set (nodes (Node l (a, n) r))" for b using that pre'(3) by (intro mr(2)) auto
    show "lvls_le 250 (Node l (a, n) r')"
      using pre'(4) sh sub(2) aa_ok_lvls [of r'] by (auto simp: shrunk_def elim!: lvls_le_mono)
  qed (use mr(3-5) pre'(3) dr x det in \<open>auto simp: nr\<close>)
  then obtain p s2 s' where fin: "mdb_rebalance K (Some a) s1 = Some (p, s2)" "s' = write_loc (hole MdbRoot C) (Some p) s2"
    "type_of K (cap (ctes s' x)) \<noteq> 0" "type_of K (cap (ctes s' p)) \<noteq> 0"
    "moved K (set (nodes (Node l (a, n) r))) (hole MdbRoot C) s s' (aa_rebalance (Node l (a, n) r'))" "detached (ctes s' x)"
    by blast
  have less: "key_of K s a < key_of K s x" using pre''(3) x by (auto simp: sorted_wrt_append)
  then have ng: "\<not> key_of K s x < key_of K s a" by (rule less_not_sym)
  have "mdb_subtree_remove K x (hole MdbRoot C) (ctx_parent C) s = Some (SYS_ERR_OK, s')"
    using pre'(1) run fin(1-4) less ng compare_caps_iff [of K "cte_cap s x" "cte_cap s a" True]
    by (subst mdb_subtree_remove.simps) (simp add: Let_def)
  moreover have "aa_remove (key_of K s) x (Node l (a, n) r) = Some (aa_rebalance (Node l (a, n) r'))"
    using less ng r' by simp
  ultimately show ?thesis unfolding removed_def using fin(5,6) by blast
qed

lemma subtree_removed: "remove_pre K s C t \<Longrightarrow> x \<in> set (nodes t) \<Longrightarrow> removed K x s C t"
proof (induction t arbitrary: C rule: atree_induct)
  case (Node l a n r)
  note sub = remove_pre_sub [OF Node.prems(1)]
  consider "x = a" | "x \<in> set (nodes l)" | "x \<in> set (nodes r)" using Node.prems(2) by auto
  then show ?case
  proof cases
    case 1
    with remove_root [OF Node.prems(1)] show ?thesis by (simp add: removed_def del: aa_remove.simps)
  next
    case 2
    then show ?thesis using removed_left [OF Node.prems(1)] Node.IH(1) [OF sub(1)] by blast
  next
    case 3
    then show ?thesis using removed_right [OF Node.prems(1)] Node.IH(2) [OF sub(2)] by blast
  qed
qed simp

text \<open>Looking for a slot that is not there.\<close>

lemma subtree_remove_notfound:
  assumes "tree_at K s (read_loc s c) t" "x \<notin> set (nodes t)"
  shows "mdb_subtree_remove K x c parent s = Some (CAPS_ERR_MDB_ENTRY_NOTFOUND, s)"
  using assms
proof (induction t arbitrary: c parent rule: atree_induct)
  case Leaf
  then show ?case by (subst mdb_subtree_remove.simps) simp
next
  case (Node l a n r)
  have p: "read_loc s c = Some a" and tree: "tree_at K s (n_left (ctes s a)) l" "tree_at K s (n_right (ctes s a)) r"
    using Node.prems(1) by auto
  have IH: "mdb_subtree_remove K x (LeftOf a) (Some a) s = Some (CAPS_ERR_MDB_ENTRY_NOTFOUND, s)"
    "mdb_subtree_remove K x (RightOf a) (Some a) s = Some (CAPS_ERR_MDB_ENTRY_NOTFOUND, s)"
    using Node.IH(1) [of "LeftOf a"] Node.IH(2) [of "RightOf a"] tree Node.prems(2) by simp_all
  have "compare_caps K (cte_cap s x) (cte_cap s a) True \<noteq> 0"
    using Node.prems(2) by (auto simp: compare_caps_eq dest: cte_key_inj)
  then show ?case using p IH by (subst mdb_subtree_remove.simps) (auto simp: Let_def)
qed

section \<open>The database\<close>

text \<open>No slot of the database is empty.\<close>

definition mdb_filled :: "'c cap_ops \<Rightarrow> 'c mdb \<Rightarrow> atree \<Rightarrow> bool" where
  "mdb_filled K s t \<longleftrightarrow> (\<forall>x \<in> set (nodes t). type_of K (cap (ctes s x)) \<noteq> 0)"

lemma remove_ok:
  assumes "mdb_ok K s t" "mdb_filled K s t" "x \<in> set (nodes t)"
  shows "\<exists>s' t'. mdb_remove K x s = Some (SYS_ERR_OK, s') \<and> aa_remove (key_of K s) x t = Some t' \<and>
    mdb_ok K s' t' \<and> nodes t' = remove1 x (nodes t) \<and> same_data s s' \<and> detached (ctes s' x) \<and>
    (\<forall>b. b \<notin> set (nodes t) \<longrightarrow> ctes s' b = ctes s b) \<and>
    (t' \<noteq> Leaf \<and> kcb_root s = mdb_root s \<longrightarrow> kcb_root s' = mdb_root s')"
proof -
  note ok = mdb_okD [OF assms(1)]
  have "remove_pre K s [] t" using ok assms(2) by (simp add: remove_pre_def mdb_filled_def ctx_distinct_def)
  from subtree_removed [OF this assms(3)] obtain s' t' where t': "aa_remove (key_of K s) x t = Some t'"
    and run: "mdb_remove K x s = Some (SYS_ERR_OK, s')" and m: "moved K (set (nodes t)) MdbRoot s s' t'"
    and det: "detached (ctes s' x)"
    by (auto simp: removed_def mdb_remove_def)
  from aa_remove_in [OF ok(3,2) assms(3)] t' have nodes: "nodes t' = remove1 x (nodes t)" and sh: "shrunk t t'" by auto
  note caps = same_data_cap [OF movedD(2) [OF m]]
  have "mdb_ok K s' t'"
    using movedD(1) [OF m] ordered_remove1 [OF ok(2)] sh ok(4) nodes
    unfolding mdb_ok_def caps by (auto simp: shrunk_def dest: set_remove1_subset [THEN subsetD])
  moreover have "mdb_root s' \<noteq> None" if "t' \<noteq> Leaf" using movedD(1) [OF m] that by (cases "mdb_root s'") auto
  moreover have "mdb_root s \<noteq> None" using ok(1) assms(3) by (cases "mdb_root s") auto
  ultimately show ?thesis
    using run t' nodes det movedD(2) [OF m] moved_frame [OF m] m by (auto simp: moved_def)
qed

text \<open>
  C1. Removing a slot of the database succeeds: none of the assertions of the exchange and of the rebalancing fails,
  the new tree is the one that removal from an AA tree gives, the database stays ordered, balanced and with right
  ends, holds every slot but the removed one, and that one is detached.  Only links change.
\<close>

theorem mdb_remove_refines:
  assumes "mdb_ok K s t" "mdb_filled K s t" "x \<in> set (nodes t)"
  shows "\<exists>s' t'. mdb_remove K x s = Some (SYS_ERR_OK, s') \<and> aa_remove (key_of K s) x t = Some t' \<and>
    mdb_ok K s' t' \<and> nodes t' = remove1 x (nodes t) \<and> same_data s s' \<and> detached (ctes s' x) \<and>
    (\<forall>b. b \<notin> set (nodes t) \<longrightarrow> ctes s' b = ctes s b) \<and>
    (t' \<noteq> Leaf \<and> kcb_root s = mdb_root s \<longrightarrow> kcb_root s' = mdb_root s')"
  using remove_ok [OF assms] by blast

text \<open>
  Removing a slot that is not in the database reports that it was not found and leaves the state as it was.
\<close>

theorem mdb_remove_notfound:
  assumes "mdb_ok K s t" "x \<notin> set (nodes t)"
  shows "mdb_remove K x s = Some (CAPS_ERR_MDB_ENTRY_NOTFOUND, s)"
  using subtree_remove_notfound [of K s MdbRoot t x] mdb_okD(1) [OF assms(1)] assms(2) by (simp add: mdb_remove_def)

text \<open>A database of three slots: a region of memory and two capabilities to parts of it.\<close>

definition example_mdb3 :: "(nat \<times> u64 \<times> u64) mdb" where
  "example_mdb3 = \<lparr>ctes = (\<lambda>a.
     if a = 64 then (example_cte (1, 0x1000, 0x400))\<lparr>n_left := Some 32, n_right := Some 96, n_level := 1, n_end := 0x2000\<rparr>
     else if a = 32 then example_cte (1, 0x1000, 0x1000)
     else if a = 96 then example_cte (1, 0x1400, 0x400)
     else example_cte (1, 0x1800, 0x400)),
     mdb_root = Some 64, kcb_root = Some 64, tmp = None\<rparr>"

abbreviation example_tree3 :: atree where
  "example_tree3 \<equiv> Node (Node Leaf (32, 1) Leaf) (64, 2) (Node Leaf (96, 1) Leaf)"

lemma example_mdb3_ok: "mdb_ok example_ops example_mdb3 example_tree3" "mdb_filled example_ops example_mdb3 example_tree3"
  by (simp_all add: mdb_ok_def mdb_filled_def example_mdb3_def example_cte_def ends_at_def max_root_def max_end_def max_end_in_def
      example_ops_def cte_key_def cap_key_def Collect_disj_eq)

theorem mdb_remove_refines_witness:
  "\<exists>s' t'. mdb_remove example_ops 64 example_mdb3 = Some (SYS_ERR_OK, s') \<and> mdb_ok example_ops s' t' \<and>
    nodes t' = [32, 96] \<and> detached (ctes s' 64)"
  using mdb_remove_refines [OF example_mdb3_ok, of 64] by (auto simp del: aa_remove.simps)

theorem mdb_remove_notfound_witness:
  "mdb_remove example_ops 128 example_mdb3 = Some (CAPS_ERR_MDB_ENTRY_NOTFOUND, example_mdb3)"
  using mdb_remove_notfound [OF example_mdb3_ok(1), of 128] by simp

end
