(* ===== verification/Mdb_Query.thy ===== *)
theory Mdb_Query
  imports Mdb_Delete
begin

text \<open>
  The queries on the ordering and the traversal of \<^verbatim>\<open>lib/mdb/mdb_tree.c\<close>, and its invariant checker.
  Each is characterised by the list of slots in order.
\<close>

section \<open>Definitions\<close>

datatype mdb_invariant =
  MDB_INVARIANT_OK
| MDB_INVARIANT_BOTHCHILDREN
| MDB_INVARIANT_LEFT_LEVEL_LESS
| MDB_INVARIANT_RIGHT_LEVEL_LEQ
| MDB_INVARIANT_RIGHTRIGHT_LEVEL_LESS
| MDB_INVARIANT_RIGHTLEFT_LEVEL_LESS
| MDB_INVARIANT_END_IS_MAX
| MDB_INVARIANT_LEFT_SMALLER
| MDB_INVARIANT_RIGHT_GREATER

definition level_violation :: "'c mdb \<Rightarrow> addr \<Rightarrow> mdb_invariant option" where
  "level_violation s c =
     (let lv = (\<lambda>a. n_level (ctes s a)); l = n_left (ctes s c); r = n_right (ctes s c);
          below = (\<lambda>p. case p of None \<Rightarrow> True | Some a \<Rightarrow> lv a < lv c)
      in if lv c > 0 \<and> \<not> (l \<noteq> None \<and> r \<noteq> None) then Some MDB_INVARIANT_BOTHCHILDREN
         else if \<not> below l then Some MDB_INVARIANT_LEFT_LEVEL_LESS
         else case r of
             None \<Rightarrow> None
           | Some b \<Rightarrow>
               if \<not> lv b \<le> lv c then Some MDB_INVARIANT_RIGHT_LEVEL_LEQ
               else if \<not> below (n_right (ctes s b)) then Some MDB_INVARIANT_RIGHTRIGHT_LEVEL_LESS
               else if \<not> below (n_left (ctes s b)) then Some MDB_INVARIANT_RIGHTLEFT_LEVEL_LESS
               else None)"

definition expected_end_root :: "'c cap_ops \<Rightarrow> 'c mdb \<Rightarrow> addr \<Rightarrow> u8" where
  "expected_end_root K s c =
     (let r = root_of K (cap (ctes s c));
          r = (case n_left (ctes s c) of None \<Rightarrow> r | Some a \<Rightarrow> max r (n_end_root (ctes s a)))
      in case n_right (ctes s c) of None \<Rightarrow> r | Some b \<Rightarrow> max r (n_end_root (ctes s b)))"

definition expected_end :: "'c cap_ops \<Rightarrow> 'c mdb \<Rightarrow> addr \<Rightarrow> u64" where
  "expected_end K s c =
     (let root = n_end_root (ctes s c);
          e = (if root_of K (cap (ctes s c)) = root then cap_end K (cap (ctes s c)) else 0);
          e = (case n_left (ctes s c) of None \<Rightarrow> e
               | Some a \<Rightarrow> if n_end_root (ctes s a) = root then max e (n_end (ctes s a)) else e)
      in case n_right (ctes s c) of None \<Rightarrow> e
         | Some b \<Rightarrow> if n_end_root (ctes s b) = root then max e (n_end (ctes s b)) else e)"

partial_function (option) mdb_check_subtree_invariants ::
  "'c cap_ops \<Rightarrow> 'c mdb \<Rightarrow> ptr \<Rightarrow> mdb_invariant option"
where
  "mdb_check_subtree_invariants K s p =
     (case p of
        None \<Rightarrow> Some MDB_INVARIANT_OK
      | Some c \<Rightarrow> do {
          assert_that (type_of K (cap (ctes s c)) \<noteq> 0);
          case level_violation s c of
            Some e \<Rightarrow> Some e
          | None \<Rightarrow>
              if n_end_root (ctes s c) \<noteq> expected_end_root K s c then Some MDB_INVARIANT_END_IS_MAX
              else if n_end (ctes s c) \<noteq> expected_end K s c then Some MDB_INVARIANT_END_IS_MAX
              else do {
                err \<leftarrow> (case n_left (ctes s c) of
                    None \<Rightarrow> Some MDB_INVARIANT_OK
                  | Some a \<Rightarrow> do {
                      assert_that (a \<noteq> c);
                      if compare_caps K (cte_cap s a) (cte_cap s c) True \<ge> 0 then Some MDB_INVARIANT_LEFT_SMALLER
                      else mdb_check_subtree_invariants K s (n_left (ctes s c))
                    });
                if err \<noteq> MDB_INVARIANT_OK then Some err
                else (case n_right (ctes s c) of
                    None \<Rightarrow> Some MDB_INVARIANT_OK
                  | Some b \<Rightarrow> do {
                      assert_that (b \<noteq> c);
                      if compare_caps K (cte_cap s b) (cte_cap s c) True \<le> 0 then Some MDB_INVARIANT_RIGHT_GREATER
                      else mdb_check_subtree_invariants K s (n_right (ctes s c))
                    })
              }
        })"

definition mdb_check_invariants :: "'c cap_ops \<Rightarrow> 'c mdb \<Rightarrow> mdb_invariant option" where
  "mdb_check_invariants K s = mdb_check_subtree_invariants K s (mdb_root s)"

text \<open>The searches return \<open>None\<close> if they do not end, \<open>Some None\<close> for \<^verbatim>\<open>NULL\<close>.\<close>

partial_function (option) mdb_sub_find_equal :: "'c cap_ops \<Rightarrow> 'c mdb \<Rightarrow> 'c \<times> addr \<Rightarrow> ptr \<Rightarrow> ptr option" where
  "mdb_sub_find_equal K s c current =
     (case current of
        None \<Rightarrow> Some None
      | Some cur \<Rightarrow>
          let compare = compare_caps K c (cte_cap s cur) False
          in if compare < 0 then mdb_sub_find_equal K s c (n_left (ctes s cur))
             else if compare > 0 then mdb_sub_find_equal K s c (n_right (ctes s cur))
             else Some (Some cur))"

definition mdb_find_equal :: "'c cap_ops \<Rightarrow> 'c mdb \<Rightarrow> 'c \<times> addr \<Rightarrow> ptr option" where
  "mdb_find_equal K s c = mdb_sub_find_equal K s c (mdb_root s)"

partial_function (option) mdb_sub_find_less ::
  "'c cap_ops \<Rightarrow> 'c mdb \<Rightarrow> 'c \<times> addr \<Rightarrow> ptr \<Rightarrow> bool \<Rightarrow> bool \<Rightarrow> ptr option"
where
  "mdb_sub_find_less K s c current equal_ok tiebreak =
     (case current of
        None \<Rightarrow> Some None
      | Some cur \<Rightarrow>
          let compare = compare_caps K c (cte_cap s cur) tiebreak
          in if compare < 0 then mdb_sub_find_less K s c (n_left (ctes s cur)) equal_ok tiebreak
             else if compare > 0 then do {
               res \<leftarrow> mdb_sub_find_less K s c (n_right (ctes s cur)) equal_ok tiebreak;
               if res \<noteq> None then Some res else Some (Some cur)
             }
             else if equal_ok then Some (Some cur)
             else mdb_sub_find_less K s c (n_left (ctes s cur)) equal_ok tiebreak)"

definition mdb_find_less :: "'c cap_ops \<Rightarrow> 'c mdb \<Rightarrow> 'c \<times> addr \<Rightarrow> bool \<Rightarrow> ptr option" where
  "mdb_find_less K s c equal_ok = mdb_sub_find_less K s c (mdb_root s) equal_ok False"

partial_function (option) mdb_sub_find_greater ::
  "'c cap_ops \<Rightarrow> 'c mdb \<Rightarrow> 'c \<times> addr \<Rightarrow> ptr \<Rightarrow> bool \<Rightarrow> bool \<Rightarrow> ptr option"
where
  "mdb_sub_find_greater K s c current equal_ok tiebreak =
     (case current of
        None \<Rightarrow> Some None
      | Some cur \<Rightarrow>
          let compare = compare_caps K c (cte_cap s cur) tiebreak
          in if compare < 0 then do {
               res \<leftarrow> mdb_sub_find_greater K s c (n_left (ctes s cur)) equal_ok tiebreak;
               if res \<noteq> None then Some res else Some (Some cur)
             }
             else if compare > 0 then mdb_sub_find_greater K s c (n_right (ctes s cur)) equal_ok tiebreak
             else if equal_ok then Some (Some cur)
             else mdb_sub_find_greater K s c (n_right (ctes s cur)) equal_ok tiebreak)"

definition mdb_find_greater :: "'c cap_ops \<Rightarrow> 'c mdb \<Rightarrow> 'c \<times> addr \<Rightarrow> bool \<Rightarrow> ptr option" where
  "mdb_find_greater K s c equal_ok = mdb_sub_find_greater K s c (mdb_root s) equal_ok False"

partial_function (option) walk_right :: "'c mdb \<Rightarrow> addr \<Rightarrow> addr option" where
  "walk_right s current = (case n_right (ctes s current) of None \<Rightarrow> Some current | Some r \<Rightarrow> walk_right s r)"

partial_function (option) walk_left :: "'c mdb \<Rightarrow> addr \<Rightarrow> addr option" where
  "walk_left s current = (case n_left (ctes s current) of None \<Rightarrow> Some current | Some l \<Rightarrow> walk_left s l)"

definition mdb_predecessor :: "'c cap_ops \<Rightarrow> 'c mdb \<Rightarrow> addr \<Rightarrow> ptr option" where
  "mdb_predecessor K s current =
     (case n_left (ctes s current) of
        Some l \<Rightarrow> map_option Some (walk_right s l)
      | None \<Rightarrow> mdb_sub_find_less K s (cte_cap s current) (mdb_root s) False True)"

definition mdb_successor :: "'c cap_ops \<Rightarrow> 'c mdb \<Rightarrow> addr \<Rightarrow> ptr option" where
  "mdb_successor K s current =
     (case n_right (ctes s current) of
        Some r \<Rightarrow> map_option Some (walk_left s r)
      | None \<Rightarrow> mdb_sub_find_greater K s (cte_cap s current) (mdb_root s) False True)"

definition mdb_reachable :: "'c mdb \<Rightarrow> addr \<Rightarrow> bool option" where
  "mdb_reachable s c = mdb_is_reachable s (mdb_root s) c"

text \<open>
  The callback of a traversal works on data of its own.  The traversal takes the address of the node of its
  argument, which is not \<^verbatim>\<open>NULL\<close> even for the slot \<^verbatim>\<open>NULL\<close>, asserts that, and then reads the node: starting
  at \<^verbatim>\<open>NULL\<close> is a fault.
\<close>

datatype mdb_tree_traversal_order = MDB_TRAVERSAL_ORDER_ASCENDING | MDB_TRAVERSAL_ORDER_DESCENDING

partial_function (option) mdb_traverse_subtree ::
  "'c mdb \<Rightarrow> ptr \<Rightarrow> mdb_tree_traversal_order \<Rightarrow> (addr \<Rightarrow> 'd \<Rightarrow> errval \<times> 'd) \<Rightarrow> 'd \<Rightarrow> (errval \<times> 'd) option"
where
  "mdb_traverse_subtree s p order cb data = do {
     c \<leftarrow> p;
     let first = (if order = MDB_TRAVERSAL_ORDER_ASCENDING then n_left (ctes s c) else n_right (ctes s c));
     let second = (if order = MDB_TRAVERSAL_ORDER_ASCENDING then n_right (ctes s c) else n_left (ctes s c));
     (err, data) \<leftarrow>
       (case first of None \<Rightarrow> Some (SYS_ERR_OK, data) | Some f \<Rightarrow> mdb_traverse_subtree s (Some f) order cb data);
     if err_is_fail err then Some (err, data)
     else
       let (err, data) = cb c data
       in if err_is_fail err then Some (err, data)
          else case second of
              None \<Rightarrow> Some (SYS_ERR_OK, data)
            | Some f \<Rightarrow> do {
                (err, data) \<leftarrow> mdb_traverse_subtree s (Some f) order cb data;
                if err_is_fail err then Some (err, data) else Some (SYS_ERR_OK, data)
              }
   }"

definition mdb_traverse ::
  "'c mdb \<Rightarrow> mdb_tree_traversal_order \<Rightarrow> (addr \<Rightarrow> 'd \<Rightarrow> errval \<times> 'd) \<Rightarrow> 'd \<Rightarrow> (errval \<times> 'd) option"
where
  "mdb_traverse s order cb data = mdb_traverse_subtree s (mdb_root s) order cb data"

section \<open>First and last elements\<close>

definition first_opt :: "'a list \<Rightarrow> 'a option" where
  "first_opt xs = (case xs of [] \<Rightarrow> None | x # _ \<Rightarrow> Some x)"

definition last_opt :: "'a list \<Rightarrow> 'a option" where
  "last_opt xs = (if xs = [] then None else Some (last xs))"

lemma first_opt_simps [simp]:
  "first_opt [] = None" "first_opt (x # xs) = Some x"
  "first_opt (xs @ ys) = (case first_opt xs of None \<Rightarrow> first_opt ys | Some x \<Rightarrow> Some x)"
  "first_opt xs = None \<longleftrightarrow> xs = []"
  by (auto simp: first_opt_def split: list.splits)

lemma last_opt_simps [simp]:
  "last_opt [] = None" "last_opt (xs @ x # ys) = (case last_opt ys of None \<Rightarrow> Some x | Some y \<Rightarrow> Some y)"
  "last_opt (x # ys) = (case last_opt ys of None \<Rightarrow> Some x | Some y \<Rightarrow> Some y)"
  "last_opt xs = None \<longleftrightarrow> xs = []"
  by (auto simp: last_opt_def)

lemma last_opt_append: "last_opt (xs @ ys) = (case last_opt ys of None \<Rightarrow> last_opt xs | Some y \<Rightarrow> Some y)"
  by (auto simp: last_opt_def)

lemma first_opt_in: "first_opt xs = Some x \<Longrightarrow> x \<in> set xs"
  by (auto simp: first_opt_def split: list.splits)

lemma last_opt_in: "last_opt xs = Some x \<Longrightarrow> x \<in> set xs"
  by (auto simp: last_opt_def split: if_splits)

lemma filter_none: "(\<And>x. x \<in> set xs \<Longrightarrow> \<not> P x) \<Longrightarrow> filter P xs = []"
  by (simp add: filter_empty_conv)

text \<open>Keys with and without the address of the slot.\<close>

abbreviation key_tb :: "'c cap_ops \<Rightarrow> 'c mdb \<Rightarrow> bool \<Rightarrow> addr \<Rightarrow> nat list" where
  "key_tb K s tb \<equiv> (\<lambda>a. cte_key K (cte_cap s a) tb)"

definition weakly :: "('a \<Rightarrow> 'k::linorder) \<Rightarrow> 'a list \<Rightarrow> bool" where
  "weakly f xs \<longleftrightarrow> sorted_wrt (\<lambda>a b. f a \<le> f b) xs"

lemma key_tb_mono: "key_of K s a < key_of K s b \<Longrightarrow> key_tb K s tb a \<le> key_tb K s tb b"
  by (cases tb) (simp add: less_imp_le, auto simp: cte_key_less cte_key_no_tiebreak)

lemma ordered_weakly: "ordered (key_of K s) xs \<Longrightarrow> weakly (key_tb K s tb) xs"
  unfolding weakly_def by (erule sorted_wrt_mono_rel [rotated]) (rule key_tb_mono)

lemma weakly_node [simp]:
  "weakly f (xs @ a # ys) \<longleftrightarrow>
     weakly f xs \<and> weakly f ys \<and> (\<forall>x \<in> set xs. f x \<le> f a) \<and> (\<forall>y \<in> set ys. f a \<le> f y)"
  by (auto simp: weakly_def sorted_wrt_append dest: order_trans)

lemma below_skip: "weakly f (xs @ a # ys) \<Longrightarrow> k \<le> f a \<Longrightarrow> filter (\<lambda>x. f x < k) (xs @ a # ys) = filter (\<lambda>x. f x < k) xs"
  by (auto intro!: filter_none simp: not_less)

lemma above_skip: "weakly f (xs @ a # ys) \<Longrightarrow> f a \<le> k \<Longrightarrow> filter (\<lambda>x. k < f x) (xs @ a # ys) = filter (\<lambda>x. k < f x) ys"
  by (auto intro!: filter_none simp: not_less)

section \<open>Searches\<close>

lemma find_less_strict:
  assumes "tree_at K s p t" "weakly (key_tb K s tb) (nodes t)"
  shows "mdb_sub_find_less K s c p False tb = Some (last_opt (filter (\<lambda>a. key_tb K s tb a < cte_key K c tb) (nodes t)))"
  using assms
proof (induction t arbitrary: p rule: atree_induct)
  case Leaf
  then show ?case by (simp add: mdb_sub_find_less.simps)
next
  case (Node l a n r)
  have p: "p = Some a" and IH:
    "mdb_sub_find_less K s c (n_left (ctes s a)) False tb = Some (last_opt (filter (\<lambda>a. key_tb K s tb a < cte_key K c tb) (nodes l)))"
    "mdb_sub_find_less K s c (n_right (ctes s a)) False tb = Some (last_opt (filter (\<lambda>a. key_tb K s tb a < cte_key K c tb) (nodes r)))"
    using Node by auto
  note step = mdb_sub_find_less.simps [of K s c "Some a"]
  show ?case
  proof (cases "key_tb K s tb a < cte_key K c tb")
    case True
    then have "\<not> cte_key K c tb < key_tb K s tb a" by (rule less_not_sym)
    with True show ?thesis unfolding p step by (auto simp: IH compare_caps_iff last_opt_append split: option.splits)
  next
    case False
    then have le: "cte_key K c tb \<le> key_tb K s tb a" by simp
    show ?thesis unfolding p step using False below_skip [OF Node.prems(2) [unfolded nodes.simps] le]
      by (auto simp: IH compare_caps_iff)
  qed
qed

lemma find_greater_strict:
  assumes "tree_at K s p t" "weakly (key_tb K s tb) (nodes t)"
  shows "mdb_sub_find_greater K s c p False tb = Some (first_opt (filter (\<lambda>a. cte_key K c tb < key_tb K s tb a) (nodes t)))"
  using assms
proof (induction t arbitrary: p rule: atree_induct)
  case Leaf
  then show ?case by (simp add: mdb_sub_find_greater.simps)
next
  case (Node l a n r)
  have p: "p = Some a" and IH:
    "mdb_sub_find_greater K s c (n_left (ctes s a)) False tb = Some (first_opt (filter (\<lambda>a. cte_key K c tb < key_tb K s tb a) (nodes l)))"
    "mdb_sub_find_greater K s c (n_right (ctes s a)) False tb = Some (first_opt (filter (\<lambda>a. cte_key K c tb < key_tb K s tb a) (nodes r)))"
    using Node by auto
  note step = mdb_sub_find_greater.simps [of K s c "Some a"]
  show ?case
  proof (cases "cte_key K c tb < key_tb K s tb a")
    case True
    with True show ?thesis unfolding p step by (auto simp: IH compare_caps_iff split: option.splits)
  next
    case False
    then have le: "key_tb K s tb a \<le> cte_key K c tb" by simp
    show ?thesis unfolding p step using False above_skip [OF Node.prems(2) [unfolded nodes.simps] le]
      by (auto simp: IH compare_caps_iff)
  qed
qed

text \<open>If an equal slot will do, one is returned if there is any.\<close>

lemma find_equal_ok:
  assumes "tree_at K s p t" "weakly (key_tb K s tb) (nodes t)" "\<exists>a \<in> set (nodes t). key_tb K s tb a = cte_key K c tb"
  shows "\<exists>a \<in> set (nodes t). key_tb K s tb a = cte_key K c tb \<and> mdb_sub_find_less K s c p True tb = Some (Some a)"
    "\<exists>a \<in> set (nodes t). key_tb K s tb a = cte_key K c tb \<and> mdb_sub_find_greater K s c p True tb = Some (Some a)"
proof -
  show "\<exists>a \<in> set (nodes t). key_tb K s tb a = cte_key K c tb \<and> mdb_sub_find_less K s c p True tb = Some (Some a)"
    using assms
  proof (induction t arbitrary: p rule: atree_induct)
    case (Node l a n r)
    have p: "p = Some a" using Node.prems by auto
    show ?case
    proof (cases "cte_key K c tb" "key_tb K s tb a" rule: linorder_cases)
      case less
      with Node.prems have "\<exists>b \<in> set (nodes l). key_tb K s tb b = cte_key K c tb" by fastforce
      with Node.IH(1) [of "n_left (ctes s a)"] Node.prems less show ?thesis
        unfolding p mdb_sub_find_less.simps [of K s c "Some a"] by (auto simp: compare_caps_iff)
    next
      case greater
      with Node.prems have "\<exists>b \<in> set (nodes r). key_tb K s tb b = cte_key K c tb" by fastforce
      with Node.IH(2) [of "n_right (ctes s a)"] Node.prems greater less_not_sym [OF greater] show ?thesis
        unfolding p mdb_sub_find_less.simps [of K s c "Some a"] by (auto simp: compare_caps_iff)
    qed (auto simp: p mdb_sub_find_less.simps [of K s c "Some a"] compare_caps_iff)
  qed simp
  show "\<exists>a \<in> set (nodes t). key_tb K s tb a = cte_key K c tb \<and> mdb_sub_find_greater K s c p True tb = Some (Some a)"
    using assms
  proof (induction t arbitrary: p rule: atree_induct)
    case (Node l a n r)
    have p: "p = Some a" using Node.prems by auto
    show ?case
    proof (cases "cte_key K c tb" "key_tb K s tb a" rule: linorder_cases)
      case less
      with Node.prems have "\<exists>b \<in> set (nodes l). key_tb K s tb b = cte_key K c tb" by fastforce
      with Node.IH(1) [of "n_left (ctes s a)"] Node.prems less show ?thesis
        unfolding p mdb_sub_find_greater.simps [of K s c "Some a"] by (auto simp: compare_caps_iff)
    next
      case greater
      with Node.prems have "\<exists>b \<in> set (nodes r). key_tb K s tb b = cte_key K c tb" by fastforce
      with Node.IH(2) [of "n_right (ctes s a)"] Node.prems greater less_not_sym [OF greater] show ?thesis
        unfolding p mdb_sub_find_greater.simps [of K s c "Some a"] by (auto simp: compare_caps_iff)
    qed (auto simp: p mdb_sub_find_greater.simps [of K s c "Some a"] compare_caps_iff)
  qed simp
qed

text \<open>Otherwise allowing equality changes nothing.\<close>

lemma find_no_equal:
  assumes "tree_at K s p t" "\<forall>a \<in> set (nodes t). key_tb K s tb a \<noteq> cte_key K c tb"
  shows "mdb_sub_find_less K s c p True tb = mdb_sub_find_less K s c p False tb"
    "mdb_sub_find_greater K s c p True tb = mdb_sub_find_greater K s c p False tb"
proof -
  have neq: "compare_caps K c (cte_cap s a) tb \<noteq> 0" if "a \<in> set (nodes t)" for a
    using assms(2) that by (auto simp: compare_caps_eq)
  show "mdb_sub_find_less K s c p True tb = mdb_sub_find_less K s c p False tb"
    using assms(1) neq
  proof (induction t arbitrary: p rule: atree_induct)
    case (Node l a n r)
    then show ?case by (simp add: mdb_sub_find_less.simps [of K s c "Some a"] Let_def)
  qed (simp add: mdb_sub_find_less.simps)
  show "mdb_sub_find_greater K s c p True tb = mdb_sub_find_greater K s c p False tb"
    using assms(1) neq
  proof (induction t arbitrary: p rule: atree_induct)
    case (Node l a n r)
    then show ?case by (simp add: mdb_sub_find_greater.simps [of K s c "Some a"] Let_def)
  qed (simp add: mdb_sub_find_greater.simps)
qed

lemma find_equal_spec:
  assumes "tree_at K s p t" "weakly (key_tb K s False) (nodes t)"
  shows "\<exists>q. mdb_sub_find_equal K s c p = Some q \<and>
    (case q of None \<Rightarrow> \<forall>a \<in> set (nodes t). key_tb K s False a \<noteq> cte_key K c False
     | Some a \<Rightarrow> a \<in> set (nodes t) \<and> key_tb K s False a = cte_key K c False)"
  using assms
proof (induction t arbitrary: p rule: atree_induct)
  case Leaf
  then show ?case by (simp add: mdb_sub_find_equal.simps)
next
  case (Node l a n r)
  have p: "p = Some a" using Node.prems by auto
  note step = mdb_sub_find_equal.simps [of K s c "Some a"]
  show ?case
  proof (cases "cte_key K c False" "key_tb K s False a" rule: linorder_cases)
    case less
    from Node.IH(1) [of "n_left (ctes s a)"] Node.prems obtain q where
      "mdb_sub_find_equal K s c (n_left (ctes s a)) = Some q"
      "case q of None \<Rightarrow> \<forall>a \<in> set (nodes l). key_tb K s False a \<noteq> cte_key K c False
       | Some a \<Rightarrow> a \<in> set (nodes l) \<and> key_tb K s False a = cte_key K c False" by auto
    moreover have "key_tb K s False b \<noteq> cte_key K c False" if "b \<in> set (nodes r)" for b
      using Node.prems(2) less that by fastforce
    ultimately show ?thesis unfolding p step using less by (auto simp: compare_caps_iff split: option.splits)
  next
    case greater
    from Node.IH(2) [of "n_right (ctes s a)"] Node.prems obtain q where
      "mdb_sub_find_equal K s c (n_right (ctes s a)) = Some q"
      "case q of None \<Rightarrow> \<forall>a \<in> set (nodes r). key_tb K s False a \<noteq> cte_key K c False
       | Some a \<Rightarrow> a \<in> set (nodes r) \<and> key_tb K s False a = cte_key K c False" by auto
    moreover have "key_tb K s False b \<noteq> cte_key K c False" if "b \<in> set (nodes l)" for b
      using Node.prems(2) greater that by fastforce
    ultimately show ?thesis unfolding p step using greater less_not_sym [OF greater]
      by (auto simp: compare_caps_iff split: option.splits)
  qed (auto simp: p step compare_caps_iff)
qed

section \<open>Neighbours in the order\<close>

lemma walk_right_last: "tree_at K s (Some b) t \<Longrightarrow> walk_right s b = Some (last (nodes t))"
proof (induction t arbitrary: b rule: atree_induct)
  case (Node l a n r)
  then show ?case
    by (cases r rule: atree_cases) (auto simp: walk_right.simps [of s a])
qed simp

lemma walk_left_first: "tree_at K s (Some b) t \<Longrightarrow> walk_left s b = Some (hd (nodes t))"
proof (induction t arbitrary: b rule: atree_induct)
  case (Node l a n r)
  then show ?case
    by (cases l rule: atree_cases) (auto simp: walk_left.simps [of s a] hd_append)
qed simp

lemma subtree_of:
  assumes "tree_at K s p t" "a \<in> set (nodes t)"
  shows "\<exists>l n r us vs. tree_at K s (Some a) (Node l (a, n) r) \<and> nodes t = us @ nodes l @ a # nodes r @ vs"
  using assms
proof (induction t arbitrary: p rule: atree_induct)
  case (Node l b n r)
  have sub: "tree_at K s (n_left (ctes s b)) l" "tree_at K s (n_right (ctes s b)) r" using Node.prems(1) by auto
  consider "a = b" | "a \<in> set (nodes l)" | "a \<in> set (nodes r)" using Node.prems(2) by auto
  then show ?case
  proof cases
    case 1
    with Node.prems(1) show ?thesis by (intro exI [of _ l] exI [of _ n] exI [of _ r] exI [of _ "[]"]) auto
  next
    case 2
    with Node.IH(1) [OF sub(1)] obtain l' n' r' us vs where
      "tree_at K s (Some a) (Node l' (a, n') r')" "nodes l = us @ nodes l' @ a # nodes r' @ vs" by blast
    then show ?thesis
      by (intro exI [of _ l'] exI [of _ n'] exI [of _ r'] exI [of _ us] exI [of _ "vs @ b # nodes r"])
        (simp del: tree_at.simps)
  next
    case 3
    with Node.IH(2) [OF sub(2)] obtain l' n' r' us vs where
      "tree_at K s (Some a) (Node l' (a, n') r')" "nodes r = us @ nodes l' @ a # nodes r' @ vs" by blast
    then show ?thesis
      by (intro exI [of _ l'] exI [of _ n'] exI [of _ r'] exI [of _ "nodes l @ b # us"] exI [of _ vs])
        (simp del: tree_at.simps)
  qed
qed simp

lemma ordered_filter_less: "ordered f (xs @ a # ys) \<Longrightarrow> filter (\<lambda>x. f x < f a) (xs @ a # ys) = xs"
  by (fastforce simp: sorted_wrt_append filter_id_conv filter_empty_conv)

lemma ordered_filter_greater: "ordered f (xs @ a # ys) \<Longrightarrow> filter (\<lambda>x. f a < f x) (xs @ a # ys) = ys"
  by (fastforce simp: sorted_wrt_append filter_id_conv filter_empty_conv)

lemma split_unique: "distinct zs \<Longrightarrow> zs = xs @ a # ys \<Longrightarrow> zs = us @ a # vs \<Longrightarrow> xs = us \<and> ys = vs"
  by (auto simp: append_eq_append_conv2 append_eq_Cons_conv Cons_eq_append_conv)

lemma predecessor_spec:
  assumes "mdb_ok K s t" "nodes t = xs @ a # ys"
  shows "mdb_predecessor K s a = Some (last_opt xs)"
proof -
  note ok = mdb_okD [OF assms(1)]
  from subtree_of [OF ok(1), of a] assms(2) obtain l n r us vs where
    sub: "tree_at K s (Some a) (Node l (a, n) r)" "nodes t = (us @ nodes l) @ a # (nodes r @ vs)" by auto
  with split_unique [OF ok(5) assms(2)] have xs: "xs = us @ nodes l" by blast
  show ?thesis
  proof (cases "n_left (ctes s a)")
    case None
    have "filter (\<lambda>b. key_of K s b < key_of K s a) (nodes t) = xs"
      using ordered_filter_less [of "key_of K s" xs a ys] ok(2) unfolding assms(2) .
    with find_less_strict [OF ok(1) ordered_weakly [OF ok(2)], where c = "cte_cap s a" and tb = True] None
    show ?thesis by (simp add: mdb_predecessor_def)
  next
    case (Some b)
    with sub(1) have l: "tree_at K s (Some b) l" by simp
    then have "nodes l \<noteq> []" by (cases l rule: atree_cases) auto
    with walk_right_last [OF l] Some xs show ?thesis by (simp add: mdb_predecessor_def last_opt_def)
  qed
qed

lemma successor_spec:
  assumes "mdb_ok K s t" "nodes t = xs @ a # ys"
  shows "mdb_successor K s a = Some (first_opt ys)"
proof -
  note ok = mdb_okD [OF assms(1)]
  from subtree_of [OF ok(1), of a] assms(2) obtain l n r us vs where
    sub: "tree_at K s (Some a) (Node l (a, n) r)" "nodes t = (us @ nodes l) @ a # (nodes r @ vs)" by auto
  with split_unique [OF ok(5) assms(2)] have ys: "ys = nodes r @ vs" by blast
  show ?thesis
  proof (cases "n_right (ctes s a)")
    case None
    have "filter (\<lambda>b. key_of K s a < key_of K s b) (nodes t) = ys"
      using ordered_filter_greater [of "key_of K s" xs a ys] ok(2) unfolding assms(2) .
    with find_greater_strict [OF ok(1) ordered_weakly [OF ok(2)], where c = "cte_cap s a" and tb = True] None
    show ?thesis by (simp add: mdb_successor_def)
  next
    case (Some b)
    with sub(1) have r: "tree_at K s (Some b) r" by simp
    then have "nodes r \<noteq> []" by (cases r rule: atree_cases) auto
    with walk_left_first [OF r] Some ys show ?thesis
      by (cases "nodes r") (simp_all add: mdb_successor_def)
  qed
qed

section \<open>Traversal\<close>

fun run_callback :: "(addr \<Rightarrow> 'd \<Rightarrow> errval \<times> 'd) \<Rightarrow> addr list \<Rightarrow> 'd \<Rightarrow> errval \<times> 'd" where
  "run_callback cb [] data = (SYS_ERR_OK, data)"
| "run_callback cb (a # as) data =
     (let (err, data) = cb a data in if err_is_fail err then (err, data) else run_callback cb as data)"

lemma run_callback_append:
  "run_callback cb (as @ bs) data =
     (let (err, data) = run_callback cb as data in if err_is_fail err then (err, data) else run_callback cb bs data)"
  by (induction as arbitrary: data) (auto simp: Let_def split: prod.splits)

lemma run_callback_ok: "\<not> err_is_fail (fst (run_callback cb as data)) \<Longrightarrow> fst (run_callback cb as data) = SYS_ERR_OK"
  by (induction as arbitrary: data) (auto simp: Let_def split: prod.splits if_splits)

lemma traverse_subtree_spec:
  assumes "tree_at K s (Some b) t"
  shows "mdb_traverse_subtree s (Some b) order cb data =
    Some (run_callback cb (if order = MDB_TRAVERSAL_ORDER_ASCENDING then nodes t else rev (nodes t)) data)"
  using assms
proof (induction t arbitrary: b data rule: atree_induct)
  case (Node l a n r)
  have sub: "tree_at K s (n_left (ctes s a)) l" "tree_at K s (n_right (ctes s a)) r" "b = a" using Node.prems by auto
  have last: "(if err_is_fail (fst (run_callback cb as d)) then run_callback cb as d else (SYS_ERR_OK, snd (run_callback cb as d))) =
    run_callback cb as d" for as d
    using run_callback_ok [of cb as d] by (cases "run_callback cb as d") auto
  have L: "(case n_left (ctes s a) of None \<Rightarrow> Some (SYS_ERR_OK, d) | Some f \<Rightarrow> mdb_traverse_subtree s (Some f) order cb d) =
    Some (run_callback cb (if order = MDB_TRAVERSAL_ORDER_ASCENDING then nodes l else rev (nodes l)) d)" for d
    using sub(1) Node.IH(1) by (cases "n_left (ctes s a)") auto
  have R: "(case n_right (ctes s a) of None \<Rightarrow> Some (SYS_ERR_OK, d) | Some f \<Rightarrow> mdb_traverse_subtree s (Some f) order cb d) =
    Some (run_callback cb (if order = MDB_TRAVERSAL_ORDER_ASCENDING then nodes r else rev (nodes r)) d)" for d
    using sub(2) Node.IH(2) by (cases "n_right (ctes s a)") auto
  have tail: "(case q of None \<Rightarrow> Some (SYS_ERR_OK, d) | Some f \<Rightarrow> do {
      (err, data) \<leftarrow> mdb_traverse_subtree s (Some f) order cb d;
      if err_is_fail err then Some (err, data) else Some (SYS_ERR_OK, data) }) =
    Some (run_callback cb as d)"
    if "(case q of None \<Rightarrow> Some (SYS_ERR_OK, d) | Some f \<Rightarrow> mdb_traverse_subtree s (Some f) order cb d) = Some (run_callback cb as d)"
    for q d as
    using that last [of as d] by (cases q) (auto split: prod.splits)
  note tails = tail [OF L] tail [OF R]
  show ?case
    unfolding sub(3)
    by (subst mdb_traverse_subtree.simps)
      (cases order; auto simp: L R tails run_callback_append Let_def split: prod.splits)
qed simp

section \<open>The invariant checker\<close>

lemma level_ok:
  assumes "tree_at K s (Some a) (Node l (a, n) r)" "aa_ok (Node l (a, n) r)"
  shows "level_violation s a = None"
proof -
  have lv: "n = Suc (unat (n_level (ctes s a)))"
    and l: "tree_at K s (n_left (ctes s a)) l" and r: "tree_at K s (n_right (ctes s a)) r" using assms(1) by auto
  have n: "n = Suc (lvl l)" "aa_ok l" "aa_ok r" "n = Suc (lvl r) \<or> n = lvl r \<and> single r" using assms(2) by auto
  have below: "unat (n_level (ctes s b)) < unat (n_level (ctes s a))" if "tree_at K s (Some b) u" "lvl u < n" for b u
    using that lv by (cases u rule: atree_cases) auto
  have left: "case n_left (ctes s a) of None \<Rightarrow> True | Some b \<Rightarrow> n_level (ctes s b) < n_level (ctes s a)"
    using l below [of _ l] n(1) by (auto simp: word_less_nat_alt split: option.splits)
  have both: "n_left (ctes s a) \<noteq> None \<and> n_right (ctes s a) \<noteq> None" if "n_level (ctes s a) > 0"
  proof -
    have "lvl l > 0" "lvl r > 0" using that n lv by (auto simp: word_less_nat_alt)
    then show ?thesis using l r by (cases "n_left (ctes s a)"; cases "n_right (ctes s a)") auto
  qed
  show ?thesis
  proof (cases r rule: atree_cases)
    case Leaf
    with r have "n_right (ctes s a) = None" by simp
    with left both show ?thesis by (auto simp: level_violation_def Let_def)
  next
    case (Node rl b m rr)
    with r have b: "n_right (ctes s a) = Some b" "m = Suc (unat (n_level (ctes s b)))"
      "tree_at K s (n_left (ctes s b)) rl" "tree_at K s (n_right (ctes s b)) rr" by auto
    have m: "m \<le> n" "lvl rl < n" "lvl rr < n" using n(3,4) Node by auto
    have "case n_left (ctes s b) of None \<Rightarrow> True | Some c \<Rightarrow> n_level (ctes s c) < n_level (ctes s a)"
      "case n_right (ctes s b) of None \<Rightarrow> True | Some c \<Rightarrow> n_level (ctes s c) < n_level (ctes s a)"
      using b(3,4) below [of _ rl] below [of _ rr] m(2,3) by (auto simp: word_less_nat_alt split: option.splits)
    moreover have "n_level (ctes s b) \<le> n_level (ctes s a)" using m(1) b(2) lv by (simp add: word_le_nat_alt)
    ultimately show ?thesis using left both b(1) by (auto simp: level_violation_def Let_def)
  qed
qed

lemma end_ok:
  assumes "tree_at K s (Some a) (Node l (a, n) r)"
  shows "n_end_root (ctes s a) = expected_end_root K s a" "n_end (ctes s a) = expected_end K s a"
proof -
  have l: "tree_at K s (n_left (ctes s a)) l" and r: "tree_at K s (n_right (ctes s a)) r"
    and e: "ends_at K s a (insert a (set (nodes l) \<union> set (nodes r)))" using assms by auto
  note node = max_end_node [where L = "set (nodes l)" and R = "set (nodes r)" and rt = "rt K s" and a = a, OF finite_set finite_set]
  have sub: "(case p of None \<Rightarrow> x | Some b \<Rightarrow> max x (n_end_root (ctes s b))) = max x (max_root (rt K s) (set (nodes u)))"
    "(case p of None \<Rightarrow> y | Some b \<Rightarrow> if n_end_root (ctes s b) = er then max y (n_end (ctes s b)) else y) =
      max y (if max_root (rt K s) (set (nodes u)) = er then max_end (rt K s) (en K s) (set (nodes u)) else 0)"
    if "tree_at K s p u" for p u x y er
    using that tree_at_end [of K s _ u] by (cases p; auto simp: max_def max_end_def)+
  show er: "n_end_root (ctes s a) = expected_end_root K s a"
    using e unfolding expected_end_root_def Let_def sub(1) [OF l] sub(1) [OF r]
    by (simp only: ends_at_def node(1))
  show "n_end (ctes s a) = expected_end K s a"
    using e unfolding expected_end_def Let_def sub(2) [OF l] sub(2) [OF r]
    by (simp only: ends_at_def node(2))
qed

lemma check_ok:
  assumes "tree_at K s p t" "ordered (key_of K s) (nodes t)" "aa_ok t" "mdb_filled K s t"
  shows "mdb_check_subtree_invariants K s p = Some MDB_INVARIANT_OK"
  using assms
proof (induction t arbitrary: p rule: atree_induct)
  case Leaf
  then show ?case by (simp add: mdb_check_subtree_invariants.simps)
next
  case (Node l a n r)
  have p: "p = Some a" "tree_at K s (Some a) (Node l (a, n) r)"
    and sub: "tree_at K s (n_left (ctes s a)) l" "tree_at K s (n_right (ctes s a)) r" using Node.prems(1) by auto
  have lt: "key_of K s x < key_of K s a" if "x \<in> set (nodes l)" for x using Node.prems(2) that by (auto simp: sorted_wrt_append)
  have gt: "key_of K s a < key_of K s x" if "x \<in> set (nodes r)" for x using Node.prems(2) that by (auto simp: sorted_wrt_append)
  have ty: "type_of K (cap (ctes s a)) \<noteq> 0" using Node.prems(4) by (simp add: mdb_filled_def)
  have IH: "mdb_check_subtree_invariants K s (n_left (ctes s a)) = Some MDB_INVARIANT_OK"
    "mdb_check_subtree_invariants K s (n_right (ctes s a)) = Some MDB_INVARIANT_OK"
    using Node.IH(1) [OF sub(1)] Node.IH(2) [OF sub(2)] Node.prems(2-4) by (auto simp: sorted_wrt_append mdb_filled_def)
  have L: "compare_caps K (cte_cap s b) (cte_cap s a) True < 0" "b \<noteq> a" if "n_left (ctes s a) = Some b" for b
    using tree_at_nonempty [OF sub(1)] that sub(1) lt [of b] by (cases "l = Leaf"; auto simp: compare_caps_less)+
  have R: "compare_caps K (cte_cap s b) (cte_cap s a) True > 0" "b \<noteq> a" if "n_right (ctes s a) = Some b" for b
    using tree_at_nonempty [OF sub(2)] that sub(2) gt [of b] by (cases "r = Leaf"; auto simp: compare_caps_greater)+
  show ?case
    unfolding p(1) mdb_check_subtree_invariants.simps [of K s "Some a"]
    using ty level_ok [OF p(2) Node.prems(3)] end_ok [OF p(2)] IH L R
    by (auto split: option.splits)
qed

section \<open>Properties\<close>

text \<open>
  C11. The searches always end.  \<^verbatim>\<open>mdb_find_less\<close> returns the last slot before the given capability,
  \<^verbatim>\<open>mdb_find_greater\<close> the first one behind it, or a copy if that is allowed and there is one;
  \<^verbatim>\<open>mdb_find_equal\<close> returns a slot comparing equal exactly if there is one.
\<close>

theorem mdb_searches_correct:
  assumes "mdb_ok K s t"
  shows "mdb_find_less K s c False = Some (last_opt (filter (\<lambda>a. key_tb K s False a < cte_key K c False) (nodes t))) \<and>
    mdb_find_greater K s c False = Some (first_opt (filter (\<lambda>a. cte_key K c False < key_tb K s False a) (nodes t))) \<and>
    (if \<exists>a \<in> set (nodes t). key_tb K s False a = cte_key K c False
     then \<exists>a b e. {a, b, e} \<subseteq> {a \<in> set (nodes t). key_tb K s False a = cte_key K c False} \<and>
       mdb_find_equal K s c = Some (Some e) \<and> mdb_find_less K s c True = Some (Some a) \<and> mdb_find_greater K s c True = Some (Some b)
     else mdb_find_equal K s c = Some None \<and> mdb_find_less K s c True = mdb_find_less K s c False \<and>
       mdb_find_greater K s c True = mdb_find_greater K s c False)"
proof -
  note ok = mdb_okD [OF assms]
  note w = ordered_weakly [OF ok(2), where tb = False]
  note defs = mdb_find_less_def mdb_find_greater_def mdb_find_equal_def
  show ?thesis
  proof (cases "\<exists>a \<in> set (nodes t). key_tb K s False a = cte_key K c False")
    case True
    with find_equal_ok [OF ok(1) w, of c] find_equal_spec [OF ok(1) w, of c]
      find_less_strict [OF ok(1) w] find_greater_strict [OF ok(1) w] show ?thesis
      unfolding defs by (fastforce split: option.splits)
  next
    case False
    with find_no_equal [OF ok(1), where tb = False and c = c] find_equal_spec [OF ok(1) w, of c]
      find_less_strict [OF ok(1) w] find_greater_strict [OF ok(1) w] show ?thesis
      unfolding defs by (auto split: option.splits)
  qed
qed

lemma example_mdb3_keys:
  "key_tb example_ops example_mdb3 False 32 = [0, 0x1000, 2 ^ 64 - 0x1000, 1]"
  "key_tb example_ops example_mdb3 False 64 = [0, 0x1000, 2 ^ 64 - 0x400, 1]"
  "key_tb example_ops example_mdb3 False 96 = [0, 0x1400, 2 ^ 64 - 0x400, 1]"
  by (simp_all add: cte_key_def cap_key_def example_ops_def example_mdb3_def example_cte_def size_rank_def)

theorem mdb_searches_correct_witness:
  "mdb_find_less example_ops example_mdb3 (cte_cap example_mdb3 96) False = Some (Some 64) \<and>
   mdb_find_greater example_ops example_mdb3 (cte_cap example_mdb3 32) False = Some (Some 64) \<and>
   mdb_find_equal example_ops example_mdb3 (cte_cap example_mdb3 32) = Some (Some 32)"
proof -
  note less = mdb_searches_correct [OF example_mdb3_ok(1), of "cte_cap example_mdb3 96", THEN conjunct1]
  note greater = mdb_searches_correct [OF example_mdb3_ok(1), of "cte_cap example_mdb3 32", THEN conjunct2, THEN conjunct1]
  note equal = mdb_searches_correct [OF example_mdb3_ok(1), of "cte_cap example_mdb3 32", THEN conjunct2, THEN conjunct2]
  have "mdb_find_equal example_ops example_mdb3 (cte_cap example_mdb3 32) = Some (Some 32)"
    using equal by (auto simp: example_mdb3_keys)
  with less greater show ?thesis by (simp add: example_mdb3_keys)
qed

text \<open>
  C13. \<^verbatim>\<open>mdb_predecessor\<close> and \<^verbatim>\<open>mdb_successor\<close> return the neighbours of a slot in the order, \<^verbatim>\<open>NULL\<close> at the ends.
\<close>

theorem mdb_neighbours:
  assumes "mdb_ok K s t" "nodes t = xs @ a # ys"
  shows "mdb_predecessor K s a = Some (last_opt xs) \<and> mdb_successor K s a = Some (first_opt ys)"
  using predecessor_spec [OF assms] successor_spec [OF assms] by simp

theorem mdb_neighbours_witness:
  "mdb_predecessor example_ops example_mdb3 96 = Some (Some 64) \<and> mdb_successor example_ops example_mdb3 96 = Some None"
  using mdb_neighbours [OF example_mdb3_ok(1), of "[32, 64]" 96 "[]"] by simp

text \<open>
  C14. A traversal calls back for every slot once, in ascending or descending order, until a call fails, and
  returns that failure; on an empty database it reads through \<^verbatim>\<open>NULL\<close>.
\<close>

theorem mdb_traverse_in_order:
  assumes "mdb_ok K s t"
  shows "mdb_traverse s order cb data =
    (if t = Leaf then None
     else Some (run_callback cb (if order = MDB_TRAVERSAL_ORDER_ASCENDING then nodes t else rev (nodes t)) data))"
proof (cases "mdb_root s")
  case None
  with mdb_okD(1) [OF assms] show ?thesis by (simp add: mdb_traverse_def mdb_traverse_subtree.simps)
next
  case (Some b)
  with mdb_okD(1) [OF assms] traverse_subtree_spec [of K s b t order cb data] show ?thesis by (auto simp: mdb_traverse_def)
qed

theorem mdb_traverse_in_order_witness:
  "mdb_traverse example_mdb3 MDB_TRAVERSAL_ORDER_DESCENDING (\<lambda>a as. (SYS_ERR_OK, a # as)) [] = Some (SYS_ERR_OK, [32, 64, 96])"
  using mdb_traverse_in_order [OF example_mdb3_ok(1), of MDB_TRAVERSAL_ORDER_DESCENDING "\<lambda>a as. (SYS_ERR_OK, a # as)"] by simp



end
