(* ===== verification/Mdb_Range.thy ===== *)
theory Mdb_Range
  imports Mdb_Query
begin

text \<open>
  The range query of \<^verbatim>\<open>lib/mdb/mdb_tree.c\<close>: which slot of a type tree covers, lies in or overlaps a region of
  addresses.  The result codes are the integers of the code.
\<close>

section \<open>Definitions\<close>

abbreviation MDB_RANGE_NOT_FOUND :: int where "MDB_RANGE_NOT_FOUND \<equiv> 0"
abbreviation MDB_RANGE_FOUND_SURROUNDING :: int where "MDB_RANGE_FOUND_SURROUNDING \<equiv> 1"
abbreviation MDB_RANGE_FOUND_INNER :: int where "MDB_RANGE_FOUND_INNER \<equiv> 2"
abbreviation MDB_RANGE_FOUND_PARTIAL :: int where "MDB_RANGE_FOUND_PARTIAL \<equiv> 3"

abbreviation beg_of :: "'c cap_ops \<Rightarrow> 'c mdb \<Rightarrow> addr \<Rightarrow> u64" where
  "beg_of K s a \<equiv> get_address K (cap (ctes s a))"

definition mdb_choose_surrounding :: "'c cap_ops \<Rightarrow> 'c mdb \<Rightarrow> u64 \<Rightarrow> u64 \<Rightarrow> addr \<Rightarrow> addr \<Rightarrow> addr option" where
  "mdb_choose_surrounding K s address sz first second = do {
     assert_that (rt K s first = rt K s second);
     let beg = address; let end' = address + sz;
     assert_that (beg_of K s first \<le> beg \<and> en K s first \<ge> end');
     assert_that (beg_of K s second \<le> beg \<and> en K s second \<ge> end');
     Some (if compare_caps K (cte_cap s first) (cte_cap s second) True \<ge> 0 then first else second)
   }"

definition mdb_choose_inner :: "'c cap_ops \<Rightarrow> 'c mdb \<Rightarrow> u64 \<Rightarrow> u64 \<Rightarrow> addr \<Rightarrow> addr \<Rightarrow> addr option" where
  "mdb_choose_inner K s address sz first second = do {
     assert_that (rt K s first = rt K s second);
     let end' = address + sz;
     assert_that (mdb_is_inside address end' (beg_of K s first) (en K s first));
     assert_that (mdb_is_inside address end' (beg_of K s second) (en K s second));
     Some (if compare_caps K (cte_cap s first) (cte_cap s second) True \<le> 0 then first else second)
   }"

definition mdb_choose_partial :: "'c cap_ops \<Rightarrow> 'c mdb \<Rightarrow> u64 \<Rightarrow> u64 \<Rightarrow> addr \<Rightarrow> addr \<Rightarrow> addr option" where
  "mdb_choose_partial K s address sz first second = do {
     assert_that (rt K s first = rt K s second);
     let beg = address; let fst_beg = beg_of K s first; let snd_beg = beg_of K s second;
     let end' = address + sz; let fst_end = en K s first; let snd_end = en K s second;
     assert_that (fst_beg < end');
     assert_that (snd_beg < end');
     assert_that (fst_end > beg);
     assert_that (snd_end > beg);
     assert_that (fst_beg \<noteq> beg);
     assert_that (snd_beg \<noteq> beg);
     assert_that (fst_end \<noteq> end');
     assert_that (snd_end \<noteq> end');
     assert_that ((fst_beg < beg) = (fst_end < end'));
     assert_that ((snd_beg < beg) = (snd_end < end'));
     Some (if fst_beg < beg \<and> snd_beg > beg then first
           else if snd_beg < beg \<and> fst_beg > beg then second
           else if compare_caps K (cte_cap s first) (cte_cap s second) True \<ge> 0 then first
           else second)
   }"

text \<open>
  \<^verbatim>\<open>mdb_sub_find_range_merge\<close>, given what the query below \<^verbatim>\<open>sub\<close> returned: the assertions before the
  call fail alike before and after it.
\<close>

definition mdb_sub_find_range_merge ::
  "'c cap_ops \<Rightarrow> 'c mdb \<Rightarrow> u64 \<Rightarrow> u64 \<Rightarrow> int \<Rightarrow> int \<times> ptr \<Rightarrow> int \<times> ptr \<Rightarrow> (int \<times> ptr) option"
where
  "mdb_sub_find_range_merge K s address sz max_precision = (\<lambda>(sub_ret, sub_result) (ret, result). do {
     assert_that (max_precision \<ge> 0);
     assert_that (ret \<le> max_precision);
     if sub_ret > max_precision then Some (sub_ret, None)
     else if sub_ret > ret then Some (sub_ret, sub_result)
     else if sub_ret = ret then
       if sub_ret = MDB_RANGE_NOT_FOUND then Some (ret, result)
       else if sub_ret = MDB_RANGE_FOUND_SURROUNDING then do {
         first \<leftarrow> result; second \<leftarrow> sub_result;
         res \<leftarrow> mdb_choose_surrounding K s address sz first second;
         Some (ret, Some res)
       }
       else if sub_ret = MDB_RANGE_FOUND_INNER then do {
         first \<leftarrow> result; second \<leftarrow> sub_result;
         res \<leftarrow> mdb_choose_inner K s address sz first second;
         Some (ret, Some res)
       }
       else if sub_ret = MDB_RANGE_FOUND_PARTIAL then do {
         first \<leftarrow> result; second \<leftarrow> sub_result;
         res \<leftarrow> mdb_choose_partial K s address sz first second;
         Some (ret, Some res)
       }
       else None
     else Some (ret, result)
   })"

text \<open>How the region of one capability relates to the region of the query.\<close>

definition range_match :: "u64 \<Rightarrow> u64 \<Rightarrow> u64 \<Rightarrow> u64 \<Rightarrow> int" where
  "range_match address search_end current_address current_end =
     (let ret = MDB_RANGE_NOT_FOUND;
          ret = (if ret < MDB_RANGE_FOUND_PARTIAL \<and> current_address > address \<and> current_address < search_end \<and>
                    current_end > search_end then MDB_RANGE_FOUND_PARTIAL else ret);
          ret = (if ret < MDB_RANGE_FOUND_PARTIAL \<and> current_end > address \<and> current_end < search_end \<and>
                    current_address < address then MDB_RANGE_FOUND_PARTIAL else ret);
          ret = (if ret < MDB_RANGE_FOUND_INNER \<and> mdb_is_inside address search_end current_address current_end
                 then MDB_RANGE_FOUND_INNER else ret)
      in if ret < MDB_RANGE_FOUND_SURROUNDING \<and> current_address \<le> address \<and> current_address < search_end \<and>
            current_end \<ge> search_end \<and> current_end > address then MDB_RANGE_FOUND_SURROUNDING else ret)"

partial_function (option) mdb_sub_find_range ::
  "'c cap_ops \<Rightarrow> 'c mdb \<Rightarrow> u8 \<Rightarrow> u64 \<Rightarrow> u64 \<Rightarrow> int \<Rightarrow> ptr \<Rightarrow> (int \<times> ptr) option"
where
  "mdb_sub_find_range K s root address sz max_precision current = do {
     assert_that (max_precision \<ge> 0);
     case current of
       None \<Rightarrow> Some (MDB_RANGE_NOT_FOUND, None)
     | Some cur \<Rightarrow>
         if n_end_root (ctes s cur) < root then Some (MDB_RANGE_NOT_FOUND, None)
         else if n_end_root (ctes s cur) = root \<and> n_end (ctes s cur) \<le> address then Some (MDB_RANGE_NOT_FOUND, None)
         else do {
           let current_root = rt K s cur;
           let current_address = beg_of K s cur;
           let current_end = current_address + get_size K (cap (ctes s cur));
           let search_end = address + sz;
           let ret = (if current_root = root then range_match address search_end current_address current_end
                      else MDB_RANGE_NOT_FOUND);
           let result = (if ret = MDB_RANGE_NOT_FOUND then None else Some cur);
           if ret > max_precision then Some (ret, None)
           else do {
             (ret, result) \<leftarrow>
               (if n_left (ctes s cur) \<noteq> None then do {
                  sub \<leftarrow> mdb_sub_find_range K s root address sz max_precision (n_left (ctes s cur));
                  mdb_sub_find_range_merge K s address sz max_precision sub (ret, result)
                } else Some (ret, result));
             if ret > max_precision then Some (ret, None)
             else do {
               (ret, result) \<leftarrow>
                 (if n_right (ctes s cur) \<noteq> None \<and> root \<ge> current_root \<and>
                     (search_end > current_address \<or> search_end = current_address \<and> sz = 0) then do {
                    sub \<leftarrow> mdb_sub_find_range K s root address sz max_precision (n_right (ctes s cur));
                    mdb_sub_find_range_merge K s address sz max_precision sub (ret, result)
                  } else Some (ret, result));
               if ret > max_precision then Some (ret, None) else Some (ret, result)
             }
           }
         }
   }"

text \<open>
  The caller says whether it passes a place for the slot and for the result; both are returned beside the
  error code, and are left alone if the arguments are invalid.
\<close>

definition mdb_find_range ::
  "'c cap_ops \<Rightarrow> 'c mdb \<Rightarrow> u8 \<Rightarrow> u64 \<Rightarrow> u64 \<Rightarrow> int \<Rightarrow> bool \<Rightarrow> bool \<Rightarrow> (errval \<times> (int \<times> ptr) option) option"
where
  "mdb_find_range K s root address sz max_result ret_node result =
     (if max_result < MDB_RANGE_NOT_FOUND \<or> max_result > MDB_RANGE_FOUND_PARTIAL then Some (CAPS_ERR_INVALID_ARGS, None)
      else if max_result > MDB_RANGE_NOT_FOUND \<and> \<not> ret_node then Some (CAPS_ERR_INVALID_ARGS, None)
      else if \<not> result then Some (CAPS_ERR_INVALID_ARGS, None)
      else do {
        r \<leftarrow> mdb_sub_find_range K s root address sz max_result (mdb_root s);
        Some (SYS_ERR_OK, Some r)
      })"

text \<open>\<open>ram\<close> is the number of \<^verbatim>\<open>ObjType_RAM\<close>.  The slot is what the caller's variable holds afterwards.\<close>

definition mdb_find_cap_for_address :: "'c cap_ops \<Rightarrow> nat \<Rightarrow> 'c mdb \<Rightarrow> u64 \<Rightarrow> (errval \<times> ptr) option" where
  "mdb_find_cap_for_address K ram s address = do {
     (err, r) \<leftarrow> mdb_find_range K s (get_type_root K ram) address 1 MDB_RANGE_FOUND_SURROUNDING True True;
     case r of
       None \<Rightarrow> Some (err, None)
     | Some (result, node) \<Rightarrow>
         if result \<noteq> MDB_RANGE_FOUND_SURROUNDING then Some (SYS_ERR_CAP_NOT_FOUND, node) else Some (SYS_ERR_OK, node)
   }"

section \<open>Specification\<close>

text \<open>
  The class of a slot with respect to a query, which slot of a class is preferred, and what a query below a
  set of slots returns: the preferred slot of the highest class, or the first class it meets above the limit.
\<close>

definition slot_match :: "'c cap_ops \<Rightarrow> 'c mdb \<Rightarrow> u8 \<Rightarrow> u64 \<Rightarrow> u64 \<Rightarrow> addr \<Rightarrow> int" where
  "slot_match K s root address sz x =
     (if rt K s x = root then range_match address (address + sz) (beg_of K s x) (en K s x) else 0)"

definition preferred :: "'c cap_ops \<Rightarrow> 'c mdb \<Rightarrow> u64 \<Rightarrow> int \<Rightarrow> addr \<Rightarrow> addr \<Rightarrow> bool" where
  "preferred K s address c x y \<longleftrightarrow>
     (if c = MDB_RANGE_FOUND_INNER then key_of K s x \<le> key_of K s y
      else if c = MDB_RANGE_FOUND_PARTIAL then
        beg_of K s x < address \<and> \<not> beg_of K s y < address \<or>
        (beg_of K s x < address \<longleftrightarrow> beg_of K s y < address) \<and> key_of K s y \<le> key_of K s x
      else key_of K s y \<le> key_of K s x)"

definition range_found :: "'c cap_ops \<Rightarrow> 'c mdb \<Rightarrow> u8 \<Rightarrow> u64 \<Rightarrow> u64 \<Rightarrow> int \<Rightarrow> addr set \<Rightarrow> int \<times> ptr \<Rightarrow> bool" where
  "range_found K s root address sz limit A = (\<lambda>(ret, result).
     if ret > limit then result = None \<and> (\<exists>x \<in> A. slot_match K s root address sz x = ret)
     else (\<forall>y \<in> A. slot_match K s root address sz y \<le> ret) \<and>
       (if ret = MDB_RANGE_NOT_FOUND then result = None
        else \<exists>x \<in> A. result = Some x \<and> slot_match K s root address sz x = ret \<and>
          (\<forall>y \<in> A. slot_match K s root address sz y = ret \<longrightarrow> preferred K s address ret x y)))"

lemma range_match_cases:
  "range_match a e b f =
     (if b > a \<and> b < e \<and> f > e \<or> f > a \<and> f < e \<and> b < a then 3
      else if mdb_is_inside a e b f then 2
      else if b \<le> a \<and> b < e \<and> f \<ge> e \<and> f > a then 1 else 0)"
  by (auto simp: range_match_def Let_def)

lemma slot_match_range: "0 \<le> slot_match K s root a sz x" "slot_match K s root a sz x \<le> 3"
  by (auto simp: slot_match_def range_match_cases)

lemma slot_match_root: "slot_match K s root a sz x \<noteq> 0 \<Longrightarrow> rt K s x = root"
  by (auto simp: slot_match_def split: if_splits)

lemma preferred_refl: "preferred K s a c x x"
  by (simp add: preferred_def)

lemma preferred_trans: "preferred K s a c x y \<Longrightarrow> preferred K s a c y z \<Longrightarrow> preferred K s a c x z"
  by (auto simp: preferred_def split: if_splits)

text \<open>Both candidates satisfy the assertions, and the better one is chosen.\<close>

lemma choose_surrounding:
  assumes "slot_match K s root a sz x = 1" "slot_match K s root a sz y = 1"
  shows "\<exists>r. mdb_choose_surrounding K s a sz x y = Some r \<and> r \<in> {x, y} \<and> preferred K s a 1 r x \<and> preferred K s a 1 r y"
  using assms
  by (auto simp: mdb_choose_surrounding_def slot_match_def range_match_cases preferred_def compare_caps_cases split: if_splits)

lemma choose_inner:
  assumes "slot_match K s root a sz x = 2" "slot_match K s root a sz y = 2"
  shows "\<exists>r. mdb_choose_inner K s a sz x y = Some r \<and> r \<in> {x, y} \<and> preferred K s a 2 r x \<and> preferred K s a 2 r y"
  using assms
  by (auto simp: mdb_choose_inner_def slot_match_def range_match_cases preferred_def compare_caps_cases split: if_splits)

lemma choose_partial:
  assumes "slot_match K s root a sz x = 3" "slot_match K s root a sz y = 3" "a \<le> a + sz"
  shows "\<exists>r. mdb_choose_partial K s a sz x y = Some r \<and> r \<in> {x, y} \<and> preferred K s a 3 r x \<and> preferred K s a 3 r y"
proof -
  have m: "rt K s z = root" "beg_of K s z < a + sz" "en K s z > a" "beg_of K s z \<noteq> a" "en K s z \<noteq> a + sz"
    "(beg_of K s z < a) = (en K s z < a + sz)" if "slot_match K s root a sz z = 3" for z
    using that assms(3) by (auto simp: slot_match_def range_match_cases split: if_splits)
  note mx = m [OF assms(1)] and my = m [OF assms(2)]
  have neq: "\<not> beg_of K s x < a \<longleftrightarrow> a < beg_of K s x" "\<not> beg_of K s y < a \<longleftrightarrow> a < beg_of K s y"
    using mx(4) my(4) by auto
  show ?thesis using mx my neq
    by (auto simp: mdb_choose_partial_def preferred_def compare_caps_cases)
qed

lemma choose_found:
  assumes "range_found K s root a sz limit A (c, Some x)" "range_found K s root a sz limit B (c, Some y)"
    "c \<noteq> 0" "c \<le> limit" "r \<in> {x, y}" "preferred K s a c r x" "preferred K s a c r y"
  shows "range_found K s root a sz limit (A \<union> B) (c, Some r)"
proof -
  have x: "x \<in> A" "slot_match K s root a sz x = c"
    "\<And>z. z \<in> A \<Longrightarrow> slot_match K s root a sz z \<le> c" "\<And>z. z \<in> A \<Longrightarrow> slot_match K s root a sz z = c \<Longrightarrow> preferred K s a c x z"
    and y: "y \<in> B" "slot_match K s root a sz y = c"
    "\<And>z. z \<in> B \<Longrightarrow> slot_match K s root a sz z \<le> c" "\<And>z. z \<in> B \<Longrightarrow> slot_match K s root a sz z = c \<Longrightarrow> preferred K s a c y z"
    using assms(1-4) by (auto simp: range_found_def split: if_splits)
  have "preferred K s a c r z" if "z \<in> A \<union> B" "slot_match K s root a sz z = c" for z
    using that x(4) y(4) assms(6,7) preferred_trans by blast
  moreover have "r \<in> A \<union> B" "slot_match K s root a sz r = c" using assms(5) x y by auto
  ultimately show ?thesis using assms(3,4) x(3) y(3) by (auto simp: range_found_def)
qed

lemma found_slot:
  assumes "range_found K s root a sz limit A (c, q)" "c \<noteq> 0" "c \<le> limit"
  shows "\<exists>x. q = Some x \<and> slot_match K s root a sz x = c"
  using assms by (auto simp: range_found_def split: if_splits)

lemma merge_equal:
  assumes "range_found K s root a sz limit A (c, q)" "range_found K s root a sz limit B (c, q')" "c \<noteq> 0" "c \<le> limit"
    "0 \<le> limit" "a \<le> a + sz"
  shows "\<exists>r. mdb_sub_find_range_merge K s a sz limit (c, q) (c, q') = Some (c, Some r) \<and>
    range_found K s root a sz limit (A \<union> B) (c, Some r)"
proof -
  from found_slot [OF assms(1,3,4)] found_slot [OF assms(2,3,4)] obtain x y where
    xy: "q = Some x" "q' = Some y" and m: "slot_match K s root a sz x = c" "slot_match K s root a sz y = c" by auto
  consider "c = 1" | "c = 2" | "c = 3" using assms(3) slot_match_range [of K s root a sz x] m(1) by linarith
  then have "\<exists>r. mdb_sub_find_range_merge K s a sz limit (c, q) (c, q') = Some (c, Some r) \<and>
    r \<in> {x, y} \<and> preferred K s a c r x \<and> preferred K s a c r y"
  proof cases
    case 1
    from choose_surrounding [of K s root a sz y x] m 1 obtain r where
      "mdb_choose_surrounding K s a sz y x = Some r" "r \<in> {x, y}" "preferred K s a 1 r x" "preferred K s a 1 r y" by auto
    with 1 xy assms(4,5) show ?thesis by (simp add: mdb_sub_find_range_merge_def)
  next
    case 2
    from choose_inner [of K s root a sz y x] m 2 obtain r where
      "mdb_choose_inner K s a sz y x = Some r" "r \<in> {x, y}" "preferred K s a 2 r x" "preferred K s a 2 r y" by auto
    with 2 xy assms(4,5) show ?thesis by (simp add: mdb_sub_find_range_merge_def)
  next
    case 3
    from choose_partial [of K s root a sz y x] m 3 assms(6) obtain r where
      "mdb_choose_partial K s a sz y x = Some r" "r \<in> {x, y}" "preferred K s a 3 r x" "preferred K s a 3 r y" by auto
    with 3 xy assms(4,5) show ?thesis by (simp add: mdb_sub_find_range_merge_def)
  qed
  then show ?thesis using choose_found [OF assms(1,2) [unfolded xy] assms(3,4)] by blast
qed

lemma found_more:
  assumes "range_found K s root a sz limit A (c, p)" "c \<le> limit \<Longrightarrow> \<forall>y \<in> B. slot_match K s root a sz y < c"
  shows "range_found K s root a sz limit (A \<union> B) (c, p)" "range_found K s root a sz limit (B \<union> A) (c, p)"
  using assms by (fastforce simp: range_found_def split: if_splits)+

lemma found_bound: "range_found K s root a sz limit A (c, p) \<Longrightarrow> c \<le> limit \<Longrightarrow> \<forall>y \<in> A. slot_match K s root a sz y \<le> c"
  by (simp add: range_found_def)

lemma found_none: "range_found K s root a sz limit A (0, p) \<Longrightarrow> 0 \<le> limit \<Longrightarrow> p = None"
  by (simp add: range_found_def)

lemma merge_found:
  assumes sub: "range_found K s root a sz limit A sub" and cur: "range_found K s root a sz limit B (ret, q)"
    and "ret \<le> limit" "0 \<le> limit" "a \<le> a + sz"
  shows "\<exists>r. mdb_sub_find_range_merge K s a sz limit sub (ret, q) = Some r \<and> range_found K s root a sz limit (A \<union> B) r"
proof -
  obtain c p where sub_eq: "sub = (c, p)" by fastforce
  note sub' = sub [unfolded sub_eq] and bound = found_bound [OF cur assms(3)]
  consider "c > limit" | "c \<le> limit" "c > ret" | "c < ret" | "c = ret" "c = 0" | "c = ret" "c \<noteq> 0" using assms(3) by linarith
  then show ?thesis
  proof cases
    case 1
    then have "p = None" using sub' by (simp add: range_found_def)
    with 1 found_more(1) [OF sub', of B] assms(3,4) show ?thesis by (simp add: sub_eq mdb_sub_find_range_merge_def)
  next
    case 2
    then have "\<forall>y \<in> B. slot_match K s root a sz y < c" using bound by fastforce
    with 2 found_more(1) [OF sub', of B] assms(3,4) show ?thesis by (simp add: sub_eq mdb_sub_find_range_merge_def)
  next
    case 3
    then have "\<forall>y \<in> A. slot_match K s root a sz y < ret" using found_bound [OF sub'] assms(3) by fastforce
    with 3 found_more(2) [OF cur, of A] assms(3,4) show ?thesis by (simp add: sub_eq mdb_sub_find_range_merge_def)
  next
    case 4
    then have "p = None" "q = None" using found_none sub' cur assms(4) by blast+
    with 4 sub' cur assms(3,4) have "range_found K s root a sz limit (A \<union> B) (ret, q)"
      by (auto simp: range_found_def)
    with 4 assms(3,4) show ?thesis by (simp add: sub_eq mdb_sub_find_range_merge_def)
  next
    case 5
    with merge_equal [OF sub', of B q] cur assms(3-5) show ?thesis unfolding sub_eq by blast
  qed
qed

section \<open>Pruning\<close>

text \<open>
  When the query is exact: neither the region nor a capability of the type tree wraps around, no empty capability
  of the tree lies on a border of the region (unless the region is empty), and no capability of an earlier type
  tree starts at or behind the end of the region.
\<close>

definition range_ok :: "'c cap_ops \<Rightarrow> 'c mdb \<Rightarrow> addr set \<Rightarrow> u8 \<Rightarrow> u64 \<Rightarrow> u64 \<Rightarrow> bool" where
  "range_ok K s A root address sz \<longleftrightarrow>
     unat address + unat sz < 2 ^ 64 \<and>
     (\<forall>x \<in> A. (rt K s x = root \<longrightarrow> no_wrap K (cap (ctes s x)) \<and>
          (get_size K (cap (ctes s x)) = 0 \<and> sz \<noteq> 0 \<longrightarrow> beg_of K s x \<noteq> address \<and> beg_of K s x \<noteq> address + sz)) \<and>
        (rt K s x < root \<longrightarrow> beg_of K s x < address + sz))"

lemma no_wrap_le: "no_wrap K c \<Longrightarrow> get_address K c \<le> cap_end K c"
  using unat_cap_end [of K c] by (simp add: word_le_nat_alt)

lemma no_wrap_less: "no_wrap K c \<Longrightarrow> get_size K c \<noteq> 0 \<Longrightarrow> get_address K c < cap_end K c"
  using unat_cap_end [of K c] unat_gt_0 [of "get_size K c"] by (simp add: word_less_nat_alt)

lemma range_okD:
  assumes "range_ok K s A root address sz"
  shows "address \<le> address + sz" "\<And>x. x \<in> A \<Longrightarrow> rt K s x = root \<Longrightarrow> beg_of K s x \<le> en K s x"
    "\<And>x. x \<in> A \<Longrightarrow> rt K s x = root \<Longrightarrow> beg_of K s x = en K s x \<Longrightarrow> sz \<noteq> 0 \<Longrightarrow> beg_of K s x \<noteq> address \<and> beg_of K s x \<noteq> address + sz"
    "\<And>x. x \<in> A \<Longrightarrow> rt K s x < root \<Longrightarrow> beg_of K s x < address + sz"
proof -
  have "unat address + unat sz < 2 ^ 64" using assms by (simp add: range_ok_def)
  then have "unat (address + sz) = unat address + unat sz" by (subst unat_add_lem [THEN iffD1]) simp_all
  then show "address \<le> address + sz" by (simp add: word_le_nat_alt)
  show "beg_of K s x \<le> en K s x" if "x \<in> A" "rt K s x = root" for x
    using assms that by (auto simp: range_ok_def intro: no_wrap_le)
  show "beg_of K s x \<noteq> address \<and> beg_of K s x \<noteq> address + sz"
    if "x \<in> A" "rt K s x = root" "beg_of K s x = en K s x" "sz \<noteq> 0" for x
    using assms that by (auto simp: range_ok_def)
  show "beg_of K s x < address + sz" if "x \<in> A" "rt K s x < root" for x using assms that by (simp add: range_ok_def)
qed

lemma range_ok_mono: "range_ok K s A root address sz \<Longrightarrow> B \<subseteq> A \<Longrightarrow> range_ok K s B root address sz"
  by (auto simp: range_ok_def)

lemma match_before: "b \<le> f \<Longrightarrow> f \<le> a \<Longrightarrow> (b = f \<Longrightarrow> a < e \<Longrightarrow> b \<noteq> a) \<Longrightarrow> range_match a e b f = 0"
  by (cases "b = f") (auto simp: range_match_cases mdb_is_inside_def word_le_nat_alt word_less_nat_alt word_unat_eq_iff)

lemma match_behind: "b \<le> f \<Longrightarrow> e \<le> b \<Longrightarrow> a \<le> e \<Longrightarrow> (b = f \<Longrightarrow> a < e \<Longrightarrow> b \<noteq> e) \<Longrightarrow> range_match a e b f = 0"
  by (cases "b = f") (auto simp: range_match_cases mdb_is_inside_def word_le_nat_alt word_less_nat_alt word_unat_eq_iff)

lemma below_end_sz: "a < a + sz \<Longrightarrow> sz \<noteq> (0 :: u64)"
  by auto

lemma max_end_in_ge: "finite A \<Longrightarrow> a \<in> A \<Longrightarrow> f a = er \<Longrightarrow> g a \<le> max_end_in f g er A"
  by (auto simp: max_end_in_def intro!: Max_ge)

lemma prune_subtree:
  assumes tree: "tree_at K s (Some b) t" and ok: "range_ok K s (set (nodes t)) root a sz" and x: "x \<in> set (nodes t)"
    and prune: "n_end_root (ctes s b) < root \<or> n_end_root (ctes s b) = root \<and> n_end (ctes s b) \<le> a"
  shows "slot_match K s root a sz x = 0"
proof (cases "rt K s x = root")
  case True
  note e = tree_at_end [OF tree]
  have "rt K s x \<le> n_end_root (ctes s b)" using max_root_ge [of "set (nodes t)" x "rt K s"] x e(1) by simp
  with True prune have er: "n_end_root (ctes s b) = root" "n_end (ctes s b) \<le> a" by auto
  then have "en K s x \<le> a"
    using max_end_in_ge [of "set (nodes t)" x "rt K s" root "en K s"] x True e by (simp add: max_end_def)
  then have "range_match a (a + sz) (beg_of K s x) (en K s x) = 0"
    using range_okD(3) [OF ok x True] by (intro match_before range_okD(2) [OF ok x True]) (auto dest: below_end_sz)
  then show ?thesis by (simp add: slot_match_def)
qed (simp add: slot_match_def)

lemma key_root: "key_of K s a < key_of K s x \<Longrightarrow> rt K s a \<le> rt K s x"
  and key_address: "key_of K s a < key_of K s x \<Longrightarrow> rt K s a = rt K s x \<Longrightarrow> beg_of K s a \<le> beg_of K s x"
  by (auto simp: cte_key_less intro!: cap_key_sorted)

lemma skip_right:
  assumes ok: "range_ok K s A root a sz" and x: "x \<in> A" "c \<in> A" "key_of K s c < key_of K s x"
    and skip: "\<not> (root \<ge> rt K s c \<and> (a + sz > beg_of K s c \<or> a + sz = beg_of K s c \<and> sz = 0))"
  shows "slot_match K s root a sz x = 0"
proof (cases "rt K s x = root")
  case True
  with key_root [OF x(3)] have "rt K s c \<le> root" by simp
  with skip range_okD(4) [OF ok x(2)] have c: "rt K s c = root" "a + sz \<le> beg_of K s c" by (auto simp: le_less)
  with key_address [OF x(3)] True have "a + sz \<le> beg_of K s x" by auto
  then have "range_match a (a + sz) (beg_of K s x) (en K s x) = 0"
    using range_okD(3) [OF ok x(1) True]
    by (intro match_behind range_okD(2) [OF ok x(1) True] range_okD(1) [OF ok]) (auto dest: below_end_sz)
  then show ?thesis by (simp add: slot_match_def)
qed (simp add: slot_match_def)

lemma found_zero:
  assumes "\<forall>y \<in> B. slot_match K s root a sz y = 0" "range_found K s root a sz limit A (c, p)" "0 \<le> limit"
  shows "range_found K s root a sz limit (B \<union> A) (c, p)"
proof (cases "c \<le> 0")
  case True
  have "c = 0"
  proof (rule ccontr)
    assume "c \<noteq> 0"
    with assms(2,3) True obtain x where "slot_match K s root a sz x = c" by (auto simp: range_found_def)
    with slot_match_range(1) [of K s root a sz x] True \<open>c \<noteq> 0\<close> show False by simp
  qed
  with assms show ?thesis by (auto simp: range_found_def)
next
  case False
  then show ?thesis using found_more(2) [OF assms(2), of B] assms(1) by simp
qed

lemma merge_step:
  assumes sub: "\<exists>r. m = Some r \<and> range_found K s root a sz limit A r" and cur: "range_found K s root a sz limit B (ret, q)"
    and "ret \<le> limit" "0 \<le> limit" "a \<le> a + sz"
    and skip: "\<not> c \<Longrightarrow> \<forall>y \<in> A. slot_match K s root a sz y = 0"
  shows "\<exists>r. (if c then m \<bind> (\<lambda>sub. mdb_sub_find_range_merge K s a sz limit sub (ret, q)) else Some (ret, q)) =
    Some r \<and> range_found K s root a sz limit (A \<union> B) r"
proof (cases c)
  case True
  from sub obtain r where "m = Some r" "range_found K s root a sz limit A r" by blast
  with True merge_found [OF _ cur assms(3-5)] show ?thesis by simp
next
  case False
  then show ?thesis using found_zero [OF skip [OF False] cur assms(4)] by auto
qed

lemma found_over: "range_found K s root a sz limit A (c, p) \<Longrightarrow> c > limit \<Longrightarrow> A \<subseteq> B \<Longrightarrow> range_found K s root a sz limit B (c, None)"
  by (auto simp: range_found_def)

lemma merge_both:
  assumes cur: "range_found K s root a sz limit B (ret, q)" "ret \<le> limit" "0 \<le> limit" "a \<le> a + sz"
    and L: "\<exists>r. m = Some r \<and> range_found K s root a sz limit A r" "\<not> c \<Longrightarrow> \<forall>y \<in> A. slot_match K s root a sz y = 0"
    and R: "\<exists>r. m' = Some r \<and> range_found K s root a sz limit A' r" "\<not> c' \<Longrightarrow> \<forall>y \<in> A'. slot_match K s root a sz y = 0"
  shows "\<exists>r. do {
      (ret, q) \<leftarrow> (if c then m \<bind> (\<lambda>sub. mdb_sub_find_range_merge K s a sz limit sub (ret, q)) else Some (ret, q));
      if ret > limit then Some (ret, None) else do {
        (ret, q) \<leftarrow> (if c' then m' \<bind> (\<lambda>sub. mdb_sub_find_range_merge K s a sz limit sub (ret, q)) else Some (ret, q));
        if ret > limit then Some (ret, None) else Some (ret, q)
      }} = Some r \<and> range_found K s root a sz limit (A' \<union> (A \<union> B)) r"
proof -
  from merge_step [OF L(1) cur L(2), of c] obtain ret1 q1 where
    left: "(if c then m \<bind> (\<lambda>sub. mdb_sub_find_range_merge K s a sz limit sub (ret, q)) else Some (ret, q)) = Some (ret1, q1)"
    and f1: "range_found K s root a sz limit (A \<union> B) (ret1, q1)" by auto
  show ?thesis
  proof (cases "ret1 > limit")
    case True
    have "range_found K s root a sz limit (A' \<union> (A \<union> B)) (ret1, None)" using f1 True by (rule found_over) blast
    with True show ?thesis unfolding left by simp
  next
    case False
    then have "ret1 \<le> limit" by simp
    from merge_step [OF R(1) f1 this cur(3,4) R(2), of c'] obtain ret2 q2 where
      right: "(if c' then m' \<bind> (\<lambda>sub. mdb_sub_find_range_merge K s a sz limit sub (ret1, q1)) else Some (ret1, q1)) =
        Some (ret2, q2)"
      and f2: "range_found K s root a sz limit (A' \<union> (A \<union> B)) (ret2, q2)" by auto
    show ?thesis
      using False f2 found_over [OF f2 _ subset_refl] unfolding left by (cases "ret2 > limit") (simp_all add: right)
  qed
qed

text \<open>One node of the query, with the class of the current slot named.\<close>

lemma sub_find_range_node:
  fixes K :: "'c cap_ops" and s :: "'c mdb" and sz :: u64
  assumes "\<not> (n_end_root (ctes s c) < root \<or> n_end_root (ctes s c) = root \<and> n_end (ctes s c) \<le> a)" "0 \<le> limit"
  defines "ret \<equiv> slot_match K s root a sz c"
  defines "q \<equiv> (if ret = 0 then None else Some c)"
  shows "mdb_sub_find_range K s root a sz limit (Some c) =
      (if ret > limit then Some (ret, None) else do {
        (ret, q) \<leftarrow> (if n_left (ctes s c) \<noteq> None then
            mdb_sub_find_range K s root a sz limit (n_left (ctes s c)) \<bind>
              (\<lambda>sub. mdb_sub_find_range_merge K s a sz limit sub (ret, q)) else Some (ret, q));
        if ret > limit then Some (ret, None) else do {
          (ret, q) \<leftarrow> (if n_right (ctes s c) \<noteq> None \<and> (root \<ge> rt K s c \<and>
              (a + sz > beg_of K s c \<or> a + sz = beg_of K s c \<and> sz = 0)) then
            mdb_sub_find_range K s root a sz limit (n_right (ctes s c)) \<bind>
              (\<lambda>sub. mdb_sub_find_range_merge K s a sz limit sub (ret, q)) else Some (ret, q));
          if ret > limit then Some (ret, None) else Some (ret, q)
        }})"
proof -
  have np: "(n_end_root (ctes s c) < root) = False" "(n_end_root (ctes s c) = root \<and> n_end (ctes s c) \<le> a) = False"
    "(0 \<le> limit) = True" using assms(1,2) by auto
  show ?thesis
    unfolding mdb_sub_find_range.simps [of K s root a sz limit "Some c"]
    by (simp only: np assert_that_def if_True if_False bind.bind_lunit option.case Let_def ret_def q_def slot_match_def simp_thms)
qed

lemma sub_find_range_spec:
  assumes "tree_at K s p t" "ordered (key_of K s) (nodes t)" "range_ok K s (set (nodes t)) root a sz" "0 \<le> limit"
  shows "\<exists>r. mdb_sub_find_range K s root a sz limit p = Some r \<and> range_found K s root a sz limit (set (nodes t)) r"
  using assms
proof (induction t arbitrary: p rule: atree_induct)
  case Leaf
  then show ?case by (simp add: mdb_sub_find_range.simps range_found_def)
next
  case (Node l c n r)
  let ?A = "set (nodes (Node l (c, n) r))" and ?found = "range_found K s root a sz limit"
  let ?prune = "n_end_root (ctes s c) < root \<or> n_end_root (ctes s c) = root \<and> n_end (ctes s c) \<le> a"
  let ?ret = "slot_match K s root a sz c"
  have p: "p = Some c" and sub: "tree_at K s (n_left (ctes s c)) l" "tree_at K s (n_right (ctes s c)) r" using Node.prems(1) by auto
  show ?case
  proof (cases ?prune)
    case True
    with prune_subtree [of K s c "Node l (c, n) r" root a sz] Node.prems(1,3) p
    have "?found ?A (0, None)" using Node.prems(4) by (simp add: range_found_def)
    with True Node.prems(4) show ?thesis unfolding p mdb_sub_find_range.simps [of K s root a sz limit "Some c"] by auto
  next
    case False
    note run = sub_find_range_node [OF False Node.prems(4), of K sz]
    have IH: "\<exists>u. mdb_sub_find_range K s root a sz limit (n_left (ctes s c)) = Some u \<and> ?found (set (nodes l)) u"
      "\<exists>u. mdb_sub_find_range K s root a sz limit (n_right (ctes s c)) = Some u \<and> ?found (set (nodes r)) u"
      using Node.prems(2-4) by (intro Node.IH sub; auto simp: sorted_wrt_append elim: range_ok_mono)+
    show ?thesis
    proof (cases "?ret > limit")
      case True
      then have "?found ?A (?ret, None)" by (auto simp: range_found_def)
      with True show ?thesis unfolding p run by simp
    next
      case small: False
      have cur: "?found {c} (?ret, if ?ret = 0 then None else Some c)"
        using small by (auto simp: range_found_def preferred_refl)
      have gt: "key_of K s c < key_of K s y" if "y \<in> set (nodes r)" for y
        using Node.prems(2) that by (auto simp: sorted_wrt_append)
      have skip: "\<forall>y \<in> set (nodes r). slot_match K s root a sz y = 0"
        if "\<not> (n_right (ctes s c) \<noteq> None \<and> (root \<ge> rt K s c \<and> (a + sz > beg_of K s c \<or> a + sz = beg_of K s c \<and> sz = 0)))"
        using sub(2) that gt by (cases "n_right (ctes s c)") (auto intro!: skip_right [OF Node.prems(3), of _ c])
      have A: "set (nodes r) \<union> (set (nodes l) \<union> {c}) = ?A" by auto
      have "\<forall>y \<in> set (nodes l). slot_match K s root a sz y = 0" if "\<not> n_left (ctes s c) \<noteq> None"
        using sub(1) that by simp
      from merge_both [OF cur small [unfolded not_less] Node.prems(4) range_okD(1) [OF Node.prems(3)] IH(1) this IH(2) skip]
      show ?thesis unfolding p run A using small by (simp only: if_False not_False_eq_True)
    qed
  qed
qed

section \<open>Properties\<close>

text \<open>
  C3. The range query always returns and fails no assertion.  If no slot of the type tree is of a class beyond the
  limit, the result is the highest class any slot has, with the preferred slot of that class: the last slot around
  the region, the first one inside it, or the last one overlapping it, those overlapping its start first.
  Otherwise the result is a class beyond the limit that some slot has, without a slot.
\<close>

theorem mdb_find_range_correct:
  assumes "mdb_ok K s t" "range_ok K s (set (nodes t)) root address sz" "0 \<le> limit" "limit \<le> 3"
  shows "\<exists>r. mdb_find_range K s root address sz limit True True = Some (SYS_ERR_OK, Some r) \<and>
    range_found K s root address sz limit (set (nodes t)) r"
  using sub_find_range_spec [OF mdb_okD(1,2) [OF assms(1)] assms(2,3)] assms(3,4) by (auto simp: mdb_find_range_def)

lemma example_mdb3_range:
  "slot_match example_ops example_mdb3 0 0x1000 0x800 32 = 1"
  "slot_match example_ops example_mdb3 0 0x1000 0x800 64 = 2"
  "slot_match example_ops example_mdb3 0 0x1000 0x800 96 = 2"
  by (simp_all add: slot_match_def range_match_cases mdb_is_inside_def example_ops_def example_mdb3_def example_cte_def)

lemma example_mdb3_range_ok: "range_ok example_ops example_mdb3 {32, 64, 96} 0 0x1000 sz" if "sz = 0x800 \<or> sz = 1"
  using that by (auto simp: range_ok_def no_wrap_def example_ops_def example_mdb3_def example_cte_def)

theorem mdb_find_range_correct_witness:
  "mdb_find_range example_ops example_mdb3 0 0x1000 0x800 3 True True = Some (SYS_ERR_OK, Some (2, Some 64))"
proof -
  have A: "set (nodes example_tree3) = {32, 64, 96}" by auto
  have "range_ok example_ops example_mdb3 (set (nodes example_tree3)) 0 0x1000 0x800"
    unfolding A by (rule example_mdb3_range_ok) simp
  from mdb_find_range_correct [OF example_mdb3_ok(1) this, of 3] obtain ret q where
    run: "mdb_find_range example_ops example_mdb3 0 0x1000 0x800 3 True True = Some (SYS_ERR_OK, Some (ret, q))"
    and found: "range_found example_ops example_mdb3 0 0x1000 0x800 3 {32, 64, 96} (ret, q)" unfolding A by auto
  have "ordered (key_of example_ops example_mdb3) [32, 64, 96]" using mdb_okD(2) [OF example_mdb3_ok(1)] by simp
  then have less: "key_of example_ops example_mdb3 64 < key_of example_ops example_mdb3 96" by simp
  then have "\<not> preferred example_ops example_mdb3 0x1000 2 96 64" by (simp add: preferred_def not_le)
  then have "ret = 2 \<and> q = Some 64" using found by (auto simp: range_found_def example_mdb3_range split: if_splits)
  with run show ?thesis by simp
qed

lemma match_byte:
  assumes "b \<le> f" "b = f \<Longrightarrow> b \<noteq> a \<and> b \<noteq> a + 1" "a \<le> a + 1"
  shows "range_match a (a + 1) b f = (if b \<le> a \<and> a < f then 1 else (0 :: int))"
proof -
  have "a + 1 \<noteq> 0" using assms(3) by auto
  then have "unat (a + 1) = Suc (unat a)" by (simp add: unatSuc add.commute [of a])
  with assms(1,2) show ?thesis
    by (cases "b = f") (auto simp: range_match_cases mdb_is_inside_def word_le_nat_alt word_less_nat_alt word_unat_eq_iff)
qed

definition nested :: "'c cap_ops \<Rightarrow> 'c mdb \<Rightarrow> addr \<Rightarrow> addr \<Rightarrow> bool" where
  "nested K s x y \<longleftrightarrow>
     en K s x \<le> beg_of K s y \<or> en K s y \<le> beg_of K s x \<or>
     beg_of K s x \<le> beg_of K s y \<and> en K s y \<le> en K s x \<or> beg_of K s y \<le> beg_of K s x \<and> en K s x \<le> en K s y"

abbreviation covers :: "'c cap_ops \<Rightarrow> 'c mdb \<Rightarrow> u8 \<Rightarrow> u64 \<Rightarrow> addr \<Rightarrow> bool" where
  "covers K s root a x \<equiv> rt K s x = root \<and> beg_of K s x \<le> a \<and> a < en K s x"

lemma last_is_smallest:
  assumes "covers K s root a x" "covers K s root a y" "key_of K s y \<le> key_of K s x" "nested K s x y"
    "no_wrap K (cap (ctes s x))" "no_wrap K (cap (ctes s y))"
  shows "beg_of K s y \<le> beg_of K s x" "en K s x \<le> en K s y"
proof -
  have k: "cap_key K (cap (ctes s y)) \<le> cap_key K (cap (ctes s x))"
    using order_le_imp_less_or_eq [OF assms(3)] cte_key_inj [of K _ y _ x] by (auto simp: cte_key_less)
  from cap_key_sorted(2) [OF this] assms(1,2) show beg: "beg_of K s y \<le> beg_of K s x" by simp
  show "en K s x \<le> en K s y"
  proof (cases "beg_of K s y = beg_of K s x")
    case True
    with k assms(1,2) have "unat (get_size K (cap (ctes s x))) \<le> unat (get_size K (cap (ctes s y)))"
      by (auto simp: cap_key_def)
    with True unat_cap_end [OF assms(5)] unat_cap_end [OF assms(6)] show ?thesis by (simp add: word_le_nat_alt)
  next
    case False
    with beg assms(1,2,4) show ?thesis by (auto simp: nested_def)
  qed
qed

text \<open>
  C22. If no empty capability starts at the address or right behind it, \<^verbatim>\<open>mdb_find_cap_for_address\<close> returns a slot
  whose memory contains the address exactly if there is one; among nested slots it is the smallest.
\<close>

theorem mdb_find_cap_for_address_correct:
  assumes "mdb_ok K s t" "range_ok K s (set (nodes t)) (get_type_root K ram) address 1"
  shows "if \<exists>x \<in> set (nodes t). covers K s (get_type_root K ram) address x
    then \<exists>x \<in> set (nodes t). covers K s (get_type_root K ram) address x \<and>
      mdb_find_cap_for_address K ram s address = Some (SYS_ERR_OK, Some x) \<and>
      (\<forall>y \<in> set (nodes t). covers K s (get_type_root K ram) address y \<and> nested K s x y \<longrightarrow>
        beg_of K s y \<le> beg_of K s x \<and> en K s x \<le> en K s y)
    else mdb_find_cap_for_address K ram s address = Some (SYS_ERR_CAP_NOT_FOUND, None)"
proof -
  let ?root = "get_type_root K ram"
  note ok = range_okD [OF assms(2)]
  have m: "slot_match K s ?root address 1 x = (if covers K s ?root address x then 1 else 0)" if "x \<in> set (nodes t)" for x
    using match_byte [OF ok(2) [OF that] _ ok(1)] ok(3) [OF that] by (auto simp: slot_match_def)
  have nw: "no_wrap K (cap (ctes s x))" if "x \<in> set (nodes t)" "covers K s ?root address x" for x
    using assms(2) that by (simp add: range_ok_def)
  from sub_find_range_spec [OF mdb_okD(1,2) [OF assms(1)] assms(2), of 1] obtain ret q where
    run: "mdb_sub_find_range K s ?root address 1 1 (mdb_root s) = Some (ret, q)"
    and found: "range_found K s ?root address 1 1 (set (nodes t)) (ret, q)" by auto
  have res: "mdb_find_cap_for_address K ram s address =
    Some (if ret = 1 then SYS_ERR_OK else SYS_ERR_CAP_NOT_FOUND, q)"
    using run by (simp add: mdb_find_cap_for_address_def mdb_find_range_def)
  show ?thesis
  proof (cases "\<exists>x \<in> set (nodes t). covers K s ?root address x")
    case True
    with found m have "ret = 1" by (fastforce simp: range_found_def split: if_splits)
    with found m obtain x where x: "x \<in> set (nodes t)" "q = Some x" "covers K s ?root address x"
      and pref: "\<And>y. y \<in> set (nodes t) \<Longrightarrow> covers K s ?root address y \<Longrightarrow> key_of K s y \<le> key_of K s x"
      by (fastforce simp: range_found_def preferred_def split: if_splits)
    with True \<open>ret = 1\<close> res last_is_smallest [OF x(3)] nw show ?thesis by auto
  next
    case False
    with found m have "ret = 0 \<and> q = None" by (fastforce simp: range_found_def split: if_splits)
    with False res show ?thesis by simp
  qed
qed

theorem mdb_find_cap_for_address_correct_witness:
  "mdb_find_cap_for_address example_ops 1 example_mdb3 0x1000 = Some (SYS_ERR_OK, Some 64)"
proof -
  have A: "set (nodes example_tree3) = {32, 64, 96}" by auto
  have root: "get_type_root example_ops 1 = 0" by (simp add: example_ops_def)
  have cov: "covers example_ops example_mdb3 0 0x1000 32" "covers example_ops example_mdb3 0 0x1000 64"
    "\<not> covers example_ops example_mdb3 0 0x1000 96" "nested example_ops example_mdb3 32 64"
    "\<not> en example_ops example_mdb3 32 \<le> en example_ops example_mdb3 64"
    by (simp_all add: nested_def example_ops_def example_mdb3_def example_cte_def)
  have "range_ok example_ops example_mdb3 (set (nodes example_tree3)) (get_type_root example_ops 1) 0x1000 1"
    unfolding A root by (rule example_mdb3_range_ok) simp
  from mdb_find_cap_for_address_correct [OF example_mdb3_ok(1) this] cov show ?thesis unfolding A root
    by (auto split: if_splits)
qed

end
