(* ===== verification/Mdb_Interface.thy ===== *)
theory Mdb_Interface
  imports Mdb_Query
begin

text \<open>
  The database as its clients see it: a set of slots with insertion and removal.  The laws are a locale, its
  consequences are proved from the laws alone, and the tree implements it.
\<close>

section \<open>The contract\<close>

datatype slot_op = Ins addr | Del addr

fun op_slot :: "slot_op \<Rightarrow> addr" where
  "op_slot (Ins x) = x"
| "op_slot (Del x) = x"

text \<open>Operations on a set, with the error codes they give.\<close>

fun set_ops :: "slot_op list \<Rightarrow> addr set \<Rightarrow> errval list \<times> addr set" where
  "set_ops [] A = ([], A)"
| "set_ops (Ins x # ops) A =
     (let (es, B) = set_ops ops (insert x A)
      in ((if x \<in> A then CAPS_ERR_MDB_DUPLICATE_ENTRY else SYS_ERR_OK) # es, B))"
| "set_ops (Del x # ops) A =
     (let (es, B) = set_ops ops (A - {x})
      in ((if x \<in> A then SYS_ERR_OK else CAPS_ERR_MDB_ENTRY_NOTFOUND) # es, B))"

fun run_ops ::
  "(addr \<Rightarrow> 's \<Rightarrow> (errval \<times> 's) option) \<Rightarrow> (addr \<Rightarrow> 's \<Rightarrow> (errval \<times> 's) option) \<Rightarrow>
    slot_op list \<Rightarrow> 's \<Rightarrow> (errval list \<times> 's) option"
where
  "run_ops ins del [] s = Some ([], s)"
| "run_ops ins del (op # ops) s = do {
     (e, s) \<leftarrow> (case op of Ins x \<Rightarrow> ins x s | Del x \<Rightarrow> del x s);
     (es, s) \<leftarrow> run_ops ins del ops s;
     Some (e # es, s)
   }"

locale slot_db =
  fixes inv :: "'s \<Rightarrow> bool" and slots :: "'s \<Rightarrow> addr set" and ready :: "'s \<Rightarrow> addr \<Rightarrow> bool"
    and ins :: "addr \<Rightarrow> 's \<Rightarrow> (errval \<times> 's) option" and del :: "addr \<Rightarrow> 's \<Rightarrow> (errval \<times> 's) option"
  assumes ins_fresh: "inv s \<Longrightarrow> ready s x \<Longrightarrow> x \<notin> slots s \<Longrightarrow>
      \<exists>s'. ins x s = Some (SYS_ERR_OK, s') \<and> inv s' \<and> slots s' = insert x (slots s) \<and> (\<forall>y. ready s y \<longrightarrow> ready s' y)"
    and ins_present: "inv s \<Longrightarrow> x \<in> slots s \<Longrightarrow> ins x s = Some (CAPS_ERR_MDB_DUPLICATE_ENTRY, s)"
    and del_present: "inv s \<Longrightarrow> x \<in> slots s \<Longrightarrow>
      \<exists>s'. del x s = Some (SYS_ERR_OK, s') \<and> inv s' \<and> slots s' = slots s - {x} \<and> (\<forall>y. ready s y \<longrightarrow> ready s' y)"
    and del_absent: "inv s \<Longrightarrow> x \<notin> slots s \<Longrightarrow> del x s = Some (CAPS_ERR_MDB_ENTRY_NOTFOUND, s)"
begin

lemma step_simulates:
  assumes "inv s" "ready s (op_slot op)"
  shows "\<exists>e s'. (case op of Ins x \<Rightarrow> ins x s | Del x \<Rightarrow> del x s) = Some (e, s') \<and> inv s' \<and>
    ([e], slots s') = set_ops [op] (slots s) \<and> (\<forall>y. ready s y \<longrightarrow> ready s' y)"
proof (cases op)
  case (Ins x)
  with assms ins_fresh [of s x] ins_present [of s x] show ?thesis by (cases "x \<in> slots s") (auto simp: insert_absorb)
next
  case (Del x)
  with assms del_present [of s x] del_absent [of s x] show ?thesis by (cases "x \<in> slots s") auto
qed

lemma set_ops_Cons: "set_ops (op # ops) A = (fst (set_ops [op] A) @ fst (set_ops ops (snd (set_ops [op] A))), snd (set_ops ops (snd (set_ops [op] A))))"
  by (cases op) (auto simp: Let_def split: prod.splits)

lemma run_simulates:
  assumes "inv s" "\<forall>op \<in> set ops. ready s (op_slot op)"
  shows "\<exists>es s'. run_ops ins del ops s = Some (es, s') \<and> inv s' \<and> (es, slots s') = set_ops ops (slots s) \<and>
    (\<forall>y. ready s y \<longrightarrow> ready s' y)"
  using assms
proof (induction ops arbitrary: s)
  case (Cons op ops)
  then obtain e s1 where one: "(case op of Ins x \<Rightarrow> ins x s | Del x \<Rightarrow> del x s) = Some (e, s1)" "inv s1"
    "set_ops [op] (slots s) = ([e], slots s1)" "\<forall>y. ready s y \<longrightarrow> ready s1 y"
    using step_simulates [of s op] by auto
  with Cons obtain es s' where "run_ops ins del ops s1 = Some (es, s')" "inv s'"
    "set_ops ops (slots s1) = (es, slots s')" "\<forall>y. ready s1 y \<longrightarrow> ready s' y"
    using Cons.IH [of s1] by fastforce
  with one show ?case unfolding set_ops_Cons [of op ops] by auto
qed simp

lemma insert_delete:
  assumes "inv s" "ready s x" "x \<notin> slots s"
  shows "\<exists>s'. run_ops ins del [Ins x, Del x] s = Some ([SYS_ERR_OK, SYS_ERR_OK], s') \<and> inv s' \<and> slots s' = slots s"
  using run_simulates [of s "[Ins x, Del x]"] assms by auto

end

section \<open>The tree implements the contract\<close>

definition mdb_inv :: "'c cap_ops \<Rightarrow> 'c mdb \<Rightarrow> bool" where
  "mdb_inv K s \<longleftrightarrow> (\<exists>t. mdb_ok K s t \<and> mdb_filled K s t)"

definition mdb_slots :: "'c mdb \<Rightarrow> addr set" where
  "mdb_slots s = {x. mdb_reachable s x = Some True}"

text \<open>A slot that may be inserted if it is not in the database.\<close>

definition mdb_ready :: "'c cap_ops \<Rightarrow> 'c mdb \<Rightarrow> addr \<Rightarrow> bool" where
  "mdb_ready K s x \<longleftrightarrow> x < 2 ^ 64 \<and> type_of K (cap (ctes s x)) \<noteq> 0 \<and> (x \<notin> mdb_slots s \<longrightarrow> detached (ctes s x))"

lemma mdb_slots: "mdb_ok K s t \<Longrightarrow> mdb_slots s = set (nodes t)"
  by (simp add: mdb_slots_def mdb_reachable_def reachable_shape [OF tree_at_shape [OF mdb_okD(1)]])

interpretation mdb: slot_db "mdb_inv K" mdb_slots "mdb_ready K" "mdb_insert K" "mdb_remove K" for K :: "'c cap_ops"
proof
  fix s :: "'c mdb" and x
  assume "mdb_inv K s"
  then obtain t where t: "mdb_ok K s t" "mdb_filled K s t" by (auto simp: mdb_inv_def)
  note slots = mdb_slots [OF t(1)] and ok = mdb_okD [OF t(1)]
  {
    assume r: "mdb_ready K s x" and x: "x \<notin> mdb_slots s"
    from insert_ok [OF t(1), of x] r x obtain s' t' where
      s': "mdb_insert K x s = Some (SYS_ERR_OK, s')" "mdb_ok K s' t'" "set (nodes t') = insert x (set (nodes t))" "same_data s s'"
      and fr: "\<And>b. b \<notin> insert x (set (nodes t)) \<Longrightarrow> ctes s' b = ctes s b"
      by (auto simp: slots mdb_ready_def)
    have "mdb_filled K s' t'" using t(2) r s'(3) by (simp add: mdb_filled_def mdb_ready_def same_data_cap [OF s'(4)])
    moreover have "mdb_ready K s' y" if "mdb_ready K s y" for y
      using that fr [of y] same_data_cap [OF s'(4), of y] by (auto simp: mdb_ready_def slots mdb_slots [OF s'(2)] s'(3))
    ultimately show "\<exists>s'. mdb_insert K x s = Some (SYS_ERR_OK, s') \<and> mdb_inv K s' \<and> mdb_slots s' = insert x (mdb_slots s) \<and>
      (\<forall>y. mdb_ready K s y \<longrightarrow> mdb_ready K s' y)"
      using s' by (auto simp: mdb_inv_def slots mdb_slots [OF s'(2)])
  next
    assume "x \<in> mdb_slots s"
    then show "mdb_insert K x s = Some (CAPS_ERR_MDB_DUPLICATE_ENTRY, s)"
      using sub_insert_duplicate [of K s MdbRoot t x] ok by (simp add: mdb_insert_def slots)
  next
    assume x: "x \<in> mdb_slots s"
    with remove_ok [OF t, of x] obtain s' t' where
      s': "mdb_remove K x s = Some (SYS_ERR_OK, s')" "mdb_ok K s' t'" "nodes t' = remove1 x (nodes t)" "same_data s s'"
      "detached (ctes s' x)" and fr: "\<And>b. b \<notin> set (nodes t) \<Longrightarrow> ctes s' b = ctes s b"
      by (auto simp: slots)
    have set: "set (nodes t') = set (nodes t) - {x}" using s'(3) ok(5) by (simp add: set_remove1_eq)
    have "mdb_filled K s' t'" using t(2) set by (simp add: mdb_filled_def same_data_cap [OF s'(4)])
    moreover have "mdb_ready K s' y" if "mdb_ready K s y" for y
      using that fr [of y] same_data_cap [OF s'(4), of y] s'(5) by (auto simp: mdb_ready_def slots mdb_slots [OF s'(2)] set)
    ultimately show "\<exists>s'. mdb_remove K x s = Some (SYS_ERR_OK, s') \<and> mdb_inv K s' \<and> mdb_slots s' = mdb_slots s - {x} \<and>
      (\<forall>y. mdb_ready K s y \<longrightarrow> mdb_ready K s' y)"
      using s' set by (auto simp: mdb_inv_def slots mdb_slots [OF s'(2)])
  next
    assume "x \<notin> mdb_slots s"
    then show "mdb_remove K x s = Some (CAPS_ERR_MDB_ENTRY_NOTFOUND, s)"
      using subtree_remove_notfound [of K s MdbRoot t x] ok(1) by (simp add: mdb_remove_def slots)
  }
qed

section \<open>Properties\<close>

text \<open>
  C5. Any sequence of insertions and removals on a well-formed database runs without failing an assertion, returns the
  error codes and leaves the set of slots that the same operations on a set give, and keeps the database well formed.
\<close>

theorem mdb_implements_set:
  assumes "mdb_inv K s" "\<forall>op \<in> set ops. mdb_ready K s (op_slot op)"
  shows "\<exists>es s'. run_ops (mdb_insert K) (mdb_remove K) ops s = Some (es, s') \<and> mdb_inv K s' \<and>
    (es, mdb_slots s') = set_ops ops (mdb_slots s)"
  using mdb.run_simulates [OF assms] by blast

lemma example_mdb3_slots: "mdb_inv example_ops example_mdb3" "mdb_slots example_mdb3 = {32, 64, 96}" "mdb_ready example_ops example_mdb3 128"
  "mdb_ready example_ops example_mdb3 64"
proof -
  show "mdb_inv example_ops example_mdb3" using example_mdb3_ok by (auto simp: mdb_inv_def)
  show sl: "mdb_slots example_mdb3 = {32, 64, 96}" using mdb_slots [OF example_mdb3_ok(1)] by auto
  show "mdb_ready example_ops example_mdb3 128" "mdb_ready example_ops example_mdb3 64"
    unfolding mdb_ready_def sl by (simp_all add: detached_def example_mdb3_def example_cte_def example_ops_def)
qed

theorem mdb_implements_set_witness:
  "\<exists>es s'. run_ops (mdb_insert example_ops) (mdb_remove example_ops) [Ins 128, Del 64, Ins 128] example_mdb3 = Some (es, s') \<and>
    es = [SYS_ERR_OK, SYS_ERR_OK, CAPS_ERR_MDB_DUPLICATE_ENTRY] \<and> mdb_slots s' = {32, 96, 128}"
  using mdb_implements_set [OF example_mdb3_slots(1), of "[Ins 128, Del 64, Ins 128]"] example_mdb3_slots(2-4) by auto



end
