(* ===== verification/Mdb_Relations.thy ===== *)
theory Mdb_Relations
  imports Mdb_Range Mdb_Interface Hamlet
begin

text \<open>
  \<^verbatim>\<open>lib/mdb/mdb.c\<close>: copies, ancestors and descendants of a slot, and the flags on remote relations that all
  copies share.
\<close>

section \<open>Definitions\<close>

unbundle bit_operations_syntax

abbreviation RRELS_COPY_BIT :: u8 where "RRELS_COPY_BIT \<equiv> 1"
abbreviation RRELS_ANCS_BIT :: u8 where "RRELS_ANCS_BIT \<equiv> 2"
abbreviation RRELS_DESC_BIT :: u8 where "RRELS_DESC_BIT \<equiv> 4"

definition set_relations :: "u8 \<Rightarrow> u8 \<Rightarrow> 'c cte \<Rightarrow> 'c cte" where
  "set_relations relations msk c =
     (let c = (if msk AND RRELS_COPY_BIT \<noteq> 0 then c\<lparr>remote_copies := relations AND RRELS_COPY_BIT \<noteq> 0\<rparr> else c);
          c = (if msk AND RRELS_ANCS_BIT \<noteq> 0 then c\<lparr>remote_ancs := relations AND RRELS_ANCS_BIT \<noteq> 0\<rparr> else c)
      in if msk AND RRELS_DESC_BIT \<noteq> 0 then c\<lparr>remote_descs := relations AND RRELS_DESC_BIT \<noteq> 0\<rparr> else c)"

definition mdb_set_cte_relations :: "addr \<Rightarrow> u8 \<Rightarrow> u8 \<Rightarrow> 'c mdb \<Rightarrow> 'c mdb" where
  "mdb_set_cte_relations a relations msk s = upd_cte a (set_relations relations msk) s"

definition rrels :: "'c cte \<Rightarrow> bool \<times> bool \<times> bool" where
  "rrels c = (remote_copies c, remote_ancs c, remote_descs c)"

partial_function (option) set_copies_behind ::
  "'c cap_ops \<Rightarrow> addr \<Rightarrow> u8 \<Rightarrow> u8 \<Rightarrow> ptr \<Rightarrow> 'c mdb \<Rightarrow> 'c mdb option"
where
  "set_copies_behind K a relations msk p s =
     (case p of
        None \<Rightarrow> Some s
      | Some n \<Rightarrow>
          if is_copy K (cte_cap s n) (cte_cap s a) then do {
            let s = mdb_set_cte_relations n relations msk s;
            q \<leftarrow> mdb_successor K s n;
            set_copies_behind K a relations msk q s
          }
          else Some s)"

partial_function (option) set_copies_before ::
  "'c cap_ops \<Rightarrow> addr \<Rightarrow> u8 \<Rightarrow> u8 \<Rightarrow> ptr \<Rightarrow> 'c mdb \<Rightarrow> 'c mdb option"
where
  "set_copies_before K a relations msk p s =
     (case p of
        None \<Rightarrow> Some s
      | Some n \<Rightarrow>
          if is_copy K (cte_cap s n) (cte_cap s a) then do {
            let s = mdb_set_cte_relations n relations msk s;
            q \<leftarrow> mdb_predecessor K s n;
            set_copies_before K a relations msk q s
          }
          else Some s)"

definition mdb_set_relations :: "'c cap_ops \<Rightarrow> addr \<Rightarrow> u8 \<Rightarrow> u8 \<Rightarrow> 'c mdb \<Rightarrow> 'c mdb option" where
  "mdb_set_relations K a relations msk s =
     (let old = rrels (ctes s a); s = mdb_set_cte_relations a relations msk s
      in if rrels (ctes s a) = old then Some s
         else do {
           p \<leftarrow> mdb_successor K s a;
           s \<leftarrow> set_copies_behind K a relations msk p s;
           p \<leftarrow> mdb_predecessor K s a;
           set_copies_before K a relations msk p s
         })"

definition has_descendants :: "'c cap_ops \<Rightarrow> 'c mdb \<Rightarrow> addr \<Rightarrow> bool option" where
  "has_descendants K s a = do {
     next \<leftarrow> mdb_find_greater K s (cte_cap s a) False;
     Some (case next of None \<Rightarrow> False | Some n \<Rightarrow> rt K s n = rt K s a \<and> beg_of K s n < en K s a)
   }"

definition mdb_find_ancestor :: "'c cap_ops \<Rightarrow> 'c mdb \<Rightarrow> addr \<Rightarrow> ptr option" where
  "mdb_find_ancestor K s a = do {
     result \<leftarrow> mdb_find_less K s (cte_cap s a) False;
     if (case result of None \<Rightarrow> False | Some x \<Rightarrow> rt K s x = rt K s a \<and> en K s x \<ge> en K s a) then Some result
     else do {
       (_, r) \<leftarrow> mdb_find_range K s (rt K s a) (beg_of K s a) 0 MDB_RANGE_FOUND_SURROUNDING True True;
       (find_result, result) \<leftarrow> r;
       if find_result \<noteq> MDB_RANGE_NOT_FOUND then do {
         assert_that (find_result = MDB_RANGE_FOUND_SURROUNDING);
         x \<leftarrow> result;
         assert_that (beg_of K s x \<le> beg_of K s a);
         assert_that (en K s x \<ge> en K s a);
         Some result
       }
       else do {
         assert_that (result = None);
         Some result
       }
     }
   }"

definition has_ancestors :: "'c cap_ops \<Rightarrow> 'c mdb \<Rightarrow> addr \<Rightarrow> bool option" where
  "has_ancestors K s a = map_option (\<lambda>p. p \<noteq> None) (mdb_find_ancestor K s a)"

definition has_copies :: "'c cap_ops \<Rightarrow> 'c mdb \<Rightarrow> addr \<Rightarrow> bool option" where
  "has_copies K s a = do {
     next \<leftarrow> mdb_successor K s a;
     if (case next of None \<Rightarrow> False | Some n \<Rightarrow> is_copy K (cte_cap s n) (cte_cap s a)) then Some True
     else do {
       prev \<leftarrow> mdb_predecessor K s a;
       Some (case prev of None \<Rightarrow> False | Some p \<Rightarrow> is_copy K (cte_cap s p) (cte_cap s a))
     }
   }"

text \<open>A pointer to the capability in a slot is the slot.\<close>

definition mdb_get_copy :: "'c cap_ops \<Rightarrow> 'c mdb \<Rightarrow> 'c \<times> addr \<Rightarrow> (errval \<times> ptr) option" where
  "mdb_get_copy K s c = do {
     p \<leftarrow> mdb_find_equal K s c;
     Some (case p of None \<Rightarrow> (SYS_ERR_NO_LOCAL_COPIES, None) | Some x \<Rightarrow> (SYS_ERR_OK, Some x))
   }"

definition mdb_is_sane :: "'c cap_ops \<Rightarrow> 'c mdb \<Rightarrow> bool option" where
  "mdb_is_sane K s = map_option (\<lambda>e. e = MDB_INVARIANT_OK) (mdb_check_invariants K s)"

text \<open>Slots of a capability node are 64 bytes apart; errors of \<^verbatim>\<open>mdb_insert\<close> and \<^verbatim>\<open>mdb_remove\<close> are dropped.\<close>

definition cte_size :: nat where "cte_size = 64"

fun set_init_mapping :: "'c cap_ops \<Rightarrow> addr \<Rightarrow> nat \<Rightarrow> 'c mdb \<Rightarrow> 'c mdb option" where
  "set_init_mapping K dest_start 0 s = Some s"
| "set_init_mapping K dest_start (Suc i) s = do {
     s \<leftarrow> set_init_mapping K dest_start i s;
     (_, s) \<leftarrow> mdb_insert K (dest_start + i * cte_size) s;
     Some s
   }"

definition remove_mapping :: "'c cap_ops \<Rightarrow> addr \<Rightarrow> 'c mdb \<Rightarrow> 'c mdb option" where
  "remove_mapping K a s = map_option snd (mdb_remove K a s)"

section \<open>Runs of copies\<close>

lemma takeWhile_run: "weakly f ys \<Longrightarrow> \<forall>y \<in> set ys. k \<le> f y \<Longrightarrow> takeWhile (\<lambda>y. f y = k) ys = filter (\<lambda>y. f y = k) ys"
proof (induction ys)
  case (Cons y ys)
  show ?case
  proof (cases "f y = k")
    case True
    with Cons show ?thesis by (simp add: weakly_def)
  next
    case False
    with Cons.prems have "k < f y" by (simp add: le_less)
    with Cons.prems(1) have "\<forall>x \<in> set ys. f x \<noteq> k" by (auto simp: weakly_def)
    with False show ?thesis by simp
  qed
qed simp

lemma takeWhile_run_rev: "weakly f xs \<Longrightarrow> \<forall>y \<in> set xs. f y \<le> k \<Longrightarrow> takeWhile (\<lambda>y. f y = k) (rev xs) = filter (\<lambda>y. f y = k) (rev xs)"
proof (induction xs rule: rev_induct)
  case (snoc y xs)
  then have w: "weakly f xs" "\<forall>x \<in> set xs. f x \<le> f y" "f y \<le> k" by auto
  show ?case
  proof (cases "f y = k")
    case True
    with snoc w show ?thesis by simp
  next
    case False
    with w have "\<forall>x \<in> set xs. f x \<noteq> k" by (fastforce simp: le_less)
    with False show ?thesis by simp
  qed
qed simp

abbreviation plain_type :: "'c cap_ops \<Rightarrow> 'c mdb \<Rightarrow> addr \<Rightarrow> bool" where
  "plain_type K s a \<equiv> general_equality K (type_of K (cap (ctes s a))) = None"

lemma is_copy_key: "plain_type K s a \<Longrightarrow> is_copy K (cte_cap s x) (cte_cap s a) \<longleftrightarrow> key_tb K s False x = key_tb K s False a"
  by (auto simp: is_copy_iff cte_key_no_tiebreak dest: cap_key_parts)

lemma weakly_ok: "mdb_ok K s t \<Longrightarrow> weakly (key_tb K s tb) (nodes t)"
  using ordered_weakly mdb_okD(2) by blast

text \<open>The neighbours are copies exactly if there are any.\<close>

lemma has_copies_spec:
  assumes "mdb_ok K s t" "nodes t = xs @ a # ys" "plain_type K s a"
  shows "has_copies K s a = Some (\<exists>y \<in> set (xs @ ys). is_copy K (cte_cap s y) (cte_cap s a))"
proof -
  let ?f = "key_tb K s False"
  have w: "weakly ?f xs" "weakly ?f ys" "\<forall>x \<in> set xs. ?f x \<le> ?f a" "\<forall>y \<in> set ys. ?f a \<le> ?f y"
    using weakly_ok [OF assms(1), of False] assms(2) by auto
  have "(case first_opt ys of None \<Rightarrow> False | Some y \<Rightarrow> ?f y = ?f a) \<longleftrightarrow> takeWhile (\<lambda>y. ?f y = ?f a) ys \<noteq> []"
    by (cases ys) auto
  then have n: "(case first_opt ys of None \<Rightarrow> False | Some y \<Rightarrow> ?f y = ?f a) \<longleftrightarrow> (\<exists>y \<in> set ys. ?f y = ?f a)"
    unfolding takeWhile_run [OF w(2,4)] by (simp add: filter_empty_conv)
  have "(case last_opt xs of None \<Rightarrow> False | Some y \<Rightarrow> ?f y = ?f a) \<longleftrightarrow> takeWhile (\<lambda>y. ?f y = ?f a) (rev xs) \<noteq> []"
    by (cases xs rule: rev_cases) auto
  then have p: "(case last_opt xs of None \<Rightarrow> False | Some y \<Rightarrow> ?f y = ?f a) \<longleftrightarrow> (\<exists>y \<in> set xs. ?f y = ?f a)"
    unfolding takeWhile_run_rev [OF w(1,3)] by (simp add: filter_empty_conv)
  show ?thesis
    unfolding has_copies_def predecessor_spec [OF assms(1,2)] successor_spec [OF assms(1,2)] is_copy_key [OF assms(3)]
    by (simp add: n p) blast
qed

section \<open>Setting flags\<close>

lemma set_relations_simps [simp]:
  "cap (set_relations r m c) = cap c" "n_left (set_relations r m c) = n_left c" "n_right (set_relations r m c) = n_right c"
  "n_end (set_relations r m c) = n_end c" "n_end_root (set_relations r m c) = n_end_root c" "n_level (set_relations r m c) = n_level c"
  "set_relations r m (set_relations r m c) = set_relations r m c"
  by (simp_all add: set_relations_def Let_def)

lemma set_cte_simps [simp]:
  "ctes (mdb_set_cte_relations a r m s) x = (if x = a then set_relations r m (ctes s x) else ctes s x)"
  "mdb_root (mdb_set_cte_relations a r m s) = mdb_root s" "kcb_root (mdb_set_cte_relations a r m s) = kcb_root s"
  by (simp_all add: mdb_set_cte_relations_def upd_cte_def)

lemma set_cte_cap: "cap (ctes (mdb_set_cte_relations a r m s) x) = cap (ctes s x)"
  by simp

lemma set_cte_tree: "tree_at K (mdb_set_cte_relations a r m s) p t = tree_at K s p t"
proof (induction t arbitrary: p rule: atree_induct)
  case (Node l b n r)
  have "ends_at K (mdb_set_cte_relations a q m s) b A = ends_at K s b A" for A q
    unfolding ends_at_def set_cte_cap by simp
  with Node show ?case by simp
qed simp

lemma set_cte_ok [simp]: "mdb_ok K (mdb_set_cte_relations a r m s) t = mdb_ok K s t"
  unfolding mdb_ok_def set_cte_tree set_cte_cap by simp

lemma behind_spec:
  assumes "mdb_ok K s t" "nodes t = us @ vs"
  shows "set_copies_behind K a r m (first_opt vs) s =
    Some (fold (\<lambda>x. mdb_set_cte_relations x r m) (takeWhile (\<lambda>x. is_copy K (cte_cap s x) (cte_cap s a)) vs) s)"
  using assms
proof (induction vs arbitrary: us s)
  case Nil
  then show ?case by (simp add: set_copies_behind.simps)
next
  case (Cons v vs)
  let ?s = "mdb_set_cte_relations v r m s"
  have "mdb_successor K ?s v = Some (first_opt vs)" using Cons.prems by (intro successor_spec) auto
  moreover have "set_copies_behind K a r m (first_opt vs) ?s =
    Some (fold (\<lambda>x. mdb_set_cte_relations x r m) (takeWhile (\<lambda>x. is_copy K (cte_cap ?s x) (cte_cap ?s a)) vs) ?s)"
    using Cons.prems by (intro Cons.IH [of _ "us @ [v]"]) auto
  ultimately show ?case
    unfolding set_cte_cap by (simp add: set_copies_behind.simps [of K a r m "Some v"])
qed

lemma before_spec:
  assumes "mdb_ok K s t" "nodes t = us @ vs"
  shows "set_copies_before K a r m (last_opt us) s =
    Some (fold (\<lambda>x. mdb_set_cte_relations x r m) (takeWhile (\<lambda>x. is_copy K (cte_cap s x) (cte_cap s a)) (rev us)) s)"
  using assms
proof (induction us arbitrary: vs s rule: rev_induct)
  case Nil
  then show ?case by (simp add: set_copies_before.simps)
next
  case (snoc u us)
  let ?s = "mdb_set_cte_relations u r m s"
  have "mdb_predecessor K ?s u = Some (last_opt us)" using snoc.prems by (intro predecessor_spec [where ys = vs]) auto
  moreover have "set_copies_before K a r m (last_opt us) ?s =
    Some (fold (\<lambda>x. mdb_set_cte_relations x r m) (takeWhile (\<lambda>x. is_copy K (cte_cap ?s x) (cte_cap ?s a)) (rev us)) ?s)"
    using snoc.prems by (intro snoc.IH [of _ "u # vs"]) auto
  ultimately show ?case
    unfolding set_cte_cap by (simp add: set_copies_before.simps [of K a r m "Some u"])
qed

lemma fold_set_cte:
  "ctes (fold (\<lambda>x. mdb_set_cte_relations x r m) xs s) y = (if y \<in> set xs then set_relations r m (ctes s y) else ctes s y)"
  "mdb_root (fold (\<lambda>x. mdb_set_cte_relations x r m) xs s) = mdb_root s"
  "kcb_root (fold (\<lambda>x. mdb_set_cte_relations x r m) xs s) = kcb_root s"
  "mdb_ok K (fold (\<lambda>x. mdb_set_cte_relations x r m) xs s) t = mdb_ok K s t"
  by (induction xs arbitrary: s) auto

lemma rrels_unchanged: "rrels (set_relations r m c) = rrels c \<Longrightarrow> set_relations r m c = c"
  by (cases c) (auto simp: rrels_def set_relations_def Let_def split: if_splits)

lemma rrels_cong: "rrels c = rrels d \<Longrightarrow> rrels (set_relations r m c) = rrels (set_relations r m d)"
  by (auto simp: rrels_def set_relations_def Let_def)

lemma set_relations_run:
  assumes ok: "mdb_ok K s t" "nodes t = xs @ a # ys" and plain: "plain_type K s a"
    and changed: "rrels (set_relations r m (ctes s a)) \<noteq> rrels (ctes s a)"
  shows "\<exists>s'. mdb_set_relations K a r m s = Some s' \<and> mdb_ok K s' t \<and> mdb_root s' = mdb_root s \<and> kcb_root s' = kcb_root s \<and>
    (\<forall>x. ctes s' x =
      (if x \<in> set (nodes t) \<and> is_copy K (cte_cap s x) (cte_cap s a) then set_relations r m (ctes s x) else ctes s x))"
proof -
  let ?f = "key_tb K s False" and ?set = "\<lambda>x. mdb_set_cte_relations x r m"
  let ?copy = "\<lambda>x. is_copy K (cte_cap s x) (cte_cap s a)"
  let ?s1 = "?set a s"
  let ?s2 = "fold ?set (takeWhile ?copy ys) ?s1"
  have w: "weakly ?f xs" "weakly ?f ys" "\<forall>x \<in> set xs. ?f x \<le> ?f a" "\<forall>y \<in> set ys. ?f a \<le> ?f y"
    using weakly_ok [OF ok(1), of False] ok(2) by auto
  have ok1: "mdb_ok K ?s1 t" and ok2: "mdb_ok K ?s2 t" using ok(1) by (simp_all add: fold_set_cte)
  have caps: "cap (ctes ?s2 x) = cap (ctes s x)" for x by (simp add: fold_set_cte)
  have "mdb_successor K ?s1 a = Some (first_opt ys)" using ok1 ok(2) by (rule successor_spec)
  moreover have "set_copies_behind K a r m (first_opt ys) ?s1 = Some ?s2"
    using behind_spec [OF ok1, of "xs @ [a]" ys a r m] ok(2) unfolding set_cte_cap by simp
  moreover have "mdb_predecessor K ?s2 a = Some (last_opt xs)" using ok2 ok(2) by (rule predecessor_spec)
  moreover have "set_copies_before K a r m (last_opt xs) ?s2 = Some (fold ?set (takeWhile ?copy (rev xs)) ?s2)"
    using before_spec [OF ok2 ok(2), of a r m] unfolding caps .
  ultimately have run: "mdb_set_relations K a r m s = Some (fold ?set (takeWhile ?copy (rev xs)) ?s2)"
    using changed by (simp add: mdb_set_relations_def Let_def)
  have runs: "set (takeWhile ?copy (rev xs)) = {x \<in> set xs. ?copy x}" "set (takeWhile ?copy ys) = {y \<in> set ys. ?copy y}"
    unfolding is_copy_key [OF plain] takeWhile_run_rev [OF w(1,3)] takeWhile_run [OF w(2,4)] by auto
  have self: "?copy a" by (simp add: is_copy_key [OF plain])
  show ?thesis unfolding run using ok(1) self
    by (auto simp: fold_set_cte runs ok(2))
qed

text \<open>What \<^verbatim>\<open>mdb_find_greater\<close> and \<^verbatim>\<open>mdb_find_less\<close> return for a slot.\<close>

lemma first_filter:
  assumes "weakly f xs" "first_opt (filter (\<lambda>x. k < f x) xs) = q"
  shows "case q of None \<Rightarrow> \<forall>x \<in> set xs. f x \<le> k | Some y \<Rightarrow> y \<in> set xs \<and> k < f y \<and> (\<forall>x \<in> set xs. k < f x \<longrightarrow> f y \<le> f x)"
proof (cases "filter (\<lambda>x. k < f x) xs")
  case Nil
  with assms(2) show ?thesis by (auto simp: filter_empty_conv not_less)
next
  case (Cons y ys)
  have "weakly f (y # ys)" using assms(1) unfolding weakly_def Cons [symmetric] by (rule sorted_wrt_filter)
  then have le: "f y \<le> f x" if "x \<in> set (y # ys)" for x using that by (auto simp: weakly_def)
  have set: "set (y # ys) = {x \<in> set xs. k < f x}" unfolding Cons [symmetric] by simp
  have "y \<in> set xs \<and> k < f y" using set by auto
  moreover have "f y \<le> f x" if "x \<in> set xs" "k < f x" for x using le set that by blast
  ultimately show ?thesis using assms(2) Cons by auto
qed

lemma last_filter:
  assumes "weakly f xs" "last_opt (filter (\<lambda>x. f x < k) xs) = q"
  shows "case q of None \<Rightarrow> \<forall>x \<in> set xs. k \<le> f x | Some y \<Rightarrow> y \<in> set xs \<and> f y < k \<and> (\<forall>x \<in> set xs. f x < k \<longrightarrow> f x \<le> f y)"
proof (cases "filter (\<lambda>x. f x < k) xs" rule: rev_cases)
  case Nil
  with assms(2) show ?thesis by (auto simp: filter_empty_conv not_less)
next
  case (snoc ys y)
  have "weakly f (ys @ [y])" using assms(1) unfolding weakly_def snoc [symmetric] by (rule sorted_wrt_filter)
  then have le: "f x \<le> f y" if "x \<in> set (ys @ [y])" for x using that by (auto simp: weakly_def sorted_wrt_append)
  have set: "set (ys @ [y]) = {x \<in> set xs. f x < k}" unfolding snoc [symmetric] by simp
  have "y \<in> set xs \<and> f y < k" using set by auto
  moreover have "f x \<le> f y" if "x \<in> set xs" "f x < k" for x using le set that by blast
  ultimately show ?thesis using assms(2) snoc by auto
qed

abbreviation before :: "'c cap_ops \<Rightarrow> 'c mdb \<Rightarrow> addr \<Rightarrow> addr \<Rightarrow> bool" where
  "before K s x y \<equiv> cap_key K (cap (ctes s x)) < cap_key K (cap (ctes s y))"

lemma has_descendants_spec:
  assumes "mdb_ok K s t"
  shows "has_descendants K s a = Some (\<exists>y \<in> set (nodes t). before K s a y \<and> rt K s y = rt K s a \<and> beg_of K s y < en K s a)"
proof -
  let ?f = "key_tb K s False"
  obtain q where q: "first_opt (filter (\<lambda>x. ?f a < ?f x) (nodes t)) = q" by simp
  have run: "mdb_find_greater K s (cte_cap s a) False = Some q"
    using find_greater_strict [OF mdb_okD(1) [OF assms] weakly_ok [OF assms], of "cte_cap s a" False] q
    by (simp add: mdb_find_greater_def)
  note spec = first_filter [OF weakly_ok [OF assms] q, unfolded cte_key_no_tiebreak fst_conv]
  show ?thesis
  proof (cases q)
    case None
    with spec run show ?thesis by (auto simp: has_descendants_def not_less)
  next
    case (Some y)
    with spec have y: "y \<in> set (nodes t)" "before K s a y"
      "\<And>x. x \<in> set (nodes t) \<Longrightarrow> before K s a x \<Longrightarrow> cap_key K (cap (ctes s y)) \<le> cap_key K (cap (ctes s x))" by auto
    have "rt K s y = rt K s a \<and> beg_of K s y < en K s a"
      if x: "x \<in> set (nodes t)" "before K s a x" "rt K s x = rt K s a" "beg_of K s x < en K s a" for x
    proof -
      have "rt K s a \<le> rt K s y" "rt K s y \<le> rt K s x"
        using cap_key_sorted(1) [OF less_imp_le [OF y(2)]] cap_key_sorted(1) [OF y(3) [OF x(1,2)]] by simp_all
      then have "rt K s y = rt K s x" using x(3) by simp
      with cap_key_sorted(2) [OF y(3) [OF x(1,2)]] x(3,4) show ?thesis by auto
    qed
    with y(1,2) Some run show ?thesis by (auto simp: has_descendants_def)
  qed
qed

section \<open>Ancestors\<close>

lemma match_point:
  assumes "b \<le> f"
  shows "range_match a a b f = (if b < a \<and> a < f then 1 else (0 :: int))"
  using assms by (auto simp: range_match_cases mdb_is_inside_def)

lemma before_address: "rt K s x = rt K s y \<Longrightarrow> beg_of K s x < beg_of K s y \<Longrightarrow> before K s x y"
  by (simp add: cap_key_def word_less_nat_alt)

lemma same_start_size:
  assumes "rt K s x = rt K s y" "beg_of K s x = beg_of K s y" "cap_key K (cap (ctes s x)) \<le> cap_key K (cap (ctes s y))"
    "no_wrap K (cap (ctes s x))" "no_wrap K (cap (ctes s y))"
  shows "en K s y \<le> en K s x"
proof -
  have "unat (get_size K (cap (ctes s y))) \<le> unat (get_size K (cap (ctes s x)))"
    using assms(1-3) by (auto simp: cap_key_def)
  with unat_cap_end [OF assms(4)] unat_cap_end [OF assms(5)] assms(2) show ?thesis by (simp add: word_le_nat_alt)
qed

text \<open>The query for the empty region at the start of the slot.\<close>

lemma point_query:
  assumes ok: "mdb_ok K s t" and range: "range_ok K s (set (nodes t)) root a 0"
  shows "\<exists>c q. mdb_find_range K s root a 0 1 True True = Some (SYS_ERR_OK, Some (c, q)) \<and>
    (if \<exists>x \<in> set (nodes t). rt K s x = root \<and> beg_of K s x < a \<and> a < en K s x
     then c = 1 \<and> (\<exists>x \<in> set (nodes t). q = Some x \<and> rt K s x = root \<and> beg_of K s x < a \<and> a < en K s x)
     else c = 0 \<and> q = None)"
proof -
  have m: "slot_match K s root a 0 x = (if rt K s x = root \<and> beg_of K s x < a \<and> a < en K s x then 1 else 0)"
    if "x \<in> set (nodes t)" for x
    using match_point [OF range_okD(2) [OF range that]] by (simp add: slot_match_def)
  from sub_find_range_spec [OF mdb_okD(1,2) [OF ok] range, of 1] obtain c q where
    run: "mdb_sub_find_range K s root a 0 1 (mdb_root s) = Some (c, q)"
    and found: "range_found K s root a 0 1 (set (nodes t)) (c, q)" by auto
  from found m have "if \<exists>x \<in> set (nodes t). rt K s x = root \<and> beg_of K s x < a \<and> a < en K s x
     then c = 1 \<and> (\<exists>x \<in> set (nodes t). q = Some x \<and> rt K s x = root \<and> beg_of K s x < a \<and> a < en K s x)
     else c = 0 \<and> q = None"
    by (fastforce simp: range_found_def split: if_splits)
  with run show ?thesis by (simp add: mdb_find_range_def)
qed

lemma find_ancestor_spec:
  assumes ok: "mdb_ok K s t" and a: "a \<in> set (nodes t)" and range: "range_ok K s (set (nodes t)) (rt K s a) (beg_of K s a) 0"
    and nest: "\<forall>x \<in> set (nodes t). rt K s x = rt K s a \<longrightarrow> nested K s x a"
  shows "\<exists>p. mdb_find_ancestor K s a = Some p \<and>
    (case p of
       Some x \<Rightarrow> x \<in> set (nodes t) \<and> rt K s x = rt K s a \<and> before K s x a \<and> beg_of K s x \<le> beg_of K s a \<and> en K s a \<le> en K s x
     | None \<Rightarrow> \<forall>y \<in> set (nodes t). rt K s y = rt K s a \<and> before K s y a \<and> beg_of K s a < en K s y \<longrightarrow> \<not> en K s a \<le> en K s y)"
proof -
  let ?f = "key_tb K s False"
  have nw: "no_wrap K (cap (ctes s x))" if "x \<in> set (nodes t)" "rt K s x = rt K s a" for x
    using range that by (simp add: range_ok_def)
  have le: "beg_of K s a \<le> en K s a" using range_okD(2) [OF range a] by simp
  obtain q where q: "last_opt (filter (\<lambda>x. ?f x < ?f a) (nodes t)) = q" by simp
  have less: "mdb_find_less K s (cte_cap s a) False = Some q"
    using find_less_strict [OF mdb_okD(1) [OF ok] weakly_ok [OF ok], of "cte_cap s a" False] q by (simp add: mdb_find_less_def)
  note spec = last_filter [OF weakly_ok [OF ok] q, unfolded cte_key_no_tiebreak fst_conv]
  show ?thesis
  proof (cases "case q of None \<Rightarrow> False | Some x \<Rightarrow> rt K s x = rt K s a \<and> en K s x \<ge> en K s a")
    case True
    then obtain x where x: "q = Some x" "rt K s x = rt K s a" "en K s a \<le> en K s x" by (auto split: option.splits)
    with spec have "x \<in> set (nodes t)" "before K s x a" by auto
    with x cap_key_sorted(2) [OF less_imp_le [of "cap_key K (cap (ctes s x))"]] True less show ?thesis
      by (auto simp: mdb_find_ancestor_def)
  next
    case False
    from point_query [OF ok range] obtain c p where
      run: "mdb_find_range K s (rt K s a) (beg_of K s a) 0 1 True True = Some (SYS_ERR_OK, Some (c, p))"
      and res: "if \<exists>x \<in> set (nodes t). rt K s x = rt K s a \<and> beg_of K s x < beg_of K s a \<and> beg_of K s a < en K s x
       then c = 1 \<and> (\<exists>x \<in> set (nodes t). p = Some x \<and> rt K s x = rt K s a \<and> beg_of K s x < beg_of K s a \<and> beg_of K s a < en K s x)
       else c = 0 \<and> p = None" by blast
    show ?thesis
    proof (cases "\<exists>x \<in> set (nodes t). rt K s x = rt K s a \<and> beg_of K s x < beg_of K s a \<and> beg_of K s a < en K s x")
      case True
      with res obtain x where x: "c = 1" "p = Some x" "x \<in> set (nodes t)" "rt K s x = rt K s a" "beg_of K s x < beg_of K s a"
        "beg_of K s a < en K s x" by auto
      then have "en K s a \<le> en K s x" using nest le by (fastforce simp: nested_def)
      with x False less run before_address [OF x(4,5)] show ?thesis by (auto simp: mdb_find_ancestor_def)
    next
      case none: False
      have "\<not> en K s a \<le> en K s y" if y: "y \<in> set (nodes t)" "rt K s y = rt K s a" "before K s y a" "beg_of K s a < en K s y" for y
      proof
        assume en: "en K s a \<le> en K s y"
        have "beg_of K s y \<le> beg_of K s a" using cap_key_sorted(2) [OF less_imp_le [OF y(3)] y(2)] .
        with none y have beg: "beg_of K s y = beg_of K s a" by force
        from spec y obtain z where z: "q = Some z" "z \<in> set (nodes t)" "before K s z a"
          "cap_key K (cap (ctes s y)) \<le> cap_key K (cap (ctes s z))" by (fastforce split: option.splits)
        have zr: "rt K s z = rt K s a"
          using cap_key_sorted(1) [OF z(4)] cap_key_sorted(1) [OF less_imp_le [OF z(3)]] y(2) by simp
        have "beg_of K s z = beg_of K s a"
          using cap_key_sorted(2) [OF z(4)] cap_key_sorted(2) [OF less_imp_le [OF z(3)]] zr y(2) beg by simp
        from same_start_size [OF zr this less_imp_le [OF z(3)] nw [OF z(2) zr] nw [OF a refl]]
        show False using False z(1) zr by simp
      qed
      with none res False less run show ?thesis by (auto simp: mdb_find_ancestor_def)
    qed
  qed
qed

section \<open>Properties\<close>

text \<open>
  C8. \<^verbatim>\<open>mdb_set_relations\<close> sets the flags on all copies of the slot and on nothing else: if the copies agreed before, they
  agree afterwards, on the flags of the slot with the masked ones replaced.
\<close>

theorem mdb_set_relations_all_copies:
  assumes "mdb_ok K s t" "a \<in> set (nodes t)" "plain_type K s a"
  shows "\<exists>s'. mdb_set_relations K a r m s = Some s' \<and> mdb_ok K s' t \<and> mdb_root s' = mdb_root s \<and> kcb_root s' = kcb_root s \<and>
    (\<forall>x. \<not> (x \<in> set (nodes t) \<and> is_copy K (cte_cap s x) (cte_cap s a)) \<longrightarrow> ctes s' x = ctes s x) \<and>
    (\<forall>x \<in> set (nodes t). is_copy K (cte_cap s x) (cte_cap s a) \<and> rrels (ctes s x) = rrels (ctes s a) \<longrightarrow>
      ctes s' x = set_relations r m (ctes s x) \<and> rrels (ctes s' x) = rrels (ctes s' a))"
proof -
  from split_list [OF assms(2)] obtain xs ys where split: "nodes t = xs @ a # ys" by blast
  show ?thesis
  proof (cases "rrels (set_relations r m (ctes s a)) = rrels (ctes s a)")
    case True
    have "ctes (mdb_set_cte_relations a r m s) = ctes s" using rrels_unchanged [OF True] by (auto simp: fun_eq_iff)
    moreover have "set_relations r m (ctes s x) = ctes s x" if "rrels (ctes s x) = rrels (ctes s a)" for x
      using True rrels_cong [OF that] that by (intro rrels_unchanged) metis
    ultimately show ?thesis
      using True assms(1) by (intro exI [of _ "mdb_set_cte_relations a r m s"]) (auto simp: mdb_set_relations_def simp del: set_cte_simps(1))
  next
    case False
    from set_relations_run [OF assms(1) split assms(3) False] obtain s' where
      s': "mdb_set_relations K a r m s = Some s'" "mdb_ok K s' t" "mdb_root s' = mdb_root s" "kcb_root s' = kcb_root s"
      and ctes: "\<And>x. ctes s' x = (if x \<in> set (nodes t) \<and> is_copy K (cte_cap s x) (cte_cap s a)
        then set_relations r m (ctes s x) else ctes s x)" by blast
    have "ctes s' a = set_relations r m (ctes s a)" using assms(2,3) ctes [of a] by (simp add: is_copy_key)
    with s' ctes rrels_cong show ?thesis by auto
  qed
qed

text \<open>Two copies and another capability.\<close>

definition example_copies :: "(nat \<times> u64 \<times> u64) mdb" where
  "example_copies = \<lparr>ctes = (\<lambda>a.
     if a = 64 then (example_cte (1, 0x1000, 0x1000))\<lparr>n_left := Some 32, n_right := Some 96, n_level := 1, n_end := 0x2000\<rparr>
     else if a = 32 then example_cte (1, 0x1000, 0x1000)
     else example_cte (1, 0x1400, 0x400)),
     mdb_root = Some 64, kcb_root = Some 64, tmp = None\<rparr>"

lemma example_copies_ok: "mdb_ok example_ops example_copies example_tree3"
  by (simp add: mdb_ok_def example_copies_def example_cte_def ends_at_def max_root_def max_end_def max_end_in_def
      example_ops_def cte_key_def cap_key_def Collect_disj_eq)

lemma example_copies_plain: "plain_type example_ops example_copies 32"
  "is_copy example_ops (cte_cap example_copies 64) (cte_cap example_copies 32)"
  "rrels (ctes example_copies 64) = rrels (ctes example_copies 32)"
  by (simp_all add: example_ops_def example_copies_def example_cte_def is_copy_iff cap_key_def rrels_def)

theorem mdb_set_relations_all_copies_witness:
  "\<exists>s'. mdb_set_relations example_ops 32 5 7 example_copies = Some s' \<and> rrels (ctes s' 64) = (True, False, True)"
proof -
  have "32 \<in> set (nodes example_tree3)" "64 \<in> set (nodes example_tree3)" by auto
  with mdb_set_relations_all_copies [OF example_copies_ok this(1) example_copies_plain(1), of 5 7] example_copies_plain(2,3)
  obtain s' where "mdb_set_relations example_ops 32 5 7 example_copies = Some s'"
    "ctes s' 64 = set_relations 5 7 (ctes example_copies 64)" by blast
  moreover have "rrels (set_relations 5 7 c) = (True, False, True)" for c :: "(nat \<times> u64 \<times> u64) cte"
    by (simp add: rrels_def set_relations_def)
  ultimately show ?thesis by auto
qed

text \<open>
  C28. \<^verbatim>\<open>has_copies\<close>, which only looks at the neighbours of the slot, finds a copy exactly if another slot holds one.
\<close>

theorem has_copies_correct:
  assumes "mdb_ok K s t" "a \<in> set (nodes t)" "plain_type K s a"
  shows "has_copies K s a = Some (\<exists>y \<in> set (nodes t). y \<noteq> a \<and> is_copy K (cte_cap s y) (cte_cap s a))"
proof -
  from split_list [OF assms(2)] obtain xs ys where split: "nodes t = xs @ a # ys" by blast
  with mdb_okD(5) [OF assms(1)] have "{y \<in> set (nodes t). y \<noteq> a} = set (xs @ ys)" by auto
  then have "(\<exists>y \<in> set (xs @ ys). is_copy K (cte_cap s y) (cte_cap s a)) \<longleftrightarrow>
    (\<exists>y \<in> set (nodes t). y \<noteq> a \<and> is_copy K (cte_cap s y) (cte_cap s a))" by blast
  then show ?thesis using has_copies_spec [OF assms(1) split assms(3)] by (simp only:)
qed

theorem has_copies_correct_witness: "has_copies example_ops example_copies 32 = Some True"
  using has_copies_correct [OF example_copies_ok, of 32] example_copies_plain by auto

text \<open>
  C6. \<^verbatim>\<open>mdb_find_ancestor\<close> passes its assertions if the regions of the type tree are nested or disjoint; the slot it
  returns precedes the given one in the order and its region contains that of the given one, and if it returns
  none, no slot that precedes and reaches beyond the start of the given one has this property.
\<close>

theorem mdb_find_ancestor_correct:
  assumes "mdb_ok K s t" "a \<in> set (nodes t)" "range_ok K s (set (nodes t)) (rt K s a) (beg_of K s a) 0"
    "\<forall>x \<in> set (nodes t). rt K s x = rt K s a \<longrightarrow> nested K s x a"
  shows "\<exists>p. mdb_find_ancestor K s a = Some p \<and> has_ancestors K s a = Some (p \<noteq> None) \<and>
    (case p of
       Some x \<Rightarrow> x \<in> set (nodes t) \<and> rt K s x = rt K s a \<and> before K s x a \<and> beg_of K s x \<le> beg_of K s a \<and> en K s a \<le> en K s x
     | None \<Rightarrow> \<forall>y \<in> set (nodes t). rt K s y = rt K s a \<and> before K s y a \<and> beg_of K s a < en K s y \<longrightarrow> \<not> en K s a \<le> en K s y)"
  using find_ancestor_spec [OF assms] by (auto simp: has_ancestors_def)

theorem mdb_find_ancestor_correct_witness: "has_ancestors example_ops example_mdb3 96 = Some True"
proof -
  have "range_ok example_ops example_mdb3 (set (nodes example_tree3)) (rt example_ops example_mdb3 96) (beg_of example_ops example_mdb3 96) 0"
    "\<forall>x \<in> set (nodes example_tree3). rt example_ops example_mdb3 x = rt example_ops example_mdb3 96 \<longrightarrow> nested example_ops example_mdb3 x 96"
    "before example_ops example_mdb3 32 96" "beg_of example_ops example_mdb3 96 < en example_ops example_mdb3 32"
    "rt example_ops example_mdb3 32 = rt example_ops example_mdb3 96"
    "en example_ops example_mdb3 96 \<le> en example_ops example_mdb3 32"
    by (auto simp: range_ok_def no_wrap_def nested_def cap_key_def example_ops_def example_mdb3_def example_cte_def)
  with mdb_find_ancestor_correct [OF example_mdb3_ok(1), of 96] show ?thesis by (fastforce split: option.splits)
qed

text \<open>
  C7. \<^verbatim>\<open>has_descendants\<close> holds exactly if a slot of the type tree behind the given one starts in its region.  In
  particular no descendant is missed: with the types of caps.hl, a slot whose capability was derived from the given
  one and does not start at the end of its region is found.
\<close>

theorem has_descendants_correct:
  assumes "mdb_ok (hamlet_ops E caps_hl) s t"
  defines "K \<equiv> hamlet_ops E caps_hl"
  shows "has_descendants K s a =
      Some (\<exists>y \<in> set (nodes t). before K s a y \<and> rt K s y = rt K s a \<and> beg_of K s y < en K s a) \<and>
    (\<forall>y \<in> set (nodes t). is_ancestor K (cap (ctes s y)) (cap (ctes s a)) \<and> no_wrap K (cap (ctes s y)) \<and>
      no_wrap K (cap (ctes s a)) \<and> beg_of K s y < en K s a \<longrightarrow> has_descendants K s a = Some True)"
proof -
  have spec: "has_descendants K s a =
      Some (\<exists>y \<in> set (nodes t). before K s a y \<and> rt K s y = rt K s a \<and> beg_of K s y < en K s a)"
    using assms by (intro has_descendants_spec) simp
  have "before K s a y \<and> rt K s y = rt K s a"
    if "is_ancestor K (cap (ctes s y)) (cap (ctes s a))" "no_wrap K (cap (ctes s y))" "no_wrap K (cap (ctes s a))" for y
    using hamlet.ancestor_precedes [OF that [unfolded K_def], of a y False] hamlet.ancestor_root [OF that(1) [unfolded K_def]]
      compare_caps_less [of K "cte_cap s a" "cte_cap s y" False] by (simp add: cte_key_no_tiebreak K_def)
  then show ?thesis unfolding spec by blast
qed

text \<open>
  A database of capabilities of caps.hl: the frame from 0x2000 to 0x3000, a mapping of it, which has its address
  but no size, and another frame.
\<close>

definition frame_mapping :: capability where
  "frame_mapping = \<lparr>cap_type = 8, cap_rights = 0, cap_u = (\<lambda>n. if n = ''frame'' then 32 else 0)\<rparr>"

definition other_frame :: capability where
  "other_frame = \<lparr>cap_type = 7, cap_rights = 0, cap_u = (\<lambda>n. if n = ''base'' then 0x4000 else 12)\<rparr>"

definition frame_env :: cap_env where
  "frame_env = \<lparr>mem_to_phys = (\<lambda>a. a), cap_at = (\<lambda>p. if p = 32 then Some example_frame else None)\<rparr>"

abbreviation frame_ops :: "capability cap_ops" where
  "frame_ops \<equiv> hamlet_ops frame_env caps_hl"

lemma frame_extents:
  "gen_address frame_env caps_hl example_frame = Some 0x2000 \<and> gen_size caps_hl example_frame = Some 0x1000 \<and>
   gen_address frame_env caps_hl frame_mapping = Some 0x2000 \<and> gen_size caps_hl frame_mapping = Some 0 \<and>
   gen_address frame_env caps_hl other_frame = Some 0x4000 \<and> gen_size caps_hl other_frame = Some 0x1000"
  by code_simp

lemma frame_types:
  "gen_type_root caps_hl 2 = Some 1 \<and> gen_type_root caps_hl 7 = Some 1 \<and> gen_type_root caps_hl 8 = Some 1 \<and>
   map_option cd_eqFields (nth_cap caps_hl 7) = Some [] \<and> map_option cd_eqFields (nth_cap caps_hl 8) = Some [''pte''] \<and>
   gen_well_founded caps_hl 7 8"
  by code_simp

lemma frame_facts [simp]:
  "type_of frame_ops example_frame = 7" "type_of frame_ops frame_mapping = 8" "type_of frame_ops other_frame = 7"
  "get_type_root frame_ops 2 = 1" "get_type_root frame_ops 7 = 1" "get_type_root frame_ops 8 = 1"
  "get_address frame_ops example_frame = 0x2000" "get_address frame_ops frame_mapping = 0x2000" "get_address frame_ops other_frame = 0x4000"
  "get_size frame_ops example_frame = 0x1000" "get_size frame_ops frame_mapping = 0" "get_size frame_ops other_frame = 0x1000"
  "eq_fields frame_ops 7 = []" "length (eq_fields frame_ops 8) = 1" "is_well_founded frame_ops 7 8"
  using frame_extents frame_types
  by (auto simp: hamlet_ops_def or_zero_def example_frame_def frame_mapping_def other_frame_def)

definition frame_cte :: "capability \<Rightarrow> u64 \<Rightarrow> capability cte" where
  "frame_cte c e = \<lparr>cap = c, n_left = None, n_right = None, n_end = e, n_end_root = 1, n_level = 0,
     remote_copies = False, remote_ancs = False, remote_descs = False, locked = False, in_delete = False, owner = 0\<rparr>"

definition frame_mdb :: "capability mdb" where
  "frame_mdb = \<lparr>ctes = (\<lambda>a.
     if a = 64 then (frame_cte frame_mapping 0x5000)\<lparr>n_left := Some 32, n_right := Some 96, n_level := 1\<rparr>
     else if a = 32 then frame_cte example_frame 0x3000
     else frame_cte other_frame 0x5000),
     mdb_root = Some 64, kcb_root = Some 64, tmp = None\<rparr>"

lemma frame_mdb_ok: "mdb_ok frame_ops frame_mdb example_tree3"
proof -
  have A: "{a. a \<noteq> 32 \<longrightarrow> a \<noteq> 64 \<longrightarrow> a = 96} = {32, 64, 96 :: nat}" by auto
  show ?thesis
    by (simp add: mdb_ok_def frame_mdb_def frame_cte_def ends_at_def max_root_def max_end_def max_end_in_def
        cte_key_def cap_key_def A)
qed

lemma frame_mdb_caps [simp]:
  "cap (ctes frame_mdb 32) = example_frame" "cap (ctes frame_mdb 64) = frame_mapping" "cap (ctes frame_mdb 96) = other_frame"
  by (simp_all add: frame_mdb_def frame_cte_def)

theorem has_descendants_correct_witness: "has_descendants frame_ops frame_mdb 32 = Some True"
proof -
  have "is_ancestor frame_ops frame_mapping example_frame" "no_wrap frame_ops frame_mapping" "no_wrap frame_ops example_frame"
    by (simp_all add: is_ancestor_def no_wrap_def)
  then show ?thesis using has_descendants_correct [OF frame_mdb_ok, of 32] by auto
qed

text \<open>
  C23. With an empty capability at the address, \<^verbatim>\<open>mdb_find_cap_for_address\<close> may report that there is no capability
  although one contains the address: the frame is mapped, and at its start address the query stops at the mapping,
  which it takes to be inside the region.
\<close>

theorem mdb_find_cap_for_address_misses:
  "mdb_ok frame_ops frame_mdb example_tree3 \<and> 32 \<in> set (nodes example_tree3) \<and>
   covers frame_ops frame_mdb (get_type_root frame_ops 2) 0x2000 32 \<and>
   mdb_find_cap_for_address frame_ops 2 frame_mdb 0x2000 = Some (SYS_ERR_CAP_NOT_FOUND, None)"
proof -
  have root: "mdb_root frame_mdb = Some 64" "n_end_root (ctes frame_mdb 64) = 1" "n_end (ctes frame_mdb 64) = 0x5000"
    by (simp_all add: frame_mdb_def frame_cte_def)
  have "mdb_find_cap_for_address frame_ops 2 frame_mdb 0x2000 = Some (SYS_ERR_CAP_NOT_FOUND, None)"
    by (simp add: mdb_find_cap_for_address_def mdb_find_range_def mdb_sub_find_range.simps [of _ _ _ _ _ _ "Some 64"]
        range_match_cases mdb_is_inside_def root)
  then show ?thesis using frame_mdb_ok by simp
qed

text \<open>
  Registering the slots of a new capability node adds exactly these slots, whether or not some of them were
  registered before, and keeps the database well formed.
\<close>

theorem set_init_mapping_correct:
  assumes "mdb_inv K s" "\<forall>i < num. mdb_ready K s (dest_start + i * cte_size)"
  shows "\<exists>s'. set_init_mapping K dest_start num s = Some s' \<and> mdb_inv K s' \<and>
    mdb_slots s' = mdb_slots s \<union> (\<lambda>i. dest_start + i * cte_size) ` {..<num} \<and> (\<forall>y. mdb_ready K s y \<longrightarrow> mdb_ready K s' y)"
  using assms
proof (induction num)
  case (Suc num)
  then obtain s1 where s1: "set_init_mapping K dest_start num s = Some s1" "mdb_inv K s1"
    "mdb_slots s1 = mdb_slots s \<union> (\<lambda>i. dest_start + i * cte_size) ` {..<num}" "\<forall>y. mdb_ready K s y \<longrightarrow> mdb_ready K s1 y" by auto
  let ?x = "dest_start + num * cte_size"
  from s1(4) Suc.prems(2) have "mdb_ready K s1 (op_slot (Ins ?x))" by simp
  from mdb.step_simulates [OF s1(2) this] obtain e s2 where
    "mdb_insert K ?x s1 = Some (e, s2)" "mdb_inv K s2" "mdb_slots s2 = insert ?x (mdb_slots s1)" "\<forall>y. mdb_ready K s1 y \<longrightarrow> mdb_ready K s2 y"
    by auto
  with s1 show ?case by (auto simp: lessThan_Suc)
qed simp

theorem set_init_mapping_correct_witness:
  "\<exists>s'. set_init_mapping example_ops 64 2 example_mdb3 = Some s' \<and> mdb_slots s' = {32, 64, 96, 128}"
proof -
  have "\<forall>i < 2. mdb_ready example_ops example_mdb3 (64 + i * cte_size)"
    using example_mdb3_slots(3,4) by (auto simp: less_2_cases_iff cte_size_def)
  moreover have "(\<lambda>i. 64 + i * cte_size) ` {..<2} = {64, 128 :: nat}" by (auto simp: cte_size_def less_2_cases_iff image_iff)
  ultimately show ?thesis
    using set_init_mapping_correct [OF example_mdb3_slots(1), of 2 64] example_mdb3_slots(2) by auto
qed

end
