(* ===== verification/Caps.thy ===== *)
theory Caps
  imports Cap_Types Lmp Mdb_Relations
begin

text \<open>
  Kernel capability management, kernel/capabilities.c: creating capabilities, resolving addresses in the capability
  space, retyping, copying and minting.  Slots live in the store of the capability database; the memory of kernel
  objects is seen through the typed views of the state.  The model is that of the 64-bit x86 kernel, where local and
  generic physical addresses agree.  Trace events and the architecture's initialisation of top-level page tables are left out.
\<close>

unbundle bit_operations_syntax

section \<open>State\<close>

text \<open>
  \<open>delete_node\<close> is the field of the same name of a slot.  \<open>hw\<close> records the operations on page tables and on the translation
  buffers, latest first.
\<close>

datatype hw_op = DoUnmap u64 u32 u16 | FlushOne u64 | FlushAll

record caps =
  db :: "capability mdb"
  delete_node :: "addr \<Rightarrow> ptr"
  delete_head :: ptr
  delete_tail :: ptr
  clear_head :: ptr
  clear_tail :: ptr
  monitor_ep :: capability
  id_cap_counter :: u32
  ipc :: lmp
  hw :: "hw_op list"

text \<open>
  What the kernel is configured with: the predicates on capabilities that Hamlet generates, the number of this core, the
  mapping of physical memory, the place of the two slots in a dispatcher control block and the domain it belongs to, the
  scheduler, and the words of a message about reclaimed memory: the generated structure for it and one word behind it.
\<close>

record caps_env =
  preds :: "capability cap_ops"
  my_core_id :: u8
  PADDR_SPACE_LIMIT :: u64
  local_phys_to_mem :: "u64 \<Rightarrow> u64"
  mem_to_local_phys :: "u64 \<Rightarrow> u64"
  dcb_cspace :: "addr \<Rightarrow> addr"
  dcb_disp_cte :: "addr \<Rightarrow> addr"
  dcb_domain_id :: "addr \<Rightarrow> u64"
  env_make_runnable :: "addr \<Rightarrow> kernel \<Rightarrow> kernel option"
  env_scheduler_remove :: "addr \<Rightarrow> kernel \<Rightarrow> kernel option"
  ram_words :: "u64 \<times> u8 \<Rightarrow> u64 list"

abbreviation cte_at :: "caps \<Rightarrow> addr \<Rightarrow> capability cte" where
  "cte_at s a \<equiv> ctes (db s) a"

abbreviation cap_of :: "caps \<Rightarrow> addr \<Rightarrow> capability" where
  "cap_of s a \<equiv> cap (cte_at s a)"

definition upd_slot :: "addr \<Rightarrow> (capability cte \<Rightarrow> capability cte) \<Rightarrow> caps \<Rightarrow> caps" where
  "upd_slot a f s = s\<lparr>db := upd_cte a f (db s)\<rparr>"

definition null_cap :: capability where
  "null_cap = \<lparr>cap_type = ObjType_Null, cap_rights = 0, cap_u = (\<lambda>_. 0)\<rparr>"

definition null_cte :: "capability cte" where
  "null_cte = \<lparr>cap = null_cap, n_left = None, n_right = None, n_end = 0, n_end_root = 0, n_level = 0,
     remote_copies = False, remote_ancs = False, remote_descs = False, locked = False, in_delete = False, owner = 0\<rparr>"

text \<open>\<^verbatim>\<open>memset\<close> of a slot, and of a piece of memory with everything that lies in it.\<close>

definition zero_slot :: "addr \<Rightarrow> caps \<Rightarrow> caps" where
  "zero_slot a s = (upd_slot a (\<lambda>_. null_cte) s)\<lparr>delete_node := (delete_node s)(a := None)\<rparr>"

definition zero_mem :: "u64 \<Rightarrow> nat \<Rightarrow> caps \<Rightarrow> caps" where
  "zero_mem va n s =
     (let inside = (\<lambda>a. unat va \<le> a \<and> a < unat va + n); i = ipc s; k = kern i
      in s\<lparr>db := (db s)\<lparr>ctes := (\<lambda>a. if inside a then null_cte else ctes (db s) a)\<rparr>,
           delete_node := (\<lambda>a. if inside a then None else delete_node s a),
           ipc := i\<lparr>disp := (\<lambda>d. if inside d then 0 else disp i d),
                    eps := (\<lambda>e. if inside (unat e)
                                then \<lparr>recv_cptr = 0, recv_slot = 0, recv_bits = 0, delivered = 0, consumed = 0,
                                      buf = map (\<lambda>_. 0) (buf (eps i e))\<rparr>
                                else eps i e),
                    lmp_delivered := (\<lambda>d. if inside (unat d) then 0 else lmp_delivered i d),
                    lmp_hint := (\<lambda>d. if inside (unat d) then 0 else lmp_hint i d),
                    kern := k\<lparr>dcbs := (\<lambda>d. if inside d then dcb0 else dcbs k d),
                              kcbs := (\<lambda>c. if inside c then kcb0 else kcbs k c)\<rparr>\<rparr>\<rparr>)"

section \<open>Creating capabilities\<close>

definition set_cap :: "addr \<Rightarrow> capability \<Rightarrow> caps \<Rightarrow> errval \<times> caps" where
  "set_cap dest src s =
     (if cap_type (cap_of s dest) \<noteq> ObjType_Null then (SYS_ERR_SLOT_IN_USE, s)
      else (SYS_ERR_OK, upd_slot dest (\<lambda>c. c\<lparr>cap := src\<rparr>) s))"

text \<open>A shift of a 64-bit one; shifting by 64 or more is undefined.\<close>

definition shl1 :: "nat \<Rightarrow> u64 option" where
  "shl1 n = (if n < 64 then Some (2 ^ n) else None)"

definition caps_numobjs :: "nat \<Rightarrow> u8 \<Rightarrow> u8 \<Rightarrow> u64 option" where
  "caps_numobjs ty bits objbits =
     (let b = unat bits; ob = unat objbits
      in if ty \<in> {ObjType_PhysAddr, ObjType_RAM, ObjType_Frame, ObjType_DevFrame} then
           if ob > b then Some 0 else shl1 (b - ob)
         else if ty = ObjType_CNode then
           if b < OBJBITS_CTE \<or> ob > b - OBJBITS_CTE then Some 0 else shl1 (b - OBJBITS_CTE - ob)
         else if type_is_vnode ty then do {
           v \<leftarrow> vnode_objbits ty;
           if b < v then Some 0 else shl1 (b - v)
         }
         else if ty = ObjType_Dispatcher then
           if b < OBJBITS_DISPATCHER then Some 0 else shl1 (b - OBJBITS_DISPATCHER)
         else if ty = ObjType_KernelControlBlock then
           if b < OBJBITS_KCB then Some 0 else shl1 (b - OBJBITS_KCB)
         else if ty \<in> {ObjType_Kernel, ObjType_IRQTable, ObjType_IO, ObjType_EndPoint, ObjType_ID, ObjType_Notify_RCK,
                       ObjType_Notify_IPI, ObjType_PerfMon, ObjType_IPI} \<or> type_is_mapping ty then Some 1
         else None)"

text \<open>The kernel address of physical memory, 0 if the kernel cannot address it.\<close>

definition kernel_address :: "caps_env \<Rightarrow> u64 \<Rightarrow> u64" where
  "kernel_address e lpaddr = (if lpaddr < PADDR_SPACE_LIMIT e then local_phys_to_mem e lpaddr else 0)"

definition zero_frame :: "caps_env \<Rightarrow> u64 \<Rightarrow> u8 \<Rightarrow> caps \<Rightarrow> caps option" where
  "zero_frame e lpaddr bits s = do {
     sz \<leftarrow> shl1 (unat bits);
     Some (if lpaddr + sz < PADDR_SPACE_LIMIT e then zero_mem (kernel_address e lpaddr) (unat sz) s else s)
   }"

definition zero_object :: "caps_env \<Rightarrow> u64 \<Rightarrow> u8 \<Rightarrow> caps \<Rightarrow> caps option" where
  "zero_object e lpaddr bits s = do { sz \<leftarrow> shl1 (unat bits); Some (zero_mem (kernel_address e lpaddr) (unat sz) s) }"

definition caps_init_objects :: "caps_env \<Rightarrow> nat \<Rightarrow> u64 \<Rightarrow> u8 \<Rightarrow> caps \<Rightarrow> caps option" where
  "caps_init_objects e ty lpaddr bits s =
     (if ty = ObjType_Frame then zero_frame e lpaddr bits s
      else if ty = ObjType_CNode \<or> type_is_vnode ty \<or> ty = ObjType_Dispatcher \<or> ty = ObjType_KernelControlBlock
      then zero_object e lpaddr bits s
      else Some s)"

text \<open>
  The loops of \<^verbatim>\<open>caps_create\<close> set the fields of object \<open>i\<close> and put the capability into the slot at index \<open>i\<close>; the result
  has the error and the index at which the loop stopped.
\<close>

fun create_from :: "(nat \<Rightarrow> string \<Rightarrow> u64) \<Rightarrow> capability \<Rightarrow> addr \<Rightarrow> nat \<Rightarrow> nat \<Rightarrow> caps \<Rightarrow> errval \<times> nat \<times> caps" where
  "create_from u src dest_caps i 0 s = (SYS_ERR_OK, i, s)"
| "create_from u src dest_caps i (Suc n) s =
     (let (err, s) = set_cap (dest_caps + i * cte_size) (src\<lparr>cap_u := u i\<rparr>) s
      in if err_is_fail err then (err, i, s) else create_from u src dest_caps (Suc i) n s)"

definition fields :: "(string \<times> u64) list \<Rightarrow> string \<Rightarrow> u64" where
  "fields ps n = (case map_of ps n of Some v \<Rightarrow> v | None \<Rightarrow> 0)"

text \<open>The type-specific fields of the object at an index.  The cases of the page table types differ in nothing else.\<close>

definition vnode_fields :: "nat \<Rightarrow> u64 \<Rightarrow> nat \<Rightarrow> (string \<Rightarrow> u64) option" where
  "vnode_fields ty genpaddr i = do {
     objbits_vnode \<leftarrow> vnode_objbits ty;
     Some (fields [(''base'', genpaddr + of_nat i * 2 ^ objbits_vnode)])
   }"

definition object_fields :: "caps_env \<Rightarrow> nat \<Rightarrow> u64 \<Rightarrow> u8 \<Rightarrow> nat \<Rightarrow> (string \<Rightarrow> u64) option" where
  "object_fields e ty lpaddr objbits i =
     (if ty \<in> {ObjType_Frame, ObjType_PhysAddr, ObjType_RAM, ObjType_DevFrame} then do {
        sz \<leftarrow> shl1 (unat objbits);
        Some (fields [(''base'', lpaddr + of_nat i * sz), (''bits'', ucast objbits)])
      }
      else if ty = ObjType_CNode then do {
        sz \<leftarrow> shl1 (unat objbits + OBJBITS_CTE);
        Some (fields [(''cnode'', lpaddr + of_nat i * sz), (''bits'', ucast objbits), (''rightsmask'', ucast CAPRIGHTS_ALLRIGHTS)])
      }
      else if type_is_vnode ty then vnode_fields ty lpaddr i
      else if ty = ObjType_Dispatcher then
        Some (fields [(''dcb'', kernel_address e lpaddr + of_nat i * 2 ^ OBJBITS_DISPATCHER)])
      else if ty = ObjType_KernelControlBlock then
        Some (fields [(''kcb'', kernel_address e lpaddr + of_nat i * 2 ^ OBJBITS_KCB)])
      else None)"

fun set_owner :: "u8 \<Rightarrow> addr \<Rightarrow> nat \<Rightarrow> caps \<Rightarrow> caps" where
  "set_owner own dest_caps 0 s = s"
| "set_owner own dest_caps (Suc i) s = upd_slot (dest_caps + i * cte_size) (\<lambda>c. c\<lparr>owner := own\<rparr>) (set_owner own dest_caps i s)"

fun zero_slots :: "addr \<Rightarrow> nat \<Rightarrow> caps \<Rightarrow> caps" where
  "zero_slots dest_caps 0 s = s"
| "zero_slots dest_caps (Suc i) s = zero_slot (dest_caps + i * cte_size) (zero_slots dest_caps i s)"

text \<open>
  The cases of the switch of \<^verbatim>\<open>caps_create\<close>: the error and the number of slots counted as created.  For an identifier
  the count stays 0.
\<close>

definition create_id :: "caps_env \<Rightarrow> u64 \<Rightarrow> u8 \<Rightarrow> u8 \<Rightarrow> nat \<Rightarrow> addr \<Rightarrow> capability \<Rightarrow> caps \<Rightarrow> (errval \<times> nat \<times> caps) option" where
  "create_id e lpaddr bits objbits numobjs dest_caps src s = do {
     assert_that (lpaddr = 0 \<and> bits = 0 \<and> objbits = 0 \<and> numobjs = 1);
     if id_cap_counter s \<ge> 2 ^ 32 - 1 then Some (SYS_ERR_ID_SPACE_EXHAUSTED, 0, s)
     else
       let u = fields [(''coreid'', ucast (my_core_id e)), (''core_local_id'', ucast (id_cap_counter s))];
           (err, s) = set_cap dest_caps (src\<lparr>cap_u := u\<rparr>) (s\<lparr>id_cap_counter := id_cap_counter s + 1\<rparr>)
       in Some (err, 0, s)
   }"

definition create_objectless :: "nat \<Rightarrow> u64 \<Rightarrow> u8 \<Rightarrow> u8 \<Rightarrow> nat \<Rightarrow> addr \<Rightarrow> capability \<Rightarrow> caps \<Rightarrow> (errval \<times> nat \<times> caps) option" where
  "create_objectless ty lpaddr bits objbits numobjs dest_caps src s = do {
     assert_that (lpaddr = 0 \<and> bits = 0 \<and> objbits = 0 \<and> numobjs = 1);
     let u = (if ty = ObjType_IO then fields [(''start'', 0), (''end'', 65535)] else fields []);
     let (err, s) = set_cap dest_caps (src\<lparr>cap_u := u\<rparr>) s;
     Some (err, if err_is_ok err then 1 else 0, s)
   }"

definition create_caps :: "caps_env \<Rightarrow> nat \<Rightarrow> u64 \<Rightarrow> u8 \<Rightarrow> u8 \<Rightarrow> nat \<Rightarrow> addr \<Rightarrow> capability \<Rightarrow> caps \<Rightarrow> (errval \<times> nat \<times> caps) option" where
  "create_caps e ty lpaddr bits objbits numobjs dest_caps src s =
     (if ty \<in> {ObjType_Frame, ObjType_PhysAddr, ObjType_RAM, ObjType_DevFrame, ObjType_CNode, ObjType_Dispatcher} \<or> type_is_vnode ty
      then do {
        s \<leftarrow> (if ty = ObjType_Frame then zero_frame e lpaddr bits s
              else if ty \<in> {ObjType_PhysAddr, ObjType_RAM, ObjType_DevFrame} then Some s
              else zero_object e lpaddr bits s);
        _ \<leftarrow> object_fields e ty lpaddr objbits 0;
        Some (create_from (\<lambda>i. the (object_fields e ty lpaddr objbits i)) src dest_caps 0 numobjs s)
      }
      else if ty = ObjType_ID then create_id e lpaddr bits objbits numobjs dest_caps src s
      else if ty \<in> {ObjType_IO, ObjType_Kernel, ObjType_IPI, ObjType_IRQTable, ObjType_EndPoint, ObjType_Notify_RCK,
                    ObjType_Notify_IPI, ObjType_PerfMon}
      then create_objectless ty lpaddr bits objbits numobjs dest_caps src s
      else None)"

text \<open>Capabilities to kernel control blocks are created on a path of their own, which returns early.\<close>

definition create_kcbs :: "caps_env \<Rightarrow> u64 \<Rightarrow> u8 \<Rightarrow> nat \<Rightarrow> addr \<Rightarrow> capability \<Rightarrow> caps \<Rightarrow> errval \<times> caps" where
  "create_kcbs e lpaddr objbits numobjs dest_caps src s =
     (let (err, _, s) = create_from (\<lambda>i. the (object_fields e ObjType_KernelControlBlock lpaddr objbits i)) src dest_caps 0 numobjs s
      in (err, s))"

definition caps_create ::
  "caps_env \<Rightarrow> nat \<Rightarrow> u64 \<Rightarrow> u8 \<Rightarrow> u8 \<Rightarrow> nat \<Rightarrow> u8 \<Rightarrow> addr \<Rightarrow> caps \<Rightarrow> (errval \<times> caps) option"
where
  "caps_create e ty lpaddr bits objbits numobjs own dest_caps s = do {
     assert_that (ty \<noteq> ObjType_Null);
     assert_that (ty < 44);
     assert_that (numobjs > 0);
     assert_that (\<not> type_is_mapping ty);
     let src_cap = \<lparr>cap_type = ty, cap_rights = CAPRIGHTS_ALLRIGHTS, cap_u = (\<lambda>_. 0)\<rparr>;
     s \<leftarrow> (if own = my_core_id e then caps_init_objects e ty lpaddr bits s else Some s);
     if ty = ObjType_KernelControlBlock then Some (create_kcbs e lpaddr objbits numobjs dest_caps src_cap s)
     else do {
       (err, dest_i, s) \<leftarrow> create_caps e ty lpaddr bits objbits numobjs dest_caps src_cap s;
       if err_is_fail err then Some (err, zero_slots dest_caps dest_i s)
       else Some (SYS_ERR_OK, set_owner own dest_caps dest_i s)
     }
   }"

definition caps_create_new ::
  "caps_env \<Rightarrow> nat \<Rightarrow> u64 \<Rightarrow> u8 \<Rightarrow> u8 \<Rightarrow> u8 \<Rightarrow> addr \<Rightarrow> caps \<Rightarrow> (errval \<times> caps) option"
where
  "caps_create_new e ty lpaddr bits objbits own dest_caps s = do {
     assert_that (ty \<noteq> ObjType_EndPoint);
     numobjs \<leftarrow> caps_numobjs ty bits objbits;
     assert_that (numobjs > 0);
     (err, s) \<leftarrow> caps_create e ty lpaddr bits objbits (unat numobjs) own dest_caps s;
     if err_is_fail err then Some (err, s)
     else do {
       d \<leftarrow> set_init_mapping (preds e) dest_caps (unat numobjs) (db s);
       Some (SYS_ERR_OK, s\<lparr>db := d\<rparr>)
     }
   }"

section \<open>Capability space\<close>

text \<open>The fields of a capability to a node of the capability space.\<close>

abbreviation cnode_addr :: "capability \<Rightarrow> u64" where "cnode_addr c \<equiv> cap_u c ''cnode''"
abbreviation cnode_bits :: "capability \<Rightarrow> u8" where "cnode_bits c \<equiv> ucast (cap_u c ''bits'')"
abbreviation cnode_guard :: "capability \<Rightarrow> u32" where "cnode_guard c \<equiv> ucast (cap_u c ''guard'')"
abbreviation cnode_guard_size :: "capability \<Rightarrow> u8" where "cnode_guard_size c \<equiv> ucast (cap_u c ''guard_size'')"

definition caps_locate_slot :: "caps_env \<Rightarrow> u64 \<Rightarrow> u32 \<Rightarrow> addr" where
  "caps_locate_slot e cnode offset = unat (local_phys_to_mem e cnode + 2 ^ OBJBITS_CTE * ucast offset)"

text \<open>
  The field of \<open>n\<close> bits of an address that ends \<open>k\<close> bits above its end; a shift of a 32-bit address by 32 bits or more,
  or by a negative number, is undefined.
\<close>

definition addr_field :: "u32 \<Rightarrow> int \<Rightarrow> nat \<Rightarrow> u64 option" where
  "addr_field cptr k n = (if 0 \<le> k \<and> k < 32 \<and> n < 64 then Some (ucast (drop_bit (nat k) cptr) AND (2 ^ n - 1)) else None)"

partial_function (option) caps_lookup_slot :: "caps_env \<Rightarrow> capability \<Rightarrow> u32 \<Rightarrow> u8 \<Rightarrow> u8 \<Rightarrow> caps \<Rightarrow> (errval \<times> ptr) option" where
  "caps_lookup_slot e cnode_cap cptr vbits rights s =
     (if cap_type cnode_cap \<noteq> ObjType_CNode then Some (SYS_ERR_CNODE_TYPE, None)
      else if cap_rights cnode_cap AND rights \<noteq> rights then Some (SYS_ERR_CNODE_RIGHTS, None)
      else do {
        let bits_resolved = cnode_bits cnode_cap + cnode_guard_size cnode_cap;
        assert_that (bits_resolved > 0);
        if bits_resolved > vbits then Some (SYS_ERR_DEPTH_EXCEEDED, None)
        else do {
          cptr_guard \<leftarrow> addr_field cptr (int (unat vbits) - int (unat (cnode_guard_size cnode_cap))) (unat (cnode_guard_size cnode_cap));
          if cptr_guard \<noteq> ucast (cnode_guard cnode_cap) then Some (SYS_ERR_GUARD_MISMATCH, None)
          else do {
            offset \<leftarrow> addr_field cptr (int (unat vbits) - int (unat bits_resolved)) (unat (cnode_bits cnode_cap));
            let next_slot = caps_locate_slot e (cnode_addr cnode_cap) (ucast offset);
            let bitsleft = vbits - bits_resolved;
            if cap_type (cap_of s next_slot) = ObjType_Null then Some (SYS_ERR_CAP_NOT_FOUND, None)
            else if bitsleft = 0 then Some (SYS_ERR_OK, Some next_slot)
            else if cap_type (cap_of s next_slot) \<noteq> ObjType_CNode then Some (SYS_ERR_OK, Some next_slot)
            else caps_lookup_slot e (cap_of s next_slot) cptr bitsleft rights s
          }
        }
      })"

text \<open>A pointer to the capability in a slot is the slot.\<close>

definition caps_lookup_cap :: "caps_env \<Rightarrow> capability \<Rightarrow> u32 \<Rightarrow> u8 \<Rightarrow> u8 \<Rightarrow> caps \<Rightarrow> (errval \<times> ptr) option" where
  "caps_lookup_cap e cnode_cap cptr vbits rights s = do {
     (err, ret_cte) \<leftarrow> caps_lookup_slot e cnode_cap cptr vbits rights s;
     if err_is_fail err then Some (err, None) else Some (SYS_ERR_OK, ret_cte)
   }"

section \<open>Copies\<close>

definition lift_db :: "(capability mdb \<Rightarrow> ('a \<times> capability mdb) option) \<Rightarrow> caps \<Rightarrow> ('a \<times> caps) option" where
  "lift_db f s = do { (x, d) \<leftarrow> f (db s); Some (x, s\<lparr>db := d\<rparr>) }"

definition mint_params :: "capability \<Rightarrow> u64 \<Rightarrow> u64 \<Rightarrow> capability \<Rightarrow> errval \<times> capability" where
  "mint_params src_cap param1 param2 dest_cap =
     (if cap_type src_cap = ObjType_CNode then
        if param2 > 32 then (SYS_ERR_GUARD_SIZE_OVERFLOW, dest_cap)
        else (SYS_ERR_OK, dest_cap\<lparr>cap_u := (cap_u dest_cap)(''guard'' := ucast (ucast param1 :: u32), ''guard_size'' := ucast (ucast param2 :: u8))\<rparr>)
      else if cap_type src_cap = ObjType_EndPoint then
        if param2 < LMP_RECV_HEADER_LENGTH then (SYS_ERR_INVALID_EPLEN, dest_cap)
        else (SYS_ERR_OK, dest_cap\<lparr>cap_u := (cap_u dest_cap)(''epoffset'' := param1, ''epbuflen'' := ucast (ucast param2 :: u32))\<rparr>)
      else if cap_type src_cap = ObjType_IO then
        let u = cap_u dest_cap;
            u = (if cap_u src_cap ''start'' \<le> param1 then u(''start'' := ucast (ucast param1 :: u16)) else u);
            u = (if cap_u src_cap ''end'' \<ge> param2 then u(''end'' := ucast (ucast param2 :: u16)) else u)
        in (SYS_ERR_OK, dest_cap\<lparr>cap_u := u\<rparr>)
      else (SYS_ERR_INVALID_SOURCE_TYPE, dest_cap))"

text \<open>The error of \<^verbatim>\<open>mdb_insert\<close> is dropped.\<close>

definition caps_copy_to_cte :: "caps_env \<Rightarrow> addr \<Rightarrow> addr \<Rightarrow> bool \<Rightarrow> u64 \<Rightarrow> u64 \<Rightarrow> caps \<Rightarrow> (errval \<times> caps) option" where
  "caps_copy_to_cte e dest_cte src_cte mint param1 param2 s =
     (let src_cap = cap_of s src_cte
      in if cap_type src_cap = ObjType_Null then Some (SYS_ERR_CAP_NOT_FOUND, s)
         else do {
           assert_that (mint \<or> param1 = 0 \<and> param2 = 0);
           assert_that (\<not> in_delete (cte_at s src_cte));
           let (err, s) = set_cap dest_cte src_cap s;
           if err_is_fail err then Some (err, s)
           else do {
             let src = cte_at s src_cte;
             let s = upd_slot dest_cte (\<lambda>c. c\<lparr>owner := owner src, locked := locked src, remote_copies := remote_copies src,
                                               remote_ancs := remote_ancs src, remote_descs := remote_descs src\<rparr>) s;
             let (err, dest_cap) = (if mint then mint_params src_cap param1 param2 (cap_of s dest_cte) else (SYS_ERR_OK, cap_of s dest_cte));
             if err_is_fail err then Some (err, s)
             else do {
               (_, s) \<leftarrow> lift_db (mdb_insert (preds e) dest_cte) (upd_slot dest_cte (\<lambda>c. c\<lparr>cap := dest_cap\<rparr>) s);
               Some (SYS_ERR_OK, s)
             }
           }
         })"

definition caps_copy_to_cnode :: "caps_env \<Rightarrow> addr \<Rightarrow> u32 \<Rightarrow> addr \<Rightarrow> bool \<Rightarrow> u64 \<Rightarrow> u64 \<Rightarrow> caps \<Rightarrow> (errval \<times> caps) option" where
  "caps_copy_to_cnode e dest_cnode_cte dest_slot src_cte mint param1 param2 s = do {
     assert_that (cap_type (cap_of s dest_cnode_cte) = ObjType_CNode);
     let dest_cte = caps_locate_slot e (cnode_addr (cap_of s dest_cnode_cte)) dest_slot;
     caps_copy_to_cte e dest_cte src_cte mint param1 param2 s
   }"

text \<open>
  A capability received from another core takes the attributes of a local copy if there is one.  The capability given has
  no slot of its own; in comparisons without a tie-break its address does not matter.
\<close>

definition copy_neighbour :: "caps_env \<Rightarrow> addr \<Rightarrow> capability mdb \<Rightarrow> ptr option" where
  "copy_neighbour e dest d = do {
     p \<leftarrow> mdb_predecessor (preds e) d dest;
     let n = (case p of Some a \<Rightarrow> if is_copy (preds e) (cte_cap d dest) (cte_cap d a) then Some a else None | None \<Rightarrow> None);
     if n \<noteq> None then Some n
     else do {
       p \<leftarrow> mdb_successor (preds e) d dest;
       Some (case p of Some a \<Rightarrow> if is_copy (preds e) (cte_cap d dest) (cte_cap d a) then Some a else None | None \<Rightarrow> None)
     }
   }"

definition caps_create_from_existing ::
  "caps_env \<Rightarrow> capability \<Rightarrow> u32 \<Rightarrow> u8 \<Rightarrow> u32 \<Rightarrow> u8 \<Rightarrow> capability \<Rightarrow> caps \<Rightarrow> (errval \<times> caps) option"
where
  "caps_create_from_existing e root cnode_cptr cnode_vbits dest_slot own src s = do {
     (err, p) \<leftarrow> caps_lookup_cap e root cnode_cptr cnode_vbits CAPRIGHTS_READ_WRITE s;
     if err_is_fail err then Some (err_push err SYS_ERR_SLOT_LOOKUP_FAIL, s)
     else do {
       cnode \<leftarrow> p;
       if cap_type (cap_of s cnode) \<noteq> ObjType_CNode then Some (SYS_ERR_CNODE_TYPE, s)
       else do {
         let dest = caps_locate_slot e (cnode_addr (cap_of s cnode)) dest_slot;
         let (err, s) = set_cap dest src s;
         if err_is_fail err then Some (err, s)
         else do {
           (err, s) \<leftarrow> lift_db (mdb_insert (preds e) dest) (upd_slot dest (\<lambda>c. c\<lparr>owner := own\<rparr>) s);
           assert_that (err_is_ok err);
           neighbour \<leftarrow> copy_neighbour e dest (db s);
           case neighbour of
             Some n \<Rightarrow> do {
               assert_that (\<not> in_delete (cte_at s n));
               assert_that (owner (cte_at s n) = own);
               let nb = cte_at s n;
               Some (SYS_ERR_OK, upd_slot dest (\<lambda>c. c\<lparr>locked := locked nb, remote_copies := remote_copies nb,
                 remote_ancs := remote_ancs nb, remote_descs := remote_descs nb\<rparr>) s)
             }
           | None \<Rightarrow>
               Some (SYS_ERR_OK, upd_slot dest (\<lambda>c. c\<lparr>locked := False,
                 remote_copies := (own \<noteq> my_core_id e),
                 remote_ancs := (own = my_core_id e \<and> distcap_needs_locality (cap_type (cap c))),
                 remote_descs := False\<rparr>) s)
         }
       }
     }
   }"

section \<open>Retyping\<close>

definition is_retypeable :: "caps_env \<Rightarrow> addr \<Rightarrow> nat \<Rightarrow> nat \<Rightarrow> bool \<Rightarrow> caps \<Rightarrow> errval option" where
  "is_retypeable e src_cte src_type dest_type from_monitor s =
     (if \<not> is_well_founded (preds e) src_type dest_type then Some SYS_ERR_INVALID_RETYPE
      else do {
        desc \<leftarrow> has_descendants (preds e) (db s) src_cte;
        Some (if \<not> is_revoked_first caps_hl desc src_type then SYS_ERR_REVOKE_FIRST
              else if dest_type = ObjType_EndPoint \<and> owner (cte_at s src_cte) = my_core_id e then SYS_ERR_OK
              else if \<not> from_monitor \<and> (owner (cte_at s src_cte) \<noteq> my_core_id e \<or> remote_descs (cte_at s src_cte))
              then SYS_ERR_RETRY_THROUGH_MONITOR
              else SYS_ERR_OK)
      })"

text \<open>The region of the source; other types do not get here.\<close>

definition retype_region :: "capability \<Rightarrow> (u64 \<times> u8) option" where
  "retype_region c =
     (if cap_type c \<in> {ObjType_PhysAddr, ObjType_RAM, ObjType_Frame, ObjType_DevFrame} then Some (cap_u c ''base'', ucast (cap_u c ''bits''))
      else if cap_type c = ObjType_Dispatcher then Some (0, 0)
      else None)"

fun slots_empty :: "caps_env \<Rightarrow> u64 \<Rightarrow> u32 \<Rightarrow> nat \<Rightarrow> caps \<Rightarrow> bool" where
  "slots_empty e cnode dest_slot 0 s = True"
| "slots_empty e cnode dest_slot (Suc i) s =
     (slots_empty e cnode dest_slot i s \<and>
      cap_type (cap_of s (caps_locate_slot e cnode (dest_slot + of_nat i))) = ObjType_Null)"

text \<open>The loop that inserts the new capabilities into the database is that of \<^verbatim>\<open>set_init_mapping\<close>.\<close>

definition caps_retype ::
  "caps_env \<Rightarrow> nat \<Rightarrow> u8 \<Rightarrow> capability \<Rightarrow> u32 \<Rightarrow> addr \<Rightarrow> bool \<Rightarrow> caps \<Rightarrow> (errval \<times> caps) option"
where
  "caps_retype e ty objbits dest_cnode dest_slot src_cte from_monitor s = do {
     assert_that (ty \<noteq> ObjType_Null);
     assert_that (ty < 44);
     let src_cap = cap_of s src_cte;
     if type_is_mapping ty then Some (SYS_ERR_RETYPE_MAPPING_EXPLICIT, s)
     else do {
       err \<leftarrow> is_retypeable e src_cte (cap_type src_cap) ty from_monitor s;
       if err_is_fail err then Some (err, s)
       else do {
         (base, bits) \<leftarrow> retype_region src_cap;
         numobjs \<leftarrow> caps_numobjs ty bits objbits;
         if numobjs = 0 then Some (SYS_ERR_INVALID_SIZE_BITS, s)
         else do {
           limit \<leftarrow> shl1 (unat (cnode_bits dest_cnode));
           if ucast dest_slot + numobjs > limit then Some (SYS_ERR_SLOTS_INVALID, s)
           else if \<not> slots_empty e (cnode_addr dest_cnode) dest_slot (unat numobjs) s then Some (SYS_ERR_SLOTS_IN_USE, s)
           else do {
             let dest_cte = caps_locate_slot e (cnode_addr dest_cnode) dest_slot;
             (err, s) \<leftarrow> caps_create e ty base bits objbits (unat numobjs) (my_core_id e) dest_cte s;
             if err_is_fail err then Some (err_push err SYS_ERR_RETYPE_CREATE, s)
             else do {
               s \<leftarrow> (if ty = ObjType_EndPoint then do {
                   assert_that (cap_type src_cap = ObjType_Dispatcher);
                   assert_that (numobjs = 1);
                   Some (upd_slot dest_cte (\<lambda>c. c\<lparr>cap := (cap c)\<lparr>cap_u := (cap_u (cap c))(''listener'' := cap_u src_cap ''dcb'')\<rparr>\<rparr>) s)
                 } else Some s);
               d \<leftarrow> set_init_mapping (preds e) dest_cte (unat numobjs) (db s);
               Some (SYS_ERR_OK, s\<lparr>db := d\<rparr>)
             }
           }
         }
       }
     }
   }"

end
