(* ===== verification/Paging.thy ===== *)
theory Paging
  imports Caps
begin

text \<open>
  Page tables as the capability system sees them, kernel/paging_generic.c: the mapping capabilities that record where a
  frame or page table is mapped, the virtual address that an entry of a page table stands for, and the removal of
  entries.  The entries themselves and the translation buffers are hardware; the operations on them are recorded.
  Unmapping all mappings of a capability deletes capabilities and is modelled with deletion.
\<close>

unbundle bit_operations_syntax

section \<open>Definitions\<close>

text \<open>The 64-bit x86 architecture: the top level and the size of an entry.\<close>

definition is_root_pt :: "nat \<Rightarrow> bool" where
  "is_root_pt ty \<longleftrightarrow> ty = ObjType_VNode_x86_64_pml4"

definition get_pte_size :: u64 where
  "get_pte_size = 8"

abbreviation BASE_PAGE_BITS :: nat where "BASE_PAGE_BITS \<equiv> 12"

text \<open>The fields of a mapping; the frame is the address of the capability, which is the address of its slot.\<close>

abbreviation mapping_frame :: "capability \<Rightarrow> u64" where "mapping_frame c \<equiv> cap_u c ''frame''"
abbreviation mapping_pte :: "capability \<Rightarrow> u64" where "mapping_pte c \<equiv> cap_u c ''pte''"
abbreviation mapping_pte_count :: "capability \<Rightarrow> u16" where "mapping_pte_count c \<equiv> ucast (cap_u c ''pte_count'')"

definition is_mapping_of :: "capability mdb \<Rightarrow> addr \<Rightarrow> addr \<Rightarrow> bool" where
  "is_mapping_of d mem a \<longleftrightarrow>
     cap_type (cap (ctes d a)) = get_mapping_type (cap_type (cap (ctes d mem))) \<and> mapping_frame (cap (ctes d a)) = of_nat mem"

partial_function (option) find_mapping_from :: "caps_env \<Rightarrow> capability mdb \<Rightarrow> addr \<Rightarrow> u64 \<Rightarrow> addr \<Rightarrow> (errval \<times> ptr) option" where
  "find_mapping_from e d mem faddr pos = do {
     p \<leftarrow> mdb_successor (preds e) d pos;
     case p of
       None \<Rightarrow> Some (SYS_ERR_CAP_NOT_FOUND, None)
     | Some next \<Rightarrow>
         if get_address (preds e) (cap (ctes d next)) \<noteq> faddr then Some (SYS_ERR_CAP_NOT_FOUND, None)
         else if is_mapping_of d mem next then Some (SYS_ERR_OK, Some next)
         else find_mapping_from e d mem faddr next
   }"

definition find_mapping_for_cap :: "caps_env \<Rightarrow> capability mdb \<Rightarrow> addr \<Rightarrow> (errval \<times> ptr) option" where
  "find_mapping_for_cap e d a = find_mapping_from e d a (get_address (preds e) (cap (ctes d a))) a"

definition find_next_ptable :: "caps_env \<Rightarrow> capability mdb \<Rightarrow> addr \<Rightarrow> (errval \<times> ptr) option" where
  "find_next_ptable e d mapping_cte = do {
     (err, next) \<leftarrow> mdb_find_cap_for_address (preds e) ObjType_RAM d (mapping_pte (cap (ctes d mapping_cte)));
     if err = CAPS_ERR_CAP_NOT_FOUND \<or> err = SYS_ERR_CAP_NOT_FOUND then Some (SYS_ERR_VNODE_NOT_INSTALLED, next)
     else if err_is_fail err then Some (err, next)
     else do {
       n \<leftarrow> next;
       if \<not> type_is_vnode (cap_type (cap (ctes d n))) then Some (SYS_ERR_VNODE_LOOKUP_NEXT, next)
       else Some (SYS_ERR_OK, next)
     }
   }"

definition get_offset :: "caps_env \<Rightarrow> capability mdb \<Rightarrow> addr \<Rightarrow> addr \<Rightarrow> u64" where
  "get_offset e d mapping next =
     (mapping_pte (cap (ctes d mapping)) - get_address (preds e) (cap (ctes d next))) div get_pte_size"

definition create_mapping_cap :: "addr \<Rightarrow> addr \<Rightarrow> u64 \<Rightarrow> u64 \<Rightarrow> caps \<Rightarrow> caps option" where
  "create_mapping_cap mapping_cte frame pte pte_count s = do {
     assert_that (cap_type (cap_of s mapping_cte) = ObjType_Null);
     let ty = get_mapping_type (cap_type (cap_of s frame));
     Some (upd_slot mapping_cte (\<lambda>c. c\<lparr>cap := (cap c)\<lparr>cap_type := ty,
       cap_u := (cap_u (cap c))(''frame'' := of_nat frame, ''pte'' := pte, ''pte_count'' := ucast (ucast pte_count :: u16))\<rparr>\<rparr>) s)
   }"

text \<open>
  How far an entry index is shifted: the cases of the switch fall through to the next level, each adding the size of a table
  below.
\<close>

definition entry_shift :: "nat \<Rightarrow> nat option" where
  "entry_shift ty =
     (let below = (\<lambda>tys. BASE_PAGE_BITS + sum_list (map (\<lambda>t. the (vnode_objbits t)) tys))
      in if ty = ObjType_VNode_x86_64_pml4 then
           Some (below [ObjType_VNode_x86_64_pdpt, ObjType_VNode_x86_64_pdir, ObjType_VNode_x86_64_ptable])
         else if ty = ObjType_VNode_x86_64_pdpt then Some (below [ObjType_VNode_x86_64_pdir, ObjType_VNode_x86_64_ptable])
         else if ty = ObjType_VNode_x86_64_pdir then Some (below [ObjType_VNode_x86_64_ptable])
         else if ty = ObjType_VNode_x86_64_ptable then Some (below [])
         else if ty = ObjType_VNode_x86_32_pdpt then Some (below [ObjType_VNode_x86_32_pdir, ObjType_VNode_x86_32_ptable])
         else if ty = ObjType_VNode_x86_32_pdir then Some (below [ObjType_VNode_x86_32_ptable])
         else if ty = ObjType_VNode_x86_32_ptable then Some (below [])
         else if ty = ObjType_VNode_ARM_l2 then Some (below [ObjType_VNode_ARM_l1])
         else if ty = ObjType_VNode_ARM_l1 then Some (below [])
         else if ty = ObjType_VNode_AARCH64_l3 then Some (below [ObjType_VNode_AARCH64_l2, ObjType_VNode_AARCH64_l1])
         else if ty = ObjType_VNode_AARCH64_l2 then Some (below [ObjType_VNode_AARCH64_l1])
         else if ty = ObjType_VNode_AARCH64_l1 then Some (below [])
         else None)"

definition shl :: "u64 \<Rightarrow> nat \<Rightarrow> u64 option" where
  "shl x n = (if n < 64 then Some (push_bit n x) else None)"

text \<open>The walk up to the root page table; without the option \<^verbatim>\<open>CONFIG_PAE\<close>.\<close>

partial_function (option) vaddr_from :: "caps_env \<Rightarrow> capability mdb \<Rightarrow> addr \<Rightarrow> nat \<Rightarrow> u64 \<Rightarrow> (errval \<times> u64) option" where
  "vaddr_from e d old shift vaddr =
     (if is_root_pt (cap_type (cap (ctes d old))) then Some (SYS_ERR_OK, vaddr)
      else do {
        (err, m) \<leftarrow> find_mapping_for_cap e d old;
        if err_is_fail err then Some (SYS_ERR_VNODE_NOT_INSTALLED, 0)
        else do {
          mapping \<leftarrow> m;
          (err, n) \<leftarrow> find_next_ptable e d mapping;
          if err = SYS_ERR_VNODE_NOT_INSTALLED then Some (SYS_ERR_VNODE_NOT_INSTALLED, 0)
          else if err_is_fail err then Some (err, vaddr)
          else do {
            next \<leftarrow> n;
            let offset = get_offset e d mapping next;
            bits \<leftarrow> vnode_entry_bits False (cap_type (cap (ctes d old)));
            let shift = shift + bits;
            size \<leftarrow> vnode_objbits (cap_type (cap (ctes d next)));
            v \<leftarrow> shl (offset AND (2 ^ size - 1)) shift;
            vaddr_from e d next shift (vaddr OR v)
          }
        }
      })"

definition compile_vaddr :: "caps_env \<Rightarrow> capability mdb \<Rightarrow> addr \<Rightarrow> u64 \<Rightarrow> (errval \<times> u64) option" where
  "compile_vaddr e d ptable entry =
     (if \<not> type_is_vnode (cap_type (cap (ctes d ptable))) then Some (SYS_ERR_VNODE_TYPE, 0)
      else
        case entry_shift (cap_type (cap (ctes d ptable))) of
          None \<Rightarrow> Some (SYS_ERR_VNODE_TYPE, 0)
        | Some shift \<Rightarrow> do {
            size \<leftarrow> vnode_objbits (cap_type (cap (ctes d ptable)));
            vaddr \<leftarrow> shl (entry AND (2 ^ size - 1)) shift;
            vaddr_from e d ptable shift vaddr
          })"

text \<open>
  The virtual address is a local variable that \<^verbatim>\<open>compile_vaddr\<close> leaves unset when it fails early; the value 0 above stands for
  that as well.  Neither case is read: other errors are returned at once.
\<close>

definition log_hw :: "hw_op \<Rightarrow> caps \<Rightarrow> caps" where
  "log_hw op s = s\<lparr>hw := op # hw s\<rparr>"

definition page_mappings_unmap :: "caps_env \<Rightarrow> addr \<Rightarrow> addr \<Rightarrow> caps \<Rightarrow> (errval \<times> caps) option" where
  "page_mappings_unmap e pgtable mapping s = do {
     assert_that (type_is_vnode (cap_type (cap_of s pgtable)));
     assert_that (type_is_mapping (cap_type (cap_of s mapping)));
     let info = cap_of s mapping;
     let pt = local_phys_to_mem e (get_address (preds e) (cap_of s pgtable));
     let slot = ucast ((local_phys_to_mem e (mapping_pte info) - pt) div get_pte_size);
     (err, vaddr) \<leftarrow> compile_vaddr e (db s) pgtable (ucast slot);
     if err_is_fail err \<and> \<not> (err = SYS_ERR_VNODE_NOT_INSTALLED \<and> vaddr = 0) \<and> err \<noteq> SYS_ERR_VNODE_SLOT_INVALID then Some (err, s)
     else
       let s = log_hw (DoUnmap pt slot (mapping_pte_count info)) s
       in Some (SYS_ERR_OK,
            if err = SYS_ERR_VNODE_NOT_INSTALLED \<and> vaddr = 0 then s
            else if mapping_pte_count info > 1 \<or> err_is_fail err then log_hw FlushAll s
            else log_hw (FlushOne vaddr) s)
   }"

fun flush_pages :: "nat \<Rightarrow> u64 \<Rightarrow> u64 \<Rightarrow> caps \<Rightarrow> caps" where
  "flush_pages 0 vaddr page_size s = s"
| "flush_pages (Suc n) vaddr page_size s = flush_pages n (vaddr + page_size) page_size (log_hw (FlushOne vaddr) s)"

definition page_size_of :: "nat \<Rightarrow> u64 option" where
  "page_size_of ty =
     (if ty = ObjType_VNode_x86_64_ptable then Some (2 ^ 12)
      else if ty = ObjType_VNode_x86_64_pdir then Some (2 ^ 21)
      else if ty = ObjType_VNode_x86_64_pdpt then Some (2 ^ 30)
      else None)"

definition paging_tlb_flush_range :: "caps_env \<Rightarrow> addr \<Rightarrow> u64 \<Rightarrow> nat \<Rightarrow> caps \<Rightarrow> (errval \<times> caps) option" where
  "paging_tlb_flush_range e mapping_cte offset pages s = do {
     assert_that (type_is_mapping (cap_type (cap_of s mapping_cte)));
     let pte = mapping_pte (cap_of s mapping_cte);
     (err, p) \<leftarrow> mdb_find_cap_for_address (preds e) ObjType_RAM (db s) pte;
     if err_is_fail err then Some (err, s)
     else do {
       leaf_pt \<leftarrow> p;
       let entry = (pte - get_address (preds e) (cap_of s leaf_pt)) div get_pte_size + offset;
       (err, vaddr) \<leftarrow> compile_vaddr e (db s) leaf_pt entry;
       if err_is_fail err \<and> err \<noteq> SYS_ERR_VNODE_NOT_INSTALLED then Some (err, s)
       else do {
         page_size \<leftarrow> page_size_of (cap_type (cap_of s leaf_pt));
         assert_that (pages < 2 ^ 31);
         Some (SYS_ERR_OK, flush_pages pages vaddr page_size s)
       }
     }
   }"

end
