(* ===== verification/Cap_Delete.thy ===== *)
theory Cap_Delete
  imports Paging Wakeup
begin

text \<open>
  Deletion and revocation of capabilities, kernel/cap_delete.c, with the removal of mappings from kernel/paging_generic.c
  that it calls.  A capability is deleted at once if copies of it remain or if it is not a container; the last
  capability to a container is put on the delete list, whose elements are worked off in steps and move on to the clear list.
  Messages printed to the console are left out.
\<close>

unbundle bit_operations_syntax

section \<open>Deleting one capability\<close>

abbreviation RRELS_DESC_BIT :: u8 where "RRELS_DESC_BIT \<equiv> 4"

definition distcap_is_foreign :: "caps_env \<Rightarrow> caps \<Rightarrow> addr \<Rightarrow> bool" where
  "distcap_is_foreign e s a \<longleftrightarrow> owner (cte_at s a) \<noteq> my_core_id e"

definition distcap_is_in_delete :: "caps \<Rightarrow> addr \<Rightarrow> bool" where
  "distcap_is_in_delete s a \<longleftrightarrow> in_delete (cte_at s a)"

definition distcap_get_state :: "caps_env \<Rightarrow> caps \<Rightarrow> addr \<Rightarrow> u8" where
  "distcap_get_state e s a =
     (if owner (cte_at s a) \<noteq> my_core_id e then 1 else 0) OR (if locked (cte_at s a) \<or> in_delete (cte_at s a) then 2 else 0)"

definition is_mappable :: "nat \<Rightarrow> bool" where
  "is_mappable ty \<longleftrightarrow> type_is_vnode ty \<or> ty = ObjType_Frame \<or> ty = ObjType_DevFrame"

text \<open>
  Cleaning up a copy removes its mappings, which deletes the capabilities of these; mappings have no mappings themselves.  The
  recursion is therefore unrolled: \<open>unmap\<close> is the function called for capabilities that can be mapped.
\<close>

definition cleanup_copy_with ::
  "(addr \<Rightarrow> caps \<Rightarrow> caps option) \<Rightarrow> caps_env \<Rightarrow> addr \<Rightarrow> caps \<Rightarrow> (errval \<times> caps) option"
where
  "cleanup_copy_with unmap e cte s = do {
     s \<leftarrow> (if is_mappable (cap_type (cap_of s cte)) then unmap cte s else Some s);
     s \<leftarrow> (if distcap_is_foreign e s cte \<and> (remote_copies (cte_at s cte) \<or> remote_descs (cte_at s cte)) then do {
         p \<leftarrow> mdb_find_ancestor (preds e) (db s) cte;
         case p of
           None \<Rightarrow> Some s
         | Some ancestor \<Rightarrow> do {
             d \<leftarrow> mdb_set_relations (preds e) ancestor RRELS_DESC_BIT RRELS_DESC_BIT (db s);
             Some (s\<lparr>db := d\<rparr>)
           }
       } else Some s);
     (err, s) \<leftarrow> lift_db (mdb_remove (preds e) cte) s;
     if err_is_fail err then Some (err, s)
     else do {
       r \<leftarrow> mdb_reachable (db s) cte;
       assert_that (\<not> r);
       Some (SYS_ERR_OK, zero_slot cte s)
     }
   }"

text \<open>The memory that becomes free with the last capability to it, if it is memory that can be given out again.\<close>

definition reclaimed_ram :: "caps_env \<Rightarrow> capability \<Rightarrow> u64 \<times> u8" where
  "reclaimed_ram e c =
     (if cap_type c = ObjType_RAM \<or> cap_type c = ObjType_Frame then (cap_u c ''base'', ucast (cap_u c ''bits''))
      else if cap_type c = ObjType_CNode then (cap_u c ''cnode'', ucast (cap_u c ''bits'') + of_nat OBJBITS_CTE)
      else if cap_type c = ObjType_Dispatcher then (mem_to_local_phys e (cap_u c ''dcb''), of_nat OBJBITS_DISPATCHER)
      else case vnode_objbits (cap_type c) of
             Some v \<Rightarrow> (get_address (preds e) c, of_nat v)
           | None \<Rightarrow> (0, 0))"

definition ram_cap :: "u64 \<times> u8 \<Rightarrow> capability \<Rightarrow> capability" where
  "ram_cap ram c = c\<lparr>cap_type := ObjType_RAM, cap_u := (cap_u c)(''base'' := fst ram, ''bits'' := ucast (snd ram), ''pasid'' := 0)\<rparr>"

definition deliver_to_monitor :: "caps_env \<Rightarrow> u64 list \<Rightarrow> caps \<Rightarrow> (errval \<times> caps) option" where
  "deliver_to_monitor e ws s = do {
     (err, i) \<leftarrow> lmp_deliver_payload (env_make_runnable e) (monitor_ep s) ws False (ipc s);
     Some (err, s\<lparr>ipc := i\<rparr>)
   }"

definition cleanup_last_with ::
  "(addr \<Rightarrow> caps \<Rightarrow> caps option) \<Rightarrow> caps_env \<Rightarrow> addr \<Rightarrow> ptr \<Rightarrow> caps \<Rightarrow> (errval \<times> caps) option"
where
  "cleanup_last_with unmap e cte ret_ram_cap s = do {
     copies \<leftarrow> has_copies (preds e) (db s) cte;
     assert_that (\<not> copies);
     if (case ret_ram_cap of Some r \<Rightarrow> cap_type (cap_of s r) \<noteq> ObjType_Null | None \<Rightarrow> False) then Some (SYS_ERR_SLOT_IN_USE, s)
     else do {
       desc \<leftarrow> has_descendants (preds e) (db s) cte;
       ancs \<leftarrow> (if desc then Some True else has_ancestors (preds e) (db s) cte);
       let ram = (if \<not> desc \<and> \<not> ancs then reclaimed_ram e (cap_of s cte) else (0, 0));
       full \<leftarrow> (if snd ram > 0 \<and> ret_ram_cap = None \<and> cap_type (monitor_ep s) = ObjType_EndPoint
                then map_option err_is_fail (lmp_can_deliver_payload (monitor_ep s) (of_nat (length (ram_words e ram))) (ipc s))
                else Some False);
       if full then Some (SYS_ERR_RETRY_THROUGH_MONITOR, s)
       else do {
         (err, s) \<leftarrow> cleanup_copy_with unmap e cte s;
         if err_is_fail err then Some (err, s)
         else if snd ram > 0 then do {
           (err, s) \<leftarrow> (case ret_ram_cap of
               Some r \<Rightarrow> do {
                 assert_that (cap_type (cap_of s r) = ObjType_Null);
                 (err, s) \<leftarrow> lift_db (mdb_insert (preds e) r) (upd_slot r (\<lambda>c. c\<lparr>cap := ram_cap ram (cap c)\<rparr>) s);
                 assert_that (err_is_ok err);
                 Some (SYS_ERR_RAM_CAP_CREATED, s)
               }
             | None \<Rightarrow>
                 if cap_type (monitor_ep s) \<noteq> ObjType_Null \<and> listener (monitor_ep s) \<noteq> 0 then deliver_to_monitor e (ram_words e ram) s
                 else Some (err, s));
           if err = SYS_ERR_LMP_BUF_OVERFLOW then Some (SYS_ERR_OK, s)
           else do { assert_that (err_is_ok err); Some (err, s) }
         }
         else Some (err, s)
       }
     }
   }"

definition caps_try_delete_with ::
  "(addr \<Rightarrow> caps \<Rightarrow> caps option) \<Rightarrow> caps_env \<Rightarrow> addr \<Rightarrow> caps \<Rightarrow> (errval \<times> caps) option"
where
  "caps_try_delete_with unmap e cte s =
     (if distcap_is_in_delete s cte \<or> locked (cte_at s cte) then Some (SYS_ERR_CAP_LOCKED, s)
      else do {
        copies \<leftarrow> (if distcap_is_foreign e s cte then Some True else has_copies (preds e) (db s) cte);
        if copies then cleanup_copy_with unmap e cte s
        else if remote_copies (cte_at s cte) \<or> cap_type (cap_of s cte) = ObjType_CNode \<or> cap_type (cap_of s cte) = ObjType_Dispatcher
        then Some (SYS_ERR_DELETE_LAST_OWNED, s)
        else cleanup_last_with unmap e cte None s
      })"

definition caps_delete_with ::
  "(addr \<Rightarrow> caps \<Rightarrow> caps option) \<Rightarrow> caps_env \<Rightarrow> addr \<Rightarrow> caps \<Rightarrow> (errval \<times> caps) option"
where
  "caps_delete_with unmap e cte s =
     (if locked (cte_at s cte) then Some (SYS_ERR_CAP_LOCKED, s)
      else do {
        (err, s) \<leftarrow> caps_try_delete_with unmap e cte s;
        Some (if err = SYS_ERR_DELETE_LAST_OWNED then err_push err SYS_ERR_RETRY_THROUGH_MONITOR else err, s)
      })"

section \<open>Removing mappings\<close>

text \<open>
  The first loop visits the slots behind \<open>mem\<close> that start at the same address, clears the page table entries of its mappings and
  links these through \<open>delete_node\<close>.  Its state holds the list, the number of mappings unmapped and what to flush.
\<close>

record unmap_state =
  um_to_delete :: ptr
  um_count :: nat
  um_vaddr :: u64
  um_single :: bool

definition unmap_one :: "caps_env \<Rightarrow> addr \<Rightarrow> unmap_state \<Rightarrow> caps \<Rightarrow> (unmap_state \<times> caps) option" where
  "unmap_one e next u s =
     (let mapping = cap_of s next
      in if mapping_pte mapping = 0 then Some (u, s)
         else do {
           (err, p) \<leftarrow> mdb_find_cap_for_address (preds e) ObjType_RAM (db s) (mapping_pte mapping);
           if err_is_fail err then Some (u, s)
           else do {
             pgtable \<leftarrow> p;
             let ptable_lp = get_address (preds e) (cap_of s pgtable);
             let ptable_lv = local_phys_to_mem e ptable_lp;
             let slot = ucast ((mapping_pte mapping - ptable_lp) div get_pte_size);
             let s = log_hw (DoUnmap ptable_lv slot (mapping_pte_count mapping)) s;
             let u = u\<lparr>um_count := um_count u + 1\<rparr>;
             if um_count u = 1 then do {
               (err, vaddr) \<leftarrow> compile_vaddr e (db s) pgtable (ucast slot);
               Some (u\<lparr>um_vaddr := vaddr, um_single := err_is_ok err \<and> mapping_pte_count mapping = 1\<rparr>, s)
             }
             else Some (u, s)
           }
         })"

partial_function (option) unmap_from :: "caps_env \<Rightarrow> addr \<Rightarrow> u64 \<Rightarrow> addr \<Rightarrow> unmap_state \<Rightarrow> caps \<Rightarrow> (unmap_state \<times> caps) option" where
  "unmap_from e mem faddr pos u s = do {
     p \<leftarrow> mdb_successor (preds e) (db s) pos;
     case p of
       None \<Rightarrow> Some (u, s)
     | Some next \<Rightarrow>
         if get_address (preds e) (cap_of s next) \<noteq> faddr then Some (u, s)
         else if is_mapping_of (db s) mem next then do {
           (u, s) \<leftarrow> unmap_one e next u s;
           assert_that (delete_node s next = None);
           let s = s\<lparr>delete_node := (delete_node s)(next := um_to_delete u)\<rparr>;
           unmap_from e mem faddr next (u\<lparr>um_to_delete := Some next\<rparr>) s
         }
         else unmap_from e mem faddr next u s
   }"

partial_function (option) delete_mappings :: "(addr \<Rightarrow> caps \<Rightarrow> (errval \<times> caps) option) \<Rightarrow> ptr \<Rightarrow> caps \<Rightarrow> caps option" where
  "delete_mappings delete to_delete s =
     (case to_delete of
        None \<Rightarrow> Some s
      | Some a \<Rightarrow> do {
          let next = delete_node s a;
          (_, s) \<leftarrow> delete a s;
          delete_mappings delete next s
        })"

definition unmap_capability_with ::
  "(addr \<Rightarrow> caps \<Rightarrow> (errval \<times> caps) option) \<Rightarrow> caps_env \<Rightarrow> addr \<Rightarrow> caps \<Rightarrow> caps option"
where
  "unmap_capability_with delete e mem s = do {
     (u, s) \<leftarrow> unmap_from e mem (get_address (preds e) (cap_of s mem)) mem
                  \<lparr>um_to_delete = None, um_count = 0, um_vaddr = 0, um_single = False\<rparr> s;
     s \<leftarrow> delete_mappings delete (um_to_delete u) s;
     Some (log_hw (if um_single u then FlushOne (um_vaddr u) else FlushAll) s)
   }"

text \<open>The innermost level is never reached, because a mapping cannot be mapped.\<close>

definition unmap_capability :: "caps_env \<Rightarrow> addr \<Rightarrow> caps \<Rightarrow> caps option" where
  "unmap_capability e = unmap_capability_with (caps_delete_with (\<lambda>_ _. None) e) e"

definition cleanup_copy :: "caps_env \<Rightarrow> addr \<Rightarrow> caps \<Rightarrow> (errval \<times> caps) option" where
  "cleanup_copy e = cleanup_copy_with (unmap_capability e) e"

definition cleanup_last :: "caps_env \<Rightarrow> addr \<Rightarrow> ptr \<Rightarrow> caps \<Rightarrow> (errval \<times> caps) option" where
  "cleanup_last e = cleanup_last_with (unmap_capability e) e"

definition caps_try_delete :: "caps_env \<Rightarrow> addr \<Rightarrow> caps \<Rightarrow> (errval \<times> caps) option" where
  "caps_try_delete e = caps_try_delete_with (unmap_capability e) e"

definition caps_delete :: "caps_env \<Rightarrow> addr \<Rightarrow> caps \<Rightarrow> (errval \<times> caps) option" where
  "caps_delete e = caps_delete_with (unmap_capability e) e"

definition caps_revoke :: "caps \<Rightarrow> addr \<Rightarrow> errval" where
  "caps_revoke s cte = (if locked (cte_at s cte) then SYS_ERR_CAP_LOCKED else SYS_ERR_RETRY_THROUGH_MONITOR)"

section \<open>Marking for revocation\<close>

definition caps_mark_revoke_copy :: "caps_env \<Rightarrow> addr \<Rightarrow> caps \<Rightarrow> caps option" where
  "caps_mark_revoke_copy e cte s = do {
     (err, s) \<leftarrow> caps_try_delete e cte s;
     if err_is_fail err then None else Some s
   }"

definition delete_list_append :: "addr \<Rightarrow> caps \<Rightarrow> caps option" where
  "delete_list_append cte s =
     (case delete_tail s of
        None \<Rightarrow> do {
          assert_that (delete_head s = None);
          Some (s\<lparr>delete_head := Some cte, delete_tail := Some cte, delete_node := (delete_node s)(cte := None)\<rparr>)
        }
      | Some tail \<Rightarrow> do {
          assert_that (delete_head s \<noteq> None);
          assert_that (delete_node s tail = None);
          Some (s\<lparr>delete_tail := Some cte, delete_node := (delete_node s)(tail := Some cte, cte := None)\<rparr>)
        })"

definition caps_mark_revoke_generic :: "caps_env \<Rightarrow> addr \<Rightarrow> caps \<Rightarrow> caps option" where
  "caps_mark_revoke_generic e cte s =
     (if cap_type (cap_of s cte) = ObjType_Null then Some s
      else if distcap_is_in_delete s cte then Some s
      else do {
        (err, s) \<leftarrow> caps_try_delete e cte s;
        if err = SYS_ERR_DELETE_LAST_OWNED then do {
          s \<leftarrow> delete_list_append cte (upd_slot cte (\<lambda>c. c\<lparr>in_delete := True\<rparr>) s);
          Some (upd_slot cte (\<lambda>c. c\<lparr>remote_copies := False\<rparr>) s)
        }
        else if err_is_fail err then None
        else Some s
      })"

text \<open>The address of a capability that is not in a slot does not matter in comparisons without a tie-break.\<close>

partial_function (option) delete_copies_behind :: "caps_env \<Rightarrow> addr \<Rightarrow> caps \<Rightarrow> caps option" where
  "delete_copies_behind e cte s = do {
     p \<leftarrow> mdb_successor (preds e) (db s) cte;
     case p of
       None \<Rightarrow> Some s
     | Some next \<Rightarrow>
         if is_copy (preds e) (cte_cap (db s) cte) (cte_cap (db s) next) then do {
           assert_that (owner (cte_at s next) \<noteq> my_core_id e);
           (err, s) \<leftarrow> cleanup_copy e next s;
           if err_is_fail err then None else delete_copies_behind e cte s
         }
         else Some s
   }"

definition caps_delete_foreigns :: "caps_env \<Rightarrow> addr \<Rightarrow> caps \<Rightarrow> (errval \<times> caps) option" where
  "caps_delete_foreigns e cte s =
     (if owner (cte_at s cte) = my_core_id e then Some (SYS_ERR_DELETE_REMOTE_LOCAL, s)
      else do {
        s \<leftarrow> delete_copies_behind e cte s;
        (err, s) \<leftarrow> caps_try_delete e cte (upd_slot cte (\<lambda>c. c\<lparr>locked := False\<rparr>) s);
        if err_is_fail err then None else Some (SYS_ERR_OK, s)
      })"

partial_function (option) revoke_copies :: "caps_env \<Rightarrow> capability \<Rightarrow> ptr \<Rightarrow> addr \<Rightarrow> caps \<Rightarrow> (addr \<times> caps) option" where
  "revoke_copies e base revoked prev s = do {
     p \<leftarrow> mdb_successor (preds e) (db s) prev;
     case p of
       None \<Rightarrow> Some (prev, s)
     | Some next \<Rightarrow>
         if is_copy (preds e) (base, 0) (cte_cap (db s) next) then do {
           let (next, prev) = (if Some next = revoked then (prev, next) else (next, prev));
           assert_that (revoked \<noteq> None \<or> owner (cte_at s next) \<noteq> my_core_id e);
           s \<leftarrow> caps_mark_revoke_copy e next s;
           revoke_copies e base revoked prev s
         }
         else Some (prev, s)
   }"

partial_function (option) revoke_descendants :: "caps_env \<Rightarrow> capability \<Rightarrow> addr \<Rightarrow> caps \<Rightarrow> (addr \<times> caps) option" where
  "revoke_descendants e base prev s = do {
     p \<leftarrow> mdb_successor (preds e) (db s) prev;
     case p of
       None \<Rightarrow> Some (prev, s)
     | Some next \<Rightarrow>
         if is_ancestor (preds e) (cap_of s next) base then do {
           s \<leftarrow> caps_mark_revoke_generic e next s;
           revoke_descendants e base (if cap_type (cap_of s next) \<noteq> ObjType_Null then next else prev) s
         }
         else Some (prev, s)
   }"

definition caps_mark_revoke :: "caps_env \<Rightarrow> capability \<Rightarrow> ptr \<Rightarrow> caps \<Rightarrow> (errval \<times> caps) option" where
  "caps_mark_revoke e base revoked s = do {
     assert_that (case revoked of None \<Rightarrow> True | Some r \<Rightarrow> owner (cte_at s r) = my_core_id e);
     p \<leftarrow> mdb_find_greater (preds e) (db s) (base, 0) True;
     case p of
       None \<Rightarrow> Some (SYS_ERR_CAP_NOT_FOUND, s)
     | Some prev \<Rightarrow>
         if \<not> (is_copy (preds e) (base, 0) (cte_cap (db s) prev) \<or> is_ancestor (preds e) (cap_of s prev) base)
         then Some (SYS_ERR_CAP_NOT_FOUND, s)
         else do {
           (prev, s) \<leftarrow> revoke_copies e base revoked prev s;
           (prev, s) \<leftarrow> revoke_descendants e base prev s;
           if Some prev \<noteq> revoked \<and> \<not> in_delete (cte_at s prev) then
             if is_copy (preds e) (base, 0) (cte_cap (db s) prev) then do {
               s \<leftarrow> caps_mark_revoke_copy e prev s;
               Some (SYS_ERR_OK, s)
             }
             else do {
               assert_that (is_ancestor (preds e) (cap_of s prev) base);
               s \<leftarrow> caps_mark_revoke_generic e prev s;
               Some (SYS_ERR_OK, s)
             }
           else Some (SYS_ERR_OK, s)
         }
   }"

section \<open>Working off the lists\<close>

definition clear_list_prepend :: "addr \<Rightarrow> caps \<Rightarrow> caps option" where
  "clear_list_prepend cte s = do {
     assert_that (delete_node s cte = None);
     if clear_tail s = None then do {
       assert_that (clear_head s = None);
       Some (s\<lparr>clear_head := Some cte, clear_tail := Some cte, delete_node := (delete_node s)(cte := None)\<rparr>)
     }
     else do {
       assert_that (clear_head s \<noteq> None);
       Some (s\<lparr>delete_node := (delete_node s)(cte := clear_head s), clear_head := Some cte\<rparr>)
     }
   }"

fun mark_slots :: "caps_env \<Rightarrow> u64 \<Rightarrow> nat \<Rightarrow> caps \<Rightarrow> caps option" where
  "mark_slots e cnode 0 s = Some s"
| "mark_slots e cnode (Suc i) s = do {
     s \<leftarrow> mark_slots e cnode i s;
     caps_mark_revoke_generic e (caps_locate_slot e cnode (of_nat i)) s
   }"

definition to_clear_list :: "addr \<Rightarrow> caps \<Rightarrow> caps option" where
  "to_clear_list cte s = do {
     assert_that (delete_node s cte = None \<or> delete_head s = Some cte);
     clear_list_prepend cte (s\<lparr>delete_node := (delete_node s)(cte := None)\<rparr>)
   }"

definition notify_monitor :: "caps_env \<Rightarrow> addr \<Rightarrow> caps \<Rightarrow> caps option" where
  "notify_monitor e dcb s =
     (if listener (monitor_ep s) = of_nat dcb then
        Some (s\<lparr>monitor_ep := (monitor_ep s)\<lparr>cap_u := (cap_u (monitor_ep s))(''listener'' := 0)\<rparr>\<rparr>)
      else if listener (monitor_ep s) \<noteq> 0 then do {
        (err, s) \<leftarrow> deliver_to_monitor e [dcb_domain_id e dcb] s;
        assert_that (err_is_ok err);
        Some s
      }
      else Some s)"

definition upd_kern :: "(kernel \<Rightarrow> kernel option) \<Rightarrow> caps \<Rightarrow> caps option" where
  "upd_kern f s = do { k \<leftarrow> f (kern (ipc s)); Some (s\<lparr>ipc := (ipc s)\<lparr>kern := k\<rparr>\<rparr>) }"

definition caps_delete_last :: "caps_env \<Rightarrow> addr \<Rightarrow> ptr \<Rightarrow> caps \<Rightarrow> (errval \<times> caps) option" where
  "caps_delete_last e cte ret_ram_cap s = do {
     copies \<leftarrow> has_copies (preds e) (db s) cte;
     assert_that (\<not> copies);
     (err, s) \<leftarrow> caps_try_delete e cte s;
     if err \<noteq> SYS_ERR_DELETE_LAST_OWNED \<and> err \<noteq> SYS_ERR_CAP_LOCKED then Some (err, s)
     else if cap_type (cap_of s cte) = ObjType_CNode then do {
       n \<leftarrow> (if unat (cnode_bits (cap_of s cte)) < 31 then Some (2 ^ unat (cnode_bits (cap_of s cte))) else None);
       s \<leftarrow> mark_slots e (cnode_addr (cap_of s cte)) n s;
       s \<leftarrow> to_clear_list cte s;
       Some (SYS_ERR_OK, s)
     }
     else if cap_type (cap_of s cte) = ObjType_Dispatcher then do {
       let dcb = unat (cap_u (cap_of s cte) ''dcb'');
       s \<leftarrow> upd_kern (env_scheduler_remove e dcb) s;
       s \<leftarrow> upd_kern (\<lambda>k. Some (if dcb_current k = Some dcb then k\<lparr>dcb_current := None\<rparr> else k)) s;
       s \<leftarrow> upd_kern (wakeup_remove dcb) s;
       s \<leftarrow> notify_monitor e dcb s;
       s \<leftarrow> caps_mark_revoke_generic e (dcb_cspace e dcb) s;
       s \<leftarrow> caps_mark_revoke_generic e (dcb_disp_cte e dcb) s;
       s \<leftarrow> to_clear_list cte s;
       Some (SYS_ERR_OK, s)
     }
     else cleanup_last e cte ret_ram_cap s
   }"

definition caps_copyout_last :: "caps_env \<Rightarrow> addr \<Rightarrow> addr \<Rightarrow> caps \<Rightarrow> (errval \<times> caps) option" where
  "caps_copyout_last e target ret_cte s = do {
     (err, s) \<leftarrow> caps_copy_to_cte e ret_cte target False 0 0 s;
     if err_is_fail err then Some (err, s)
     else do {
       (err, s) \<leftarrow> cleanup_copy e target s;
       if err_is_fail err then Some (err, s) else Some (SYS_ERR_OK, s)
     }
   }"

definition delete_list_pop :: "ptr \<Rightarrow> caps \<Rightarrow> caps" where
  "delete_list_pop next s = (if next \<noteq> None then s\<lparr>delete_head := next\<rparr> else s\<lparr>delete_head := None, delete_tail := None\<rparr>)"

definition caps_delete_step :: "caps_env \<Rightarrow> addr \<Rightarrow> caps \<Rightarrow> (errval \<times> caps) option" where
  "caps_delete_step e ret_next s = do {
     assert_that (cap_type (cap_of s ret_next) = ObjType_Null);
     case delete_head s of
       None \<Rightarrow> do { assert_that (delete_tail s = None); Some (SYS_ERR_CAP_NOT_FOUND, s) }
     | Some cte \<Rightarrow> do {
         assert_that (in_delete (cte_at s cte));
         let next = delete_node s cte;
         copies \<leftarrow> (if locked (cte_at s cte) then Some False
                     else if distcap_is_foreign e s cte then Some True else has_copies (preds e) (db s) cte);
         (err, s) \<leftarrow>
           (if locked (cte_at s cte) then Some (SYS_ERR_CAP_LOCKED, s)
            else if copies then cleanup_copy e cte s
            else if remote_copies (cte_at s cte) then do {
              (err, s) \<leftarrow> caps_copyout_last e cte ret_next s;
              if err_is_ok err then Some (SYS_ERR_DELETE_LAST_OWNED, delete_list_pop next s) else Some (err, s)
            }
            else do {
              (err, s) \<leftarrow> caps_delete_last e cte (Some ret_next) (s\<lparr>delete_node := (delete_node s)(cte := None)\<rparr>);
              Some (err, if err_is_fail err then s\<lparr>delete_node := (delete_node s)(cte := next)\<rparr> else s)
            });
         Some (err, if err_is_ok err then delete_list_pop next s else s)
       }
   }"

definition check_slot :: "caps \<Rightarrow> addr \<Rightarrow> unit option" where
  "check_slot s slot = do {
     assert_that (cap_type (cap_of s slot) \<in> {ObjType_Null, ObjType_CNode, ObjType_Dispatcher});
     assert_that (cap_type (cap_of s slot) \<noteq> ObjType_Null \<longrightarrow> in_delete (cte_at s slot))
   }"

fun check_slots :: "caps_env \<Rightarrow> u64 \<Rightarrow> nat \<Rightarrow> caps \<Rightarrow> unit option" where
  "check_slots e cnode 0 s = Some ()"
| "check_slots e cnode (Suc i) s = do { _ \<leftarrow> check_slots e cnode i s; check_slot s (caps_locate_slot e cnode (of_nat i)) }"

definition caps_clear_step :: "caps_env \<Rightarrow> ptr \<Rightarrow> caps \<Rightarrow> (errval \<times> caps) option" where
  "caps_clear_step e ret_ram_cap s = do {
     assert_that (delete_head s = None);
     assert_that (delete_tail s = None);
     case clear_head s of
       None \<Rightarrow> do { assert_that (clear_tail s = None); Some (SYS_ERR_CAP_NOT_FOUND, s) }
     | Some cte \<Rightarrow> do {
         assert_that ((clear_head s = clear_tail s) = (delete_node s cte = None));
         _ \<leftarrow> (if cap_type (cap_of s cte) = ObjType_CNode then do {
                n \<leftarrow> (if unat (cnode_bits (cap_of s cte)) < 31 then Some (2 ^ unat (cnode_bits (cap_of s cte))) else None);
                check_slots e (cnode_addr (cap_of s cte)) n s
              }
              else if cap_type (cap_of s cte) = ObjType_Dispatcher then do {
                let dcb = unat (cap_u (cap_of s cte) ''dcb'');
                _ \<leftarrow> check_slot s (dcb_cspace e dcb);
                check_slot s (dcb_disp_cte e dcb)
              }
              else None);
         let after = delete_node s cte;
         (err, s) \<leftarrow> cleanup_last e cte ret_ram_cap s;
         Some (err,
           if err_is_ok err then
             if after \<noteq> None then s\<lparr>clear_head := after\<rparr> else s\<lparr>clear_head := None, clear_tail := None\<rparr>
           else s)
       }
   }"

end
