(* ===== verification/Bitmap.thy ===== *)
theory Bitmap
  imports Errors
begin

text \<open>
  \<^verbatim>\<open>lib/bitmap/bitmap.c\<close>: bit sets with cached weight, first and last element.  A bit index is a value of
  \<^verbatim>\<open>bitmap_bit_t\<close>, a signed 32-bit integer; comparing it with the unsigned size converts it to \<open>u32\<close>.
  Reading or writing beyond the allocated elements is an abnormal outcome, as is a signed overflow.
\<close>

unbundle bit_operations_syntax

section \<open>Definitions\<close>

record bitmap =
  bm_nbits :: u32
  bm_weight :: u32
  bm_first :: u32
  bm_last :: u32
  bm_data :: "u32 list"

abbreviation BITMAP_BITS_PER_ELEMENT :: int where "BITMAP_BITS_PER_ELEMENT \<equiv> 32"

abbreviation BITMAP_BIT_NONE :: int where "BITMAP_BIT_NONE \<equiv> -1"

definition BITMAP_DATA_SIZE :: "u32 \<Rightarrow> nat" where
  "BITMAP_DATA_SIZE nbits = (unat nbits + 31) div 32"

text \<open>
  The memory behind the header has as many bytes as the bitmap has elements of four bytes each; \<open>bm_data\<close> holds the
  elements that fit.  The first argument says whether \<^verbatim>\<open>calloc\<close> finds the memory; no bitmap stands for the null pointer.
\<close>

definition bitmap_alloc :: "bool \<Rightarrow> u32 \<Rightarrow> bitmap option" where
  "bitmap_alloc calloc_ok nbits =
     (if \<not> calloc_ok then None
      else Some \<lparr>bm_nbits = nbits, bm_weight = 0, bm_first = 0, bm_last = 0,
                 bm_data = replicate (BITMAP_DATA_SIZE nbits div 4) 0\<rparr>)"

definition bitmap_get_nbytes :: "bitmap \<Rightarrow> u32" where
  "bitmap_get_nbytes bm = of_nat (BITMAP_DATA_SIZE (bm_nbits bm) * 4)"

definition bitmap_get_nbits :: "bitmap \<Rightarrow> u32" where
  "bitmap_get_nbits bm = bm_nbits bm"

definition bitmap_get_weight :: "bitmap \<Rightarrow> u32" where
  "bitmap_get_weight bm = bm_weight bm"

text \<open>Index arithmetic is done in \<^verbatim>\<open>size_t\<close>.\<close>

definition elem :: "int \<Rightarrow> nat" where
  "elem i = nat ((i mod 2 ^ 64) div BITMAP_BITS_PER_ELEMENT)"

definition offset :: "int \<Rightarrow> nat" where
  "offset i = nat ((i mod 2 ^ 64) mod BITMAP_BITS_PER_ELEMENT)"

definition read_data :: "bitmap \<Rightarrow> nat \<Rightarrow> u32 option" where
  "read_data bm k = (if k < length (bm_data bm) then Some (bm_data bm ! k) else None)"

definition write_data :: "nat \<Rightarrow> u32 \<Rightarrow> bitmap \<Rightarrow> bitmap option" where
  "write_data k d bm = (if k < length (bm_data bm) then Some (bm\<lparr>bm_data := (bm_data bm)[k := d]\<rparr>) else None)"

abbreviation below_nbits :: "bitmap \<Rightarrow> int \<Rightarrow> bool" where
  "below_nbits bm i \<equiv> (word_of_int i :: u32) < bm_nbits bm"

definition inc :: "int \<Rightarrow> int option" where
  "inc k = (if k < 2 ^ 31 - 1 then Some (k + 1) else None)"

definition bitmap_is_bit_set :: "bitmap \<Rightarrow> int \<Rightarrow> bool option" where
  "bitmap_is_bit_set bm i =
     (if below_nbits bm i then do {
        data \<leftarrow> read_data bm (elem i);
        Some (drop_bit (offset i) data AND 1 \<noteq> 0)
      } else Some False)"

definition bitmap_is_bit_clear :: "bitmap \<Rightarrow> int \<Rightarrow> bool option" where
  "bitmap_is_bit_clear bm i = map_option Not (bitmap_is_bit_set bm i)"

definition bitmap_is_all_set :: "bitmap \<Rightarrow> bool" where
  "bitmap_is_all_set bm \<longleftrightarrow> bm_weight bm = bm_nbits bm"

definition bitmap_is_all_clear :: "bitmap \<Rightarrow> bool" where
  "bitmap_is_all_clear bm \<longleftrightarrow> bm_weight bm = 0"

definition bitmap_get_first :: "bitmap \<Rightarrow> int" where
  "bitmap_get_first bm = (if bm_weight bm \<noteq> 0 then sint (bm_first bm) else BITMAP_BIT_NONE)"

definition bitmap_get_last :: "bitmap \<Rightarrow> int" where
  "bitmap_get_last bm = (if bm_weight bm \<noteq> 0 then sint (bm_last bm) else BITMAP_BIT_NONE)"

partial_function (option) next_from :: "bitmap \<Rightarrow> int \<Rightarrow> int option" where
  "next_from bm k =
     (if below_nbits bm k then do {
        b \<leftarrow> bitmap_is_bit_set bm k;
        if b then Some k else do { k' \<leftarrow> inc k; next_from bm k' }
      } else Some BITMAP_BIT_NONE)"

definition bitmap_get_next :: "bitmap \<Rightarrow> int \<Rightarrow> int option" where
  "bitmap_get_next bm i = do { k \<leftarrow> inc i; next_from bm k }"

partial_function (option) prev_from :: "bitmap \<Rightarrow> int \<Rightarrow> int option" where
  "prev_from bm k =
     (if k \<ge> 0 then do {
        b \<leftarrow> bitmap_is_bit_set bm k;
        if b then Some k else prev_from bm (k - 1)
      } else Some BITMAP_BIT_NONE)"

definition bitmap_get_prev :: "bitmap \<Rightarrow> int \<Rightarrow> int option" where
  "bitmap_get_prev bm i = (if below_nbits bm i then prev_from bm (i - 1) else Some BITMAP_BIT_NONE)"

definition bitmap_set_bit :: "bitmap \<Rightarrow> int \<Rightarrow> bitmap option" where
  "bitmap_set_bit bm i =
     (if below_nbits bm i then do {
        data \<leftarrow> read_data bm (elem i);
        let msk = push_bit (offset i) 1;
        if msk AND data = 0 then do {
          bm \<leftarrow> write_data (elem i) (data OR push_bit (offset i) 1) bm;
          let bm = (if bm_weight bm \<noteq> 0 then
                      if bm_last bm < word_of_int i then bm\<lparr>bm_last := word_of_int i\<rparr>
                      else if bm_first bm > word_of_int i then bm\<lparr>bm_first := word_of_int i\<rparr>
                      else bm
                    else bm\<lparr>bm_first := word_of_int i, bm_last := word_of_int i\<rparr>);
          Some (bm\<lparr>bm_weight := bm_weight bm + 1\<rparr>)
        } else Some bm
      } else Some bm)"

definition bitmap_clear_bit :: "bitmap \<Rightarrow> int \<Rightarrow> bitmap option" where
  "bitmap_clear_bit bm i =
     (if below_nbits bm i then do {
        data \<leftarrow> read_data bm (elem i);
        let msk = push_bit (offset i) 1;
        if data AND msk \<noteq> 0 then do {
          let bm = bm\<lparr>bm_weight := bm_weight bm - 1\<rparr>;
          bm \<leftarrow> write_data (elem i) (data AND NOT msk) bm;
          if bm_weight bm \<noteq> 0 then
            if bm_last bm = word_of_int i then do {
              k \<leftarrow> bitmap_get_prev bm i;
              Some (bm\<lparr>bm_last := word_of_int k\<rparr>)
            } else if bm_first bm = word_of_int i then do {
              k \<leftarrow> bitmap_get_next bm i;
              Some (bm\<lparr>bm_first := word_of_int k\<rparr>)
            } else Some bm
          else Some (bm\<lparr>bm_first := word_of_int BITMAP_BIT_NONE, bm_last := word_of_int BITMAP_BIT_NONE\<rparr>)
        } else Some bm
      } else Some bm)"

text \<open>\<^verbatim>\<open>memset\<close> of all elements.\<close>

definition fill_data :: "u32 \<Rightarrow> bitmap \<Rightarrow> bitmap option" where
  "fill_data d bm =
     (let n = unat (bitmap_get_nbytes bm) div 4
      in if n \<le> length (bm_data bm) then Some (bm\<lparr>bm_data := replicate n d @ drop n (bm_data bm)\<rparr>) else None)"

definition bitmap_set_all :: "bitmap \<Rightarrow> bitmap option" where
  "bitmap_set_all bm = do {
     bm \<leftarrow> fill_data 0xFFFFFFFF bm;
     Some (bm\<lparr>bm_weight := bm_nbits bm, bm_last := bm_nbits bm - 1, bm_first := 0\<rparr>)
   }"

definition bitmap_clear_all :: "bitmap \<Rightarrow> bitmap option" where
  "bitmap_clear_all bm = do {
     bm \<leftarrow> fill_data 0 bm;
     Some (bm\<lparr>bm_weight := 0, bm_first := word_of_int BITMAP_BIT_NONE, bm_last := word_of_int BITMAP_BIT_NONE\<rparr>)
   }"

partial_function (option) for_range :: "(bitmap \<Rightarrow> int \<Rightarrow> bitmap option) \<Rightarrow> int \<Rightarrow> int \<Rightarrow> bitmap \<Rightarrow> bitmap option" where
  "for_range f i to bm =
     (if i \<le> to then do { bm \<leftarrow> f bm i; k \<leftarrow> inc i; for_range f k to bm } else Some bm)"

definition clip :: "bitmap \<Rightarrow> int \<Rightarrow> int" where
  "clip bm to = (if (word_of_int to :: u32) > bm_nbits bm then sint (bm_nbits bm - 1) else to)"

definition bitmap_set_range :: "bitmap \<Rightarrow> int \<Rightarrow> int \<Rightarrow> bitmap option" where
  "bitmap_set_range bm frm to = for_range bitmap_set_bit frm (clip bm to) bm"

definition bitmap_clear_range :: "bitmap \<Rightarrow> int \<Rightarrow> int \<Rightarrow> bitmap option" where
  "bitmap_clear_range bm frm to = for_range bitmap_clear_bit frm (clip bm to) bm"

text \<open>Arguments of type \<^verbatim>\<open>uint32_t\<close> become signed when they are passed on.\<close>

definition bitmap_keep_range :: "bitmap \<Rightarrow> u32 \<Rightarrow> u32 \<Rightarrow> bitmap option" where
  "bitmap_keep_range bm frm to = do {
     bm \<leftarrow> (if frm \<noteq> 0 then bitmap_clear_range bm 0 (sint (frm - 1)) else Some bm);
     if to \<noteq> bm_nbits bm - 1 then bitmap_clear_range bm (sint to) (sint (bm_nbits bm)) else Some bm
   }"

text \<open>The last statement of \<^verbatim>\<open>bitmap_copy\<close> is an assertion that never holds.\<close>

definition bitmap_copy :: "bitmap \<Rightarrow> bitmap \<Rightarrow> bitmap option" where
  "bitmap_copy to frm = do {
     to \<leftarrow> bitmap_clear_all to;
     let n = (if bm_nbits to < bm_nbits frm then BITMAP_DATA_SIZE (bm_nbits to) else BITMAP_DATA_SIZE (bm_nbits frm));
     assert_that (n \<le> length (bm_data to) \<and> n \<le> length (bm_data frm));
     let to = to\<lparr>bm_data := take n (bm_data frm) @ drop n (bm_data to)\<rparr>;
     assert_that False;
     Some to
   }"

text \<open>
  The comparisons look for the first element, common to both bitmaps, at which a condition holds.  The first argument of
  \<open>bitmap_equal\<close> says whether the two pointers are the same.
\<close>

fun scan :: "(u32 \<Rightarrow> u32 \<Rightarrow> bool) \<Rightarrow> bitmap \<Rightarrow> bitmap \<Rightarrow> nat list \<Rightarrow> bool option" where
  "scan p bm1 bm2 [] = Some False"
| "scan p bm1 bm2 (i # is) = do {
     x \<leftarrow> read_data bm1 i;
     y \<leftarrow> read_data bm2 i;
     if p x y then Some True else scan p bm1 bm2 is
   }"

definition common :: "bitmap \<Rightarrow> bitmap \<Rightarrow> nat list" where
  "common bm1 bm2 = filter (\<lambda>i. i < BITMAP_DATA_SIZE (bm_nbits bm2)) [0..<BITMAP_DATA_SIZE (bm_nbits bm1)]"

definition bitmap_equal :: "bool \<Rightarrow> bitmap \<Rightarrow> bitmap \<Rightarrow> bool option" where
  "bitmap_equal same_ptr bm1 bm2 =
     (if same_ptr then Some True
      else if bm_nbits bm1 \<noteq> bm_nbits bm2 then Some False
      else map_option Not (scan (\<lambda>x y. x \<noteq> y) bm1 bm2 (common bm1 bm2)))"

definition bitmap_disjoint :: "bitmap \<Rightarrow> bitmap \<Rightarrow> bool option" where
  "bitmap_disjoint bm1 bm2 = map_option Not (scan (\<lambda>x y. x AND y \<noteq> 0) bm1 bm2 (common bm1 bm2))"

definition bitmap_intersects :: "bitmap \<Rightarrow> bitmap \<Rightarrow> bool option" where
  "bitmap_intersects bm1 bm2 = scan (\<lambda>x y. x AND y \<noteq> 0) bm1 bm2 (common bm1 bm2)"

fun invert_elems :: "nat \<Rightarrow> bitmap \<Rightarrow> bitmap option" where
  "invert_elems 0 bm = Some bm"
| "invert_elems (Suc i) bm = do {
     bm \<leftarrow> invert_elems i bm;
     x \<leftarrow> read_data bm i;
     write_data i (NOT x) bm
   }"

partial_function (option) toggle_from :: "int \<Rightarrow> bitmap \<Rightarrow> bitmap option" where
  "toggle_from i bm =
     (if below_nbits bm i then do {
        b \<leftarrow> bitmap_is_bit_set bm i;
        bm \<leftarrow> (if b then bitmap_clear_bit bm i else bitmap_set_bit bm i);
        k \<leftarrow> inc i;
        toggle_from k bm
      } else Some bm)"

definition bitmap_complement :: "bitmap \<Rightarrow> bitmap option" where
  "bitmap_complement bm =
     (let dst_bytes = int (BITMAP_DATA_SIZE (bm_nbits bm)) - 1
      in do {
        bm \<leftarrow> invert_elems (nat dst_bytes) bm;
        toggle_from (dst_bytes * 4) bm
      })"

text \<open>
  Both element counts of the logical operations are computed from the destination, so the case of a shorter source
  never arises.
\<close>

fun combine :: "(u32 \<Rightarrow> u32 \<Rightarrow> u32) \<Rightarrow> bitmap \<Rightarrow> nat \<Rightarrow> bitmap \<Rightarrow> bitmap option" where
  "combine f src 0 dst = Some dst"
| "combine f src (Suc i) dst = do {
     dst \<leftarrow> combine f src i dst;
     x \<leftarrow> read_data dst i;
     y \<leftarrow> read_data src i;
     write_data i (f x y) dst
   }"

definition bitmap_and :: "bitmap \<Rightarrow> bitmap \<Rightarrow> bitmap option" where
  "bitmap_and dst src = combine (\<lambda>x y. NOT (x AND y)) src (BITMAP_DATA_SIZE (bm_nbits dst)) dst"

definition bitmap_nand :: "bitmap \<Rightarrow> bitmap \<Rightarrow> bitmap option" where
  "bitmap_nand dst src = combine (\<lambda>x y. NOT (x AND y)) src (BITMAP_DATA_SIZE (bm_nbits dst)) dst"

definition bitmap_or :: "bitmap \<Rightarrow> bitmap \<Rightarrow> bitmap option" where
  "bitmap_or dst src = combine (\<lambda>x y. x OR y) src (BITMAP_DATA_SIZE (bm_nbits dst)) dst"

definition bitmap_xor :: "bitmap \<Rightarrow> bitmap \<Rightarrow> bitmap option" where
  "bitmap_xor dst src = combine (\<lambda>x y. x XOR y) src (BITMAP_DATA_SIZE (bm_nbits dst)) dst"

section \<open>The set of bits\<close>

definition bits :: "bitmap \<Rightarrow> nat set" where
  "bits bm = {i. i < unat (bm_nbits bm) \<and> bit (bm_data bm ! (i div 32)) (i mod 32)}"

text \<open>A bitmap with all its elements and the right cached values; sizes are those an index can reach.\<close>

definition bitmap_wf :: "bitmap \<Rightarrow> bool" where
  "bitmap_wf bm \<longleftrightarrow>
     unat (bm_nbits bm) < 2 ^ 31 \<and> length (bm_data bm) = BITMAP_DATA_SIZE (bm_nbits bm) \<and>
     unat (bm_weight bm) = card (bits bm) \<and>
     (bits bm \<noteq> {} \<longrightarrow> unat (bm_first bm) = Min (bits bm) \<and> unat (bm_last bm) = Max (bits bm))"

lemma finite_bits [simp]: "finite (bits bm)"
  by (rule finite_subset [of _ "{..<unat (bm_nbits bm)}"]) (auto simp: bits_def)

lemma elem_nat [simp]: "n < 2 ^ 64 \<Longrightarrow> elem (int n) = n div 32" and offset_nat [simp]: "n < 2 ^ 64 \<Longrightarrow> offset (int n) = n mod 32"
proof -
  assume "n < 2 ^ 64"
  then have "int n mod 2 ^ 64 = int n" by simp
  then show "elem (int n) = n div 32" "offset (int n) = n mod 32"
    by (simp_all add: elem_def offset_def nat_div_distrib nat_mod_distrib)
qed

lemma word_of_nat_u32: "n < 2 ^ 32 \<Longrightarrow> unat (word_of_int (int n) :: u32) = n"
  by (simp add: unsigned_of_nat take_bit_nat_eq_self_iff)

lemma below_nbits_nat: "n < 2 ^ 32 \<Longrightarrow> below_nbits bm (int n) \<longleftrightarrow> n < unat (bm_nbits bm)"
  using word_of_nat_u32 [of n] by (simp add: word_less_nat_alt)

lemma index_ok: "n < unat (bm_nbits bm) \<Longrightarrow> length (bm_data bm) = BITMAP_DATA_SIZE (bm_nbits bm) \<Longrightarrow> n div 32 < length (bm_data bm)"
  by (simp add: BITMAP_DATA_SIZE_def)

lemma is_bit_set_spec:
  assumes "length (bm_data bm) = BITMAP_DATA_SIZE (bm_nbits bm)" "n < 2 ^ 32"
  shows "bitmap_is_bit_set bm (int n) = Some (n \<in> bits bm)"
proof (cases "n < unat (bm_nbits bm)")
  case True
  have "drop_bit (n mod 32) x AND 1 \<noteq> 0 \<longleftrightarrow> bit x (n mod 32)" for x :: u32
    by (simp add: and_one_eq bit_iff_odd_drop_bit odd_iff_mod_2_eq_one)
  with True index_ok [OF True assms(1)] assms(2) below_nbits_nat [OF assms(2), of bm] show ?thesis
    by (simp add: bitmap_is_bit_set_def read_data_def bits_def)
next
  case False
  with below_nbits_nat [OF assms(2), of bm] show ?thesis by (simp add: bitmap_is_bit_set_def bits_def)
qed

lemma bit_set_u32: "m < 32 \<Longrightarrow> j < 32 \<Longrightarrow> bit (x OR 2 ^ m :: u32) j \<longleftrightarrow> bit x j \<or> j = m"
  by (auto simp: bit_or_iff bit_exp_iff)

lemma bit_clear_u32: "m < 32 \<Longrightarrow> j < 32 \<Longrightarrow> bit (x AND NOT (2 ^ m) :: u32) j \<longleftrightarrow> bit x j \<and> j \<noteq> m"
  by (auto simp: bit_and_iff bit_not_iff bit_exp_iff)

lemma test_u32: "m < 32 \<Longrightarrow> 2 ^ m AND x = 0 \<longleftrightarrow> \<not> bit (x :: u32) m" "m < 32 \<Longrightarrow> x AND 2 ^ m = 0 \<longleftrightarrow> \<not> bit (x :: u32) m"
  by (simp_all add: and_exp_eq_0_iff_not_bit and.commute [of "2 ^ m"])

lemma same_position: "n div 32 = i div 32 \<Longrightarrow> i mod 32 = n mod 32 \<longleftrightarrow> i = (n :: nat)"
  by (metis div_mult_mod_eq)

lemma bits_update:
  assumes "n < unat (bm_nbits bm)" "length (bm_data bm) = BITMAP_DATA_SIZE (bm_nbits bm)"
  shows "bits (bm\<lparr>bm_data := (bm_data bm)[n div 32 := bm_data bm ! (n div 32) OR 2 ^ (n mod 32)]\<rparr>) = insert n (bits bm)"
    "bits (bm\<lparr>bm_data := (bm_data bm)[n div 32 := bm_data bm ! (n div 32) AND NOT (2 ^ (n mod 32))]\<rparr>) = bits bm - {n}"
  using assms index_ok [OF assms]
  by (auto simp: bits_def nth_list_update bit_set_u32 bit_clear_u32 same_position split: if_splits)

lemma bits_cong [simp]:
  "bits (bm_weight_update f bm) = bits bm" "bits (bm_first_update g bm) = bits bm" "bits (bm_last_update h bm) = bits bm"
  by (simp_all add: bits_def)

lemma card_bits: "card (bits bm) \<le> unat (bm_nbits bm)"
proof -
  have "bits bm \<subseteq> {..<unat (bm_nbits bm)}" by (auto simp: bits_def)
  from card_mono [OF _ this] show ?thesis by simp
qed

lemma bitmap_wfD:
  assumes "bitmap_wf bm"
  shows "unat (bm_nbits bm) < 2 ^ 31" "length (bm_data bm) = BITMAP_DATA_SIZE (bm_nbits bm)" "unat (bm_weight bm) = card (bits bm)"
    "bits bm \<noteq> {} \<Longrightarrow> unat (bm_first bm) = Min (bits bm)" "bits bm \<noteq> {} \<Longrightarrow> unat (bm_last bm) = Max (bits bm)"
    "bm_weight bm = 0 \<longleftrightarrow> bits bm = {}"
  using assms by (auto simp: bitmap_wf_def unat_eq_0 [symmetric])

lemma unat_inc_u32: "unat w < 2 ^ 32 - 1 \<Longrightarrow> unat (w + 1 :: u32) = unat w + 1"
  by (simp add: unat_word_ariths)

lemma unat_dec_u32: "w \<noteq> 0 \<Longrightarrow> unat (w - 1 :: u32) = unat w - 1"
  by (rule unat_minus_one)

lemma set_bit_spec:
  assumes wf: "bitmap_wf bm" and n: "n < unat (bm_nbits bm)"
  shows "\<exists>bm'. bitmap_set_bit bm (int n) = Some bm' \<and> bitmap_wf bm' \<and> bits bm' = insert n (bits bm) \<and> bm_nbits bm' = bm_nbits bm"
proof -
  note wf' = bitmap_wfD [OF wf]
  have small: "n < 2 ^ 32" "n < 2 ^ 64" using n wf'(1) by simp_all
  have below: "below_nbits bm (int n)" using below_nbits_nat [OF small(1)] n by simp
  note idx = index_ok [OF n wf'(2)]
  let ?d = "bm_data bm ! (n div 32)"
  have mem: "n \<in> bits bm \<longleftrightarrow> bit ?d (n mod 32)" using n by (simp add: bits_def)
  have u: "unat (word_of_int (int n) :: u32) = n" using small(1) by (rule word_of_nat_u32)
  show ?thesis
  proof (cases "n \<in> bits bm")
    case True
    then have "2 ^ (n mod 32) AND ?d \<noteq> 0" using mem test_u32(1) [of "n mod 32" ?d] by simp
    with True below idx small wf show ?thesis
      by (auto simp: bitmap_set_bit_def read_data_def insert_absorb)
  next
    case False
    then have test: "2 ^ (n mod 32) AND ?d = 0" using mem test_u32(1) [of "n mod 32" ?d] by simp
    let ?bm = "bm\<lparr>bm_data := (bm_data bm)[n div 32 := ?d OR 2 ^ (n mod 32)]\<rparr>"
    define bm' where "bm' = (if bm_weight bm \<noteq> 0 then
        if bm_last bm < word_of_int (int n) then ?bm\<lparr>bm_last := word_of_int (int n)\<rparr>
        else if bm_first bm > word_of_int (int n) then ?bm\<lparr>bm_first := word_of_int (int n)\<rparr> else ?bm
      else ?bm\<lparr>bm_first := word_of_int (int n), bm_last := word_of_int (int n)\<rparr>)\<lparr>bm_weight := bm_weight bm + 1\<rparr>"
    have run: "bitmap_set_bit bm (int n) = Some bm'"
      using below idx small test by (simp add: bitmap_set_bit_def read_data_def write_data_def Let_def bm'_def)
    have b: "bits bm' = insert n (bits bm)" using bits_update(1) [OF n wf'(2)] by (simp add: bm'_def)
    have "card (bits bm) < 2 ^ 31" using card_bits [of bm] wf'(1) by linarith
    then have wt: "unat (bm_weight bm') = card (bits bm')"
      using False unat_inc_u32 [of "bm_weight bm"] wf'(3) unfolding b by (simp add: bm'_def)
    have fl: "unat (bm_first bm') = Min (bits bm') \<and> unat (bm_last bm') = Max (bits bm')"
    proof (cases "bits bm = {}")
      case True
      then show ?thesis unfolding b using wf'(6) u by (simp add: bm'_def)
    next
      case ne: False
      obtain mn mx where m: "Min (bits bm) = mn" "Max (bits bm) = mx" by blast
      have "mn \<in> bits bm" "mx \<in> bits bm" "mn \<le> mx" using ne m Min_in Max_in Min_le finite_bits by metis+
      moreover have "Min (bits bm') = min n mn" "Max (bits bm') = max n mx" unfolding b using ne m by simp_all
      moreover have "unat (bm_last bm') = (if mx < n then n else mx)"
        "unat (bm_first bm') = (if mx < n then mn else if n < mn then n else mn)"
        using wf'(4,5) [OF ne] wf'(6) ne u m by (simp_all add: bm'_def word_less_nat_alt)
      ultimately show ?thesis using False by auto
    qed
    have "bitmap_wf bm'" unfolding bitmap_wf_def using wt fl wf'(1,2) by (simp add: bm'_def)
    with run b show ?thesis by (auto simp: bm'_def)
  qed
qed

section \<open>Neighbouring bits\<close>

definition next_in :: "nat set \<Rightarrow> nat \<Rightarrow> int" where
  "next_in A k = (if {j \<in> A. k \<le> j} = {} then BITMAP_BIT_NONE else int (Min {j \<in> A. k \<le> j}))"

definition prev_in :: "nat set \<Rightarrow> nat \<Rightarrow> int" where
  "prev_in A k = (if {j \<in> A. j < k} = {} then BITMAP_BIT_NONE else int (Max {j \<in> A. j < k}))"

lemma next_in_step: "next_in A k = (if k \<in> A then int k else next_in A (Suc k))" if "finite A"
proof (cases "k \<in> A")
  case True
  then have "Min {j \<in> A. k \<le> j} = k" using that by (intro Min_eqI) auto
  with True show ?thesis by (auto simp: next_in_def)
next
  case False
  then have "{j \<in> A. k \<le> j} = {j \<in> A. Suc k \<le> j}" by (auto simp: Suc_le_eq le_less)
  with False show ?thesis by (simp add: next_in_def)
qed

lemma prev_in_step: "prev_in A (Suc k) = (if k \<in> A then int k else prev_in A k)" if "finite A"
proof (cases "k \<in> A")
  case True
  then have "Max {j \<in> A. j < Suc k} = k" using that by (intro Max_eqI) auto
  with True show ?thesis by (auto simp: prev_in_def)
next
  case False
  then have "{j \<in> A. j < Suc k} = {j \<in> A. j < k}" by (auto simp: less_Suc_eq)
  with False show ?thesis by (simp add: prev_in_def)
qed

lemma next_from_spec:
  assumes "unat (bm_nbits bm) < 2 ^ 31" "length (bm_data bm) = BITMAP_DATA_SIZE (bm_nbits bm)" "k \<le> 2 ^ 31"
  shows "next_from bm (int k) = Some (next_in (bits bm) k)"
  using assms(3)
proof (induction "unat (bm_nbits bm) - k" arbitrary: k)
  case 0
  then have "{j \<in> bits bm. k \<le> j} = {}" by (auto simp: bits_def)
  with 0 below_nbits_nat [of k bm] show ?case by (simp add: next_from.simps next_in_def)
next
  case (Suc d)
  have k: "k < unat (bm_nbits bm)" using Suc.hyps(2) by simp
  then have IH: "next_from bm (int (Suc k)) = Some (next_in (bits bm) (Suc k))"
    using Suc.hyps(2) assms(1) by (intro Suc.hyps(1)) auto
  have "inc (int k) = Some (int (Suc k))" using k assms(1) by (simp add: inc_def)
  with k IH Suc.prems below_nbits_nat [of k bm] is_bit_set_spec [OF assms(2), of k] next_in_step [of "bits bm" k] show ?case
    by (subst next_from.simps) (simp del: of_nat_Suc)
qed

lemma prev_from_spec:
  assumes "length (bm_data bm) = BITMAP_DATA_SIZE (bm_nbits bm)" "k < 2 ^ 31"
  shows "prev_from bm (int k - 1) = Some (prev_in (bits bm) k)"
  using assms(2)
proof (induction k)
  case 0
  then show ?case by (simp add: prev_from.simps prev_in_def)
next
  case (Suc k)
  with is_bit_set_spec [OF assms(1), of k] prev_in_step [of "bits bm" k] show ?case
    by (simp add: prev_from.simps [of bm "int k"])
qed

lemma get_next_spec:
  assumes "bitmap_wf bm" "n < 2 ^ 31"
  shows "bitmap_get_next bm (int n) = (if n < 2 ^ 31 - 1 then Some (next_in (bits bm) (Suc n)) else None)"
  using next_from_spec [OF bitmap_wfD(1,2) [OF assms(1)], of "Suc n"] assms(2)
  by (simp add: bitmap_get_next_def inc_def add.commute)

lemma clear_last:
  assumes "length (bm_data bm) = BITMAP_DATA_SIZE (bm_nbits bm)" "n < unat (bm_nbits bm)" "unat (bm_nbits bm) < 2 ^ 31"
    "bits bm \<noteq> {}" "\<forall>j \<in> bits bm. j < n"
  shows "\<exists>k. bitmap_get_prev bm (int n) = Some k \<and> unat (word_of_int k :: u32) = Max (bits bm)"
proof -
  have "{j \<in> bits bm. j < n} = bits bm" using assms(5) by auto
  moreover have "Max (bits bm) < 2 ^ 32" using assms(2-5) Max_in [OF finite_bits assms(4)] by fastforce
  ultimately show ?thesis
    using prev_from_spec [OF assms(1), of n] below_nbits_nat [of n bm] assms(2-4) word_of_nat_u32 [of "Max (bits bm)"]
    by (simp add: bitmap_get_prev_def prev_in_def)
qed

lemma clear_first:
  assumes "length (bm_data bm) = BITMAP_DATA_SIZE (bm_nbits bm)" "n < unat (bm_nbits bm)" "unat (bm_nbits bm) < 2 ^ 31"
    "bits bm \<noteq> {}" "\<forall>j \<in> bits bm. n < j"
  shows "\<exists>k. bitmap_get_next bm (int n) = Some k \<and> unat (word_of_int k :: u32) = Min (bits bm)"
proof -
  have A: "{j \<in> bits bm. Suc n \<le> j} = bits bm" using assms(5) by auto
  have "Min (bits bm) < unat (bm_nbits bm)" using Min_in [OF finite_bits assms(4)] by (simp add: bits_def)
  then have "Min (bits bm) < 2 ^ 32" using assms(3) by simp
  moreover have "inc (int n) = Some (int (Suc n))" using assms(2,3) by (simp add: inc_def)
  ultimately show ?thesis
    using next_from_spec [OF assms(3,1), of "Suc n"] assms(2-4) word_of_nat_u32 [of "Min (bits bm)"]
    by (simp add: bitmap_get_next_def next_in_def A del: of_nat_Suc)
qed

text \<open>The cached values after the bit \<open>n\<close> has been cleared.\<close>

definition recache :: "bitmap \<Rightarrow> nat \<Rightarrow> bitmap option" where
  "recache b n =
     (if bm_weight b \<noteq> 0 then
        if bm_last b = word_of_int (int n) then do { k \<leftarrow> bitmap_get_prev b (int n); Some (b\<lparr>bm_last := word_of_int k\<rparr>) }
        else if bm_first b = word_of_int (int n) then do { k \<leftarrow> bitmap_get_next b (int n); Some (b\<lparr>bm_first := word_of_int k\<rparr>) }
        else Some b
      else Some (b\<lparr>bm_first := word_of_int BITMAP_BIT_NONE, bm_last := word_of_int BITMAP_BIT_NONE\<rparr>))"

lemma wf_cached:
  assumes "bm_nbits b' = bm_nbits b" "bm_data b' = bm_data b" "bm_weight b' = bm_weight b" "unat (bm_nbits b) < 2 ^ 31"
    "length (bm_data b) = BITMAP_DATA_SIZE (bm_nbits b)" "unat (bm_weight b) = card (bits b)"
    "bits b \<noteq> {} \<Longrightarrow> unat (bm_first b') = Min (bits b) \<and> unat (bm_last b') = Max (bits b)"
  shows "bitmap_wf b' \<and> bits b' = bits b"
proof -
  have "bits b' = bits b" using assms(1,2) by (simp add: bits_def)
  with assms show ?thesis by (simp add: bitmap_wf_def)
qed

lemma recache_spec:
  assumes n: "n < unat (bm_nbits b)" "unat (bm_nbits b) < 2 ^ 31" "n \<notin> bits b"
    and len: "length (bm_data b) = BITMAP_DATA_SIZE (bm_nbits b)" and wt: "unat (bm_weight b) = card (bits b)"
    and old: "unat (bm_first b) = Min (insert n (bits b))" "unat (bm_last b) = Max (insert n (bits b))"
  shows "\<exists>b'. recache b n = Some b' \<and> bitmap_wf b' \<and> bits b' = bits b \<and> bm_nbits b' = bm_nbits b"
proof (cases "bits b = {}")
  case True
  with wt have "bm_weight b = 0" by (simp add: unat_eq_0)
  with wf_cached [OF _ _ _ n(2) len wt, of "b\<lparr>bm_first := word_of_int BITMAP_BIT_NONE, bm_last := word_of_int BITMAP_BIT_NONE\<rparr>"] True
  show ?thesis by (simp add: recache_def)
next
  case ne: False
  with wt have w: "bm_weight b \<noteq> 0" by auto
  have u: "unat (word_of_int (int n) :: u32) = n" using n by (intro word_of_nat_u32) simp
  obtain mn mx where m: "Min (bits b) = mn" "Max (bits b) = mx" by blast
  have mem: "mn \<in> bits b" "mx \<in> bits b" "\<forall>j \<in> bits b. mn \<le> j \<and> j \<le> mx"
    using ne m Min_in Max_in Min_le Max_ge finite_bits by metis+
  have old': "unat (bm_first b) = min n mn" "unat (bm_last b) = max n mx" using old ne m by simp_all
  have eq: "bm_last b = word_of_int (int n) \<longleftrightarrow> mx < n" "bm_first b = word_of_int (int n) \<longleftrightarrow> n < mn"
    using old' u mem n(3) by (auto simp: word_unat_eq_iff min_def max_def le_less simp del: of_int_of_nat_eq)
  consider "mx < n" | "\<not> mx < n" "n < mn" | "\<not> mx < n" "\<not> n < mn" by blast
  then show ?thesis
  proof cases
    case 1
    then have "\<forall>j \<in> bits b. j < n" using mem(3) by fastforce
    from clear_last [OF len n(1,2) ne this] obtain k where
      k: "bitmap_get_prev b (int n) = Some k" "unat (word_of_int k :: u32) = Max (bits b)" by blast
    have "unat (bm_first b) = Min (bits b)" using old'(1) m(1) mem 1 by fastforce
    with 1 k w eq wf_cached [OF _ _ _ n(2) len wt, of "b\<lparr>bm_last := word_of_int k\<rparr>"] show ?thesis by (simp add: recache_def)
  next
    case 2
    then have "\<forall>j \<in> bits b. n < j" using mem(3) by fastforce
    from clear_first [OF len n(1,2) ne this] obtain k where
      k: "bitmap_get_next b (int n) = Some k" "unat (word_of_int k :: u32) = Min (bits b)" by blast
    have "unat (bm_last b) = Max (bits b)" using old'(2) m(2) 2 by simp
    with 2 k w eq wf_cached [OF _ _ _ n(2) len wt, of "b\<lparr>bm_first := word_of_int k\<rparr>"] show ?thesis by (simp add: recache_def)
  next
    case 3
    then have "unat (bm_first b) = Min (bits b)" "unat (bm_last b) = Max (bits b)" using old' m by simp_all
    with 3 w eq wf_cached [OF _ _ _ n(2) len wt, of b] show ?thesis by (simp add: recache_def)
  qed
qed

lemma clear_bit_spec:
  assumes wf: "bitmap_wf bm" and n: "n < unat (bm_nbits bm)"
  shows "\<exists>bm'. bitmap_clear_bit bm (int n) = Some bm' \<and> bitmap_wf bm' \<and> bits bm' = bits bm - {n} \<and> bm_nbits bm' = bm_nbits bm"
proof -
  note wf' = bitmap_wfD [OF wf]
  have small: "n < 2 ^ 32" "n < 2 ^ 64" using n wf'(1) by simp_all
  have below: "below_nbits bm (int n)" using below_nbits_nat [OF small(1)] n by simp
  note idx = index_ok [OF n wf'(2)]
  let ?d = "bm_data bm ! (n div 32)"
  have mem: "n \<in> bits bm \<longleftrightarrow> bit ?d (n mod 32)" using n by (simp add: bits_def)
  show ?thesis
  proof (cases "n \<in> bits bm")
    case False
    then have "?d AND 2 ^ (n mod 32) = 0" using mem test_u32(2) [of "n mod 32" ?d] by simp
    with False below idx small wf show ?thesis by (auto simp: bitmap_clear_bit_def read_data_def)
  next
    case True
    then have test: "?d AND 2 ^ (n mod 32) \<noteq> 0" using mem test_u32(2) [of "n mod 32" ?d] by simp
    define b where "b = bm\<lparr>bm_weight := bm_weight bm - 1, bm_data := (bm_data bm)[n div 32 := ?d AND NOT (2 ^ (n mod 32))]\<rparr>"
    have run: "bitmap_clear_bit bm (int n) = recache b n"
      using below idx small test by (simp add: bitmap_clear_bit_def read_data_def write_data_def b_def Let_def recache_def)
    have b: "bits b = bits bm - {n}" using bits_update(2) [OF n wf'(2)] by (simp add: b_def bits_def)
    then have ins: "insert n (bits b) = bits bm" and ne: "bits bm \<noteq> {}" using True by auto
    have "unat (bm_weight b) = card (bits b)"
      using wf'(3,6) ne unat_dec_u32 [of "bm_weight bm"] True unfolding b by (simp add: b_def)
    moreover have "n \<notin> bits b" using b by simp
    moreover have f: "bm_nbits b = bm_nbits bm" "length (bm_data b) = BITMAP_DATA_SIZE (bm_nbits b)"
      "unat (bm_first b) = Min (insert n (bits b))" "unat (bm_last b) = Max (insert n (bits b))"
      unfolding ins using wf'(2) wf'(4,5) [OF ne] by (simp_all add: b_def)
    ultimately have "\<exists>b'. recache b n = Some b' \<and> bitmap_wf b' \<and> bits b' = bits b \<and> bm_nbits b' = bm_nbits b"
      using n wf'(1) by (intro recache_spec) simp_all
    then show ?thesis unfolding run b f(1) .
  qed
qed

section \<open>Ranges\<close>

lemma set_bit_beyond: "\<not> n < unat (bm_nbits bm) \<Longrightarrow> n < 2 ^ 32 \<Longrightarrow> bitmap_set_bit bm (int n) = Some bm"
  "\<not> n < unat (bm_nbits bm) \<Longrightarrow> n < 2 ^ 32 \<Longrightarrow> bitmap_clear_bit bm (int n) = Some bm"
  using below_nbits_nat [of n bm] by (simp_all add: bitmap_set_bit_def bitmap_clear_bit_def)

lemma for_range_spec:
  assumes step: "\<And>bm n. bitmap_wf bm \<Longrightarrow> n < 2 ^ 31 \<Longrightarrow>
      \<exists>bm'. f bm (int n) = Some bm' \<and> bitmap_wf bm' \<and> bits bm' = (if n < unat (bm_nbits bm) then g n (bits bm) else bits bm) \<and>
        bm_nbits bm' = bm_nbits bm"
    and "bitmap_wf bm" "k \<le> m" "m < 2 ^ 31"
  shows "\<exists>bm'. for_range f (int k) (int m - 1) bm = Some bm' \<and> bitmap_wf bm' \<and> bm_nbits bm' = bm_nbits bm \<and>
    bits bm' = fold g (filter (\<lambda>n. n < unat (bm_nbits bm)) [k..<m]) (bits bm)"
  using assms(2,3)
proof (induction "m - k" arbitrary: k bm)
  case 0
  then show ?case by (simp add: for_range.simps)
next
  case (Suc d)
  then have k: "k < m" by simp
  with assms(4) have "k < 2 ^ 31" by simp
  from step [OF Suc.prems(1) this] obtain bm1 where one: "f bm (int k) = Some bm1" "bitmap_wf bm1" "bm_nbits bm1 = bm_nbits bm"
    "bits bm1 = (if k < unat (bm_nbits bm) then g k (bits bm) else bits bm)" by blast
  have "d = m - Suc k" using Suc.hyps(2) by simp
  from Suc.hyps(1) [OF this one(2)] one(3) k obtain bm' where
    "for_range f (int (Suc k)) (int m - 1) bm1 = Some bm'" "bitmap_wf bm'" "bm_nbits bm' = bm_nbits bm"
    "bits bm' = fold g (filter (\<lambda>n. n < unat (bm_nbits bm)) [Suc k..<m]) (bits bm1)" by auto
  moreover have "inc (int k) = Some (int (Suc k))" using k assms(4) by (simp add: inc_def)
  moreover have "[k..<m] = k # [Suc k..<m]" using k by (rule upt_conv_Cons)
  ultimately show ?case using one(1,4) k by (subst for_range.simps) (auto simp del: of_nat_Suc)
qed

lemma fold_insert_range: "fold insert xs A = A \<union> set xs"
  by (induction xs arbitrary: A) auto

lemma fold_delete_range: "fold (\<lambda>n A. A - {n}) xs A = A - set xs"
  by (induction xs arbitrary: A) auto

lemma range_ops:
  assumes "bitmap_wf bm" "k \<le> m" "m < 2 ^ 31"
  shows "\<exists>bm'. for_range bitmap_set_bit (int k) (int m - 1) bm = Some bm' \<and> bitmap_wf bm' \<and> bm_nbits bm' = bm_nbits bm \<and>
      bits bm' = bits bm \<union> {n. k \<le> n \<and> n < m \<and> n < unat (bm_nbits bm)}"
    "\<exists>bm'. for_range bitmap_clear_bit (int k) (int m - 1) bm = Some bm' \<and> bitmap_wf bm' \<and> bm_nbits bm' = bm_nbits bm \<and>
      bits bm' = bits bm - {n. k \<le> n \<and> n < m}"
proof -
  have set: "set (filter (\<lambda>n. n < unat (bm_nbits bm)) [k..<m]) = {n. k \<le> n \<and> n < m \<and> n < unat (bm_nbits bm)}" by auto
  have "\<exists>bm'. for_range bitmap_set_bit (int k) (int m - 1) bm = Some bm' \<and> bitmap_wf bm' \<and> bm_nbits bm' = bm_nbits bm \<and>
    bits bm' = fold insert (filter (\<lambda>n. n < unat (bm_nbits bm)) [k..<m]) (bits bm)"
  proof (rule for_range_spec [OF _ assms])
    show "\<exists>bm'. bitmap_set_bit b (int n) = Some bm' \<and> bitmap_wf bm' \<and>
      bits bm' = (if n < unat (bm_nbits b) then insert n (bits b) else bits b) \<and> bm_nbits bm' = bm_nbits b"
      if "bitmap_wf b" "n < 2 ^ 31" for b n
      using set_bit_spec [OF that(1), of n] set_bit_beyond(1) [of n b] that by (cases "n < unat (bm_nbits b)") auto
  qed
  then show "\<exists>bm'. for_range bitmap_set_bit (int k) (int m - 1) bm = Some bm' \<and> bitmap_wf bm' \<and> bm_nbits bm' = bm_nbits bm \<and>
      bits bm' = bits bm \<union> {n. k \<le> n \<and> n < m \<and> n < unat (bm_nbits bm)}"
    unfolding fold_insert_range set .
  have "\<exists>bm'. for_range bitmap_clear_bit (int k) (int m - 1) bm = Some bm' \<and> bitmap_wf bm' \<and> bm_nbits bm' = bm_nbits bm \<and>
    bits bm' = fold (\<lambda>n A. A - {n}) (filter (\<lambda>n. n < unat (bm_nbits bm)) [k..<m]) (bits bm)"
  proof (rule for_range_spec [OF _ assms])
    show "\<exists>bm'. bitmap_clear_bit b (int n) = Some bm' \<and> bitmap_wf bm' \<and>
      bits bm' = (if n < unat (bm_nbits b) then bits b - {n} else bits b) \<and> bm_nbits bm' = bm_nbits b"
      if "bitmap_wf b" "n < 2 ^ 31" for b n
      using clear_bit_spec [OF that(1), of n] set_bit_beyond(2) [of n b] that by (cases "n < unat (bm_nbits b)") auto
  qed
  moreover have "bits bm - {n. k \<le> n \<and> n < m \<and> n < unat (bm_nbits bm)} = bits bm - {n. k \<le> n \<and> n < m}"
    by (auto simp: bits_def)
  ultimately show "\<exists>bm'. for_range bitmap_clear_bit (int k) (int m - 1) bm = Some bm' \<and> bitmap_wf bm' \<and> bm_nbits bm' = bm_nbits bm \<and>
      bits bm' = bits bm - {n. k \<le> n \<and> n < m}"
    unfolding fold_delete_range set by simp
qed

lemma sint_u32: "sint (w :: u32) = int (unat w)" if "unat w < 2 ^ 31"
proof -
  from that have "int (unat w) < int (2 ^ 31)" by (simp only: of_nat_less_iff)
  then have "uint w < 2 ^ 31" by simp
  moreover have "- (2 ^ 31) \<le> uint w" by (rule order_trans [OF _ uint_ge_0]) simp
  ultimately have "signed_take_bit 31 (uint w) = uint w" by (intro signed_take_bit_int_eq_self)
  then show ?thesis by (simp add: sint_uint)
qed

lemma clip_nat:
  assumes "bitmap_wf bm" "b < 2 ^ 31"
  shows "clip bm (int b) = int (if unat (bm_nbits bm) < b then unat (bm_nbits bm) else Suc b) - 1"
proof -
  note wf = bitmap_wfD [OF assms(1)]
  have u: "unat (word_of_int (int b) :: u32) = b" using assms(2) by (intro word_of_nat_u32) simp
  have "sint (bm_nbits bm - 1) = int (unat (bm_nbits bm)) - 1"
  proof (cases "bm_nbits bm = 0")
    case False
    then have "unat (bm_nbits bm - 1) = unat (bm_nbits bm) - 1" "unat (bm_nbits bm) \<noteq> 0"
      using unat_dec_u32 by (simp_all add: unat_eq_0)
    with sint_u32 [of "bm_nbits bm - 1"] wf(1) show ?thesis by simp
  qed simp
  with u show ?thesis by (simp add: clip_def word_less_nat_alt del: of_int_of_nat_eq)
qed

lemma clipped_ops:
  assumes wf: "bitmap_wf bm" and b: "b < 2 ^ 31 - 1"
  shows "\<exists>bm'. bitmap_set_range bm (int a) (int b) = Some bm' \<and> bitmap_wf bm' \<and> bm_nbits bm' = bm_nbits bm \<and>
      bits bm' = bits bm \<union> {n. a \<le> n \<and> n \<le> b \<and> n < unat (bm_nbits bm)}"
    "\<exists>bm'. bitmap_clear_range bm (int a) (int b) = Some bm' \<and> bitmap_wf bm' \<and> bm_nbits bm' = bm_nbits bm \<and>
      bits bm' = bits bm - {n. a \<le> n \<and> n \<le> b}"
proof -
  define m where "m = (if unat (bm_nbits bm) < b then unat (bm_nbits bm) else Suc b)"
  have clip: "clip bm (int b) = int m - 1" using clip_nat [OF wf, of b] b by (simp add: m_def)
  have m: "m < 2 ^ 31" using bitmap_wfD(1) [OF wf] b by (simp add: m_def)
  have A: "{n. a \<le> n \<and> n < m \<and> n < unat (bm_nbits bm)} = {n. a \<le> n \<and> n \<le> b \<and> n < unat (bm_nbits bm)}"
    "bits bm - {n. a \<le> n \<and> n < m} = bits bm - {n. a \<le> n \<and> n \<le> b}"
    by (auto simp: m_def bits_def)
  show "\<exists>bm'. bitmap_set_range bm (int a) (int b) = Some bm' \<and> bitmap_wf bm' \<and> bm_nbits bm' = bm_nbits bm \<and>
      bits bm' = bits bm \<union> {n. a \<le> n \<and> n \<le> b \<and> n < unat (bm_nbits bm)}"
  proof (cases "a \<le> m")
    case True
    from range_ops(1) [OF wf True m] show ?thesis unfolding bitmap_set_range_def clip A .
  next
    case False
    then have "{n. a \<le> n \<and> n \<le> b \<and> n < unat (bm_nbits bm)} = {}" unfolding A(1) [symmetric] by auto
    then have "bits bm = bits bm \<union> {n. a \<le> n \<and> n \<le> b \<and> n < unat (bm_nbits bm)}" by (simp only: Un_empty_right)
    moreover have "bitmap_set_range bm (int a) (int b) = Some bm" using False by (simp add: bitmap_set_range_def clip for_range.simps)
    ultimately show ?thesis using wf by (intro exI [of _ bm] conjI) (assumption | rule refl)+
  qed
  show "\<exists>bm'. bitmap_clear_range bm (int a) (int b) = Some bm' \<and> bitmap_wf bm' \<and> bm_nbits bm' = bm_nbits bm \<and>
      bits bm' = bits bm - {n. a \<le> n \<and> n \<le> b}"
  proof (cases "a \<le> m")
    case True
    from range_ops(2) [OF wf True m] show ?thesis unfolding bitmap_clear_range_def clip A .
  next
    case False
    then have "bits bm - {n. a \<le> n \<and> n < m} = bits bm" by auto
    with False A wf show ?thesis by (simp add: bitmap_clear_range_def clip for_range.simps)
  qed
qed

section \<open>Logical operations\<close>

lemma combine_spec:
  assumes "n \<le> length (bm_data dst)" "n \<le> length (bm_data src)"
  shows "\<exists>xs. combine f src n dst = Some (dst\<lparr>bm_data := xs\<rparr>) \<and> length xs = length (bm_data dst) \<and>
    (\<forall>i < length xs. xs ! i = (if i < n then f (bm_data dst ! i) (bm_data src ! i) else bm_data dst ! i))"
  using assms
proof (induction n)
  case 0
  show ?case by (rule exI [of _ "bm_data dst"]) simp
next
  case (Suc n)
  then obtain xs where xs: "combine f src n dst = Some (dst\<lparr>bm_data := xs\<rparr>)" "length xs = length (bm_data dst)"
    "\<forall>i < length xs. xs ! i = (if i < n then f (bm_data dst ! i) (bm_data src ! i) else bm_data dst ! i)" by auto
  with Suc.prems have "combine f src (Suc n) dst = Some (dst\<lparr>bm_data := xs[n := f (bm_data dst ! n) (bm_data src ! n)]\<rparr>)"
    by (simp add: read_data_def write_data_def)
  moreover have "xs[n := f (bm_data dst ! n) (bm_data src ! n)] ! i =
      (if i < Suc n then f (bm_data dst ! i) (bm_data src ! i) else bm_data dst ! i)" if "i < length xs" for i
    using xs(2,3) Suc.prems that by (simp add: nth_list_update less_Suc_eq)
  ultimately show ?case using xs(2) by (intro exI [of _ "xs[n := f (bm_data dst ! n) (bm_data src ! n)]"] conjI) simp_all
qed

lemma combine_bits:
  assumes wf: "bitmap_wf dst" "bitmap_wf src" and n: "bm_nbits src = bm_nbits dst"
    and f: "\<And>x y j. j < 32 \<Longrightarrow> bit (f x y) j = P (bit x j) (bit y j)"
  shows "\<exists>xs. combine f src (BITMAP_DATA_SIZE (bm_nbits dst)) dst = Some (dst\<lparr>bm_data := xs\<rparr>) \<and>
    bits (dst\<lparr>bm_data := xs\<rparr>) = {i. i < unat (bm_nbits dst) \<and> P (i \<in> bits dst) (i \<in> bits src)}"
proof -
  note len = bitmap_wfD(2) [OF wf(1)] bitmap_wfD(2) [OF wf(2)]
  from combine_spec [of "BITMAP_DATA_SIZE (bm_nbits dst)" dst src f] len n obtain xs where
    xs: "combine f src (BITMAP_DATA_SIZE (bm_nbits dst)) dst = Some (dst\<lparr>bm_data := xs\<rparr>)" "length xs = length (bm_data dst)"
    "\<forall>i < length xs. xs ! i = f (bm_data dst ! i) (bm_data src ! i)" by auto
  have "bit (xs ! (i div 32)) (i mod 32) = P (i \<in> bits dst) (i \<in> bits src)" if "i < unat (bm_nbits dst)" for i
    using xs(2,3) index_ok [OF that len(1)] n f that by (simp add: bits_def)
  then have "bits (dst\<lparr>bm_data := xs\<rparr>) = {i. i < unat (bm_nbits dst) \<and> P (i \<in> bits dst) (i \<in> bits src)}"
    by (auto simp: bits_def [of "dst\<lparr>bm_data := xs\<rparr>"])
  with xs show ?thesis by blast
qed

lemma first_last_spec:
  assumes "bitmap_wf bm"
  shows "bitmap_get_first bm = next_in (bits bm) 0 \<and> bitmap_get_last bm = prev_in (bits bm) (unat (bm_nbits bm))"
proof (cases "bits bm = {}")
  case True
  with bitmap_wfD(6) [OF assms] show ?thesis by (simp add: bitmap_get_first_def bitmap_get_last_def next_in_def prev_in_def)
next
  case False
  note wf = bitmap_wfD [OF assms]
  obtain mn mx where m: "Min (bits bm) = mn" "Max (bits bm) = mx" by blast
  have "mn \<in> bits bm" "mx \<in> bits bm" using False m Min_in Max_in finite_bits by metis+
  then have "mn < 2 ^ 31" "mx < 2 ^ 31" using wf(1) by (auto simp: bits_def)
  then have "sint (bm_first bm) = int mn" "sint (bm_last bm) = int mx"
    using wf(4,5) [OF False] m by (simp_all add: sint_u32)
  moreover have "{j \<in> bits bm. j < unat (bm_nbits bm)} = bits bm" by (auto simp: bits_def)
  ultimately show ?thesis using False wf(6) m by (simp add: bitmap_get_first_def bitmap_get_last_def next_in_def prev_in_def)
qed

lemma get_prev_spec:
  assumes "bitmap_wf bm" "n < 2 ^ 31"
  shows "bitmap_get_prev bm (int n) = Some (if n < unat (bm_nbits bm) then prev_in (bits bm) n else BITMAP_BIT_NONE)"
  using prev_from_spec [OF bitmap_wfD(2) [OF assms(1)], of n] below_nbits_nat [of n bm] assms(2)
  by (simp add: bitmap_get_prev_def)

lemma keep_range_spec:
  assumes wf: "bitmap_wf bm" and ab: "a \<le> b" "b < unat (bm_nbits bm)" "unat (bm_nbits bm) < 2 ^ 31 - 1"
  shows "\<exists>bm'. bitmap_keep_range bm (of_nat a) (of_nat b) = Some bm' \<and> bitmap_wf bm' \<and>
    bits bm' = {n \<in> bits bm. a \<le> n \<and> (n < b \<or> b = unat (bm_nbits bm) - 1)}"
proof -
  have u: "unat (of_nat a :: u32) = a" "unat (of_nat b :: u32) = b" using word_of_nat_u32 [of a] word_of_nat_u32 [of b] ab by simp_all
  have n0: "bm_nbits bm \<noteq> 0" using ab(2) by auto
  then have un: "unat (bm_nbits bm - 1) = unat (bm_nbits bm) - 1" by (rule unat_dec_u32)
  obtain b1 where b1: "(if (of_nat a :: u32) \<noteq> 0 then bitmap_clear_range bm 0 (sint (of_nat a - 1 :: u32)) else Some bm) = Some b1"
    "bitmap_wf b1" "bm_nbits b1 = bm_nbits bm" "bits b1 = bits bm - {n. n < a}"
  proof (cases "(of_nat a :: u32) = 0")
    case True
    then have "a = 0" using u(1) by (metis unat_0)
    with True wf that [of bm] show thesis by simp
  next
    case False
    then have "a \<noteq> 0" by (cases "a = 0") simp_all
    have small: "a - 1 < 2 ^ 31 - 1" using ab by simp
    have "unat (of_nat a - 1 :: u32) = a - 1" using unat_dec_u32 [OF False] u(1) by simp
    with ab sint_u32 [of "of_nat a - 1"] have s: "sint (of_nat a - 1 :: u32) = int (a - 1)" by simp
    have "{n. (0 :: nat) \<le> n \<and> n \<le> a - 1} = {n. n < a}" using \<open>a \<noteq> 0\<close> by auto
    moreover obtain b1 where "bitmap_clear_range bm (int 0) (int (a - 1)) = Some b1" "bitmap_wf b1" "bm_nbits b1 = bm_nbits bm"
      "bits b1 = bits bm - {n. 0 \<le> n \<and> n \<le> a - 1}"
      using clipped_ops(2) [OF wf small, of 0] by blast
    ultimately show thesis using False s by (intro that [of b1]) simp_all
  qed
  show ?thesis
  proof (cases "(of_nat b :: u32) = bm_nbits bm - 1")
    case True
    then have b: "b = unat (bm_nbits bm) - 1" using u(2) un by simp
    have "bitmap_keep_range bm (of_nat a) (of_nat b) = Some b1" using True b1(1,3) by (simp add: bitmap_keep_range_def)
    moreover have "bits b1 = {n \<in> bits bm. a \<le> n \<and> (n < b \<or> b = unat (bm_nbits bm) - 1)}" unfolding b1(4) using b by auto
    ultimately show ?thesis using b1(2) by blast
  next
    case False
    then have nb: "b \<noteq> unat (bm_nbits bm) - 1" using u(2) un by (metis word_unat_eq_iff)
    have s: "sint (of_nat b :: u32) = int b" "sint (bm_nbits b1) = int (unat (bm_nbits b1))"
      using sint_u32 [of "of_nat b"] sint_u32 [of "bm_nbits b1"] u(2) ab b1(3) by simp_all
    from clipped_ops(2) [OF b1(2), of "unat (bm_nbits b1)" b] ab(3) b1(3) obtain b2 where
      b2: "bitmap_clear_range b1 (int b) (int (unat (bm_nbits b1))) = Some b2" "bitmap_wf b2"
      "bits b2 = bits b1 - {n. b \<le> n \<and> n \<le> unat (bm_nbits b1)}" by auto
    have "bitmap_keep_range bm (of_nat a) (of_nat b) = Some b2"
      unfolding bitmap_keep_range_def b1(1) using False b1(3) b2(1) s by (simp del: of_nat_unat)
    moreover have "bits b2 = {n \<in> bits bm. a \<le> n \<and> (n < b \<or> b = unat (bm_nbits bm) - 1)}"
      unfolding b2(3) b1(3,4) using nb by (auto simp: bits_def)
    ultimately show ?thesis using b2(2) by blast
  qed
qed

text \<open>A bitmap of 40 bits with the members 3 and 35, all of whose elements are allocated.\<close>

definition example_bitmap :: bitmap where
  "example_bitmap = \<lparr>bm_nbits = 40, bm_weight = 2, bm_first = 3, bm_last = 35, bm_data = [8, 8]\<rparr>"

lemma bits_example [simp]: "bits example_bitmap = {3, 35}"
proof -
  have "bit (8 :: u32) (i mod 32) \<longleftrightarrow> i mod 32 = 3" for i :: nat using bit_exp_iff [where 'a = u32, of 3 "i mod 32"] by auto
  moreover have "[8, 8] ! (i div 32) = (8 :: u32)" if "i < 40" for i
    using that by (cases "i div 32") (auto simp: nth_Cons')
  ultimately have "bits example_bitmap = {i. i < 40 \<and> i mod 32 = 3}"
    by (auto simp: bits_def example_bitmap_def)
  also have "\<dots> = {3, 35}" by (auto, presburger)
  finally show ?thesis .
qed

lemma example_bitmap_wf [simp]: "bitmap_wf example_bitmap"
  by (simp add: bitmap_wf_def BITMAP_DATA_SIZE_def) (simp add: example_bitmap_def)

section \<open>Properties\<close>

text \<open>
  C24. On a well-formed bitmap, setting, clearing and testing a bit act on the set of its members, keep the bitmap
  well-formed (so the cached weight, first and last member stay right), and an index beyond the size changes nothing;
  the first, last, next and previous members that are reported are those of the set.
\<close>

theorem bitmap_bits_correct:
  assumes "bitmap_wf bm" "n < 2 ^ 31 - 1"
  shows "(\<exists>bm'. bitmap_set_bit bm (int n) = Some bm' \<and> bitmap_wf bm' \<and> bm_nbits bm' = bm_nbits bm \<and>
      bits bm' = (if n < unat (bm_nbits bm) then insert n (bits bm) else bits bm)) \<and>
    (\<exists>bm'. bitmap_clear_bit bm (int n) = Some bm' \<and> bitmap_wf bm' \<and> bm_nbits bm' = bm_nbits bm \<and> bits bm' = bits bm - {n}) \<and>
    bitmap_is_bit_set bm (int n) = Some (n \<in> bits bm) \<and> bitmap_is_bit_clear bm (int n) = Some (n \<notin> bits bm) \<and>
    bitmap_get_next bm (int n) = Some (next_in (bits bm) (Suc n)) \<and>
    bitmap_get_prev bm (int n) = Some (if n < unat (bm_nbits bm) then prev_in (bits bm) n else BITMAP_BIT_NONE) \<and>
    bitmap_get_first bm = next_in (bits bm) 0 \<and> bitmap_get_last bm = prev_in (bits bm) (unat (bm_nbits bm)) \<and>
    unat (bitmap_get_weight bm) = card (bits bm)"
proof -
  note wf = bitmap_wfD [OF assms(1)]
  have set: "\<exists>bm'. bitmap_set_bit bm (int n) = Some bm' \<and> bitmap_wf bm' \<and> bm_nbits bm' = bm_nbits bm \<and>
      bits bm' = (if n < unat (bm_nbits bm) then insert n (bits bm) else bits bm)"
    using set_bit_spec [OF assms(1), of n] set_bit_beyond(1) [of n bm] assms by auto
  have "\<exists>bm'. bitmap_clear_bit bm (int n) = Some bm' \<and> bitmap_wf bm' \<and> bm_nbits bm' = bm_nbits bm \<and> bits bm' = bits bm - {n}"
  proof (cases "n < unat (bm_nbits bm)")
    case False
    then have "bits bm = bits bm - {n}" by (auto simp: bits_def)
    with False assms set_bit_beyond(2) [of n bm] show ?thesis by auto
  qed (use clear_bit_spec [OF assms(1), of n] in blast)
  with set get_next_spec [OF assms(1), of n] get_prev_spec [OF assms(1), of n] first_last_spec [OF assms(1)]
    is_bit_set_spec [OF wf(2), of n] wf(3) assms(2)
  show ?thesis by (simp add: bitmap_is_bit_clear_def bitmap_get_weight_def)
qed

theorem bitmap_bits_correct_witness:
  "bitmap_is_bit_set example_bitmap (int 35) = Some True \<and> bitmap_get_next example_bitmap (int 35) = Some (-1)"
  using bitmap_bits_correct [of example_bitmap 35] by (simp add: next_in_def) force

text \<open>
  C25. Setting or clearing a range, both ends included, acts on exactly its members below the size and keeps the bitmap
  well-formed.  Keeping a range is documented to keep its last member too, but it clears that member unless it is the
  last bit of the bitmap.
\<close>

theorem bitmap_ranges_correct:
  assumes "bitmap_wf bm" "b < 2 ^ 31 - 1"
  shows "(\<exists>bm'. bitmap_set_range bm (int a) (int b) = Some bm' \<and> bitmap_wf bm' \<and>
      bits bm' = bits bm \<union> {n. a \<le> n \<and> n \<le> b \<and> n < unat (bm_nbits bm)}) \<and>
    (\<exists>bm'. bitmap_clear_range bm (int a) (int b) = Some bm' \<and> bitmap_wf bm' \<and> bits bm' = bits bm - {n. a \<le> n \<and> n \<le> b}) \<and>
    (a \<le> b \<and> b < unat (bm_nbits bm) \<and> unat (bm_nbits bm) < 2 ^ 31 - 1 \<longrightarrow>
      (\<exists>bm'. bitmap_keep_range bm (of_nat a) (of_nat b) = Some bm' \<and> bitmap_wf bm' \<and>
        bits bm' = {n \<in> bits bm. a \<le> n \<and> (n < b \<or> b = unat (bm_nbits bm) - 1)}))"
proof -
  have "a \<le> b \<and> b < unat (bm_nbits bm) \<and> unat (bm_nbits bm) < 2 ^ 31 - 1 \<longrightarrow>
      (\<exists>bm'. bitmap_keep_range bm (of_nat a) (of_nat b) = Some bm' \<and> bitmap_wf bm' \<and>
        bits bm' = {n \<in> bits bm. a \<le> n \<and> (n < b \<or> b = unat (bm_nbits bm) - 1)})"
    by (intro impI, elim conjE, rule keep_range_spec [OF assms(1)])
  moreover have "\<exists>bm'. bitmap_set_range bm (int a) (int b) = Some bm' \<and> bitmap_wf bm' \<and>
      bits bm' = bits bm \<union> {n. a \<le> n \<and> n \<le> b \<and> n < unat (bm_nbits bm)}"
    using clipped_ops(1) [OF assms, of a] by (elim ex_forward conjE) (intro conjI)
  moreover have "\<exists>bm'. bitmap_clear_range bm (int a) (int b) = Some bm' \<and> bitmap_wf bm' \<and> bits bm' = bits bm - {n. a \<le> n \<and> n \<le> b}"
    using clipped_ops(2) [OF assms, of a] by (elim ex_forward conjE) (intro conjI)
  ultimately show ?thesis by (intro conjI)
qed

theorem bitmap_ranges_correct_witness:
  "\<exists>bm'. bitmap_keep_range example_bitmap (of_nat 3) (of_nat 35) = Some bm' \<and> bits bm' = {3}"
proof -
  have "unat (bm_nbits example_bitmap) = 40" by (simp add: example_bitmap_def)
  moreover have "{n \<in> bits example_bitmap. 3 \<le> n \<and> n < 35} = {3}" by auto
  ultimately show ?thesis using bitmap_ranges_correct [of example_bitmap 35 3] by auto
qed

text \<open>
  C26. On well-formed bitmaps of one size, union and symmetric difference compute what they say, on the elements; the
  intersection computes the complement of the intersection, as the negated operation beside it does.  All four leave the
  cached weight, first and last member as they were.
\<close>

theorem bitmap_logic_correct:
  assumes "bitmap_wf dst" "bitmap_wf src" "bm_nbits src = bm_nbits dst"
  shows "(\<exists>xs. bitmap_and dst src = Some (dst\<lparr>bm_data := xs\<rparr>) \<and>
      bits (dst\<lparr>bm_data := xs\<rparr>) = {..<unat (bm_nbits dst)} - bits dst \<inter> bits src) \<and>
    (\<exists>xs. bitmap_nand dst src = Some (dst\<lparr>bm_data := xs\<rparr>) \<and>
      bits (dst\<lparr>bm_data := xs\<rparr>) = {..<unat (bm_nbits dst)} - bits dst \<inter> bits src) \<and>
    (\<exists>xs. bitmap_or dst src = Some (dst\<lparr>bm_data := xs\<rparr>) \<and> bits (dst\<lparr>bm_data := xs\<rparr>) = bits dst \<union> bits src) \<and>
    (\<exists>xs. bitmap_xor dst src = Some (dst\<lparr>bm_data := xs\<rparr>) \<and>
      bits (dst\<lparr>bm_data := xs\<rparr>) = (bits dst - bits src) \<union> (bits src - bits dst))"
proof -
  have S: "{i. i < unat (bm_nbits dst) \<and> \<not> (i \<in> bits dst \<and> i \<in> bits src)} = {..<unat (bm_nbits dst)} - bits dst \<inter> bits src"
    "{i. i < unat (bm_nbits dst) \<and> (i \<in> bits dst \<or> i \<in> bits src)} = bits dst \<union> bits src"
    "{i. i < unat (bm_nbits dst) \<and> (i \<in> bits dst) \<noteq> (i \<in> bits src)} = (bits dst - bits src) \<union> (bits src - bits dst)"
    using assms(3) by (auto simp: bits_def)
  have nand: "bit (NOT (x AND y)) j = (\<not> (bit x j \<and> bit y j))"
    and or: "bit (x OR y) j = (bit x j \<or> bit y j)" and xor: "bit (x XOR y) j = (bit x j \<noteq> bit y j)"
    if "j < 32" for x y :: u32 and j
    using that by (simp_all add: bit_simps)
  have "\<exists>xs. combine (\<lambda>x y. NOT (x AND y)) src (BITMAP_DATA_SIZE (bm_nbits dst)) dst = Some (dst\<lparr>bm_data := xs\<rparr>) \<and>
      bits (dst\<lparr>bm_data := xs\<rparr>) = {..<unat (bm_nbits dst)} - bits dst \<inter> bits src"
    using combine_bits [OF assms, of "\<lambda>x y. NOT (x AND y)" "\<lambda>p q. \<not> (p \<and> q)"] nand unfolding S by blast
  moreover have "\<exists>xs. combine (\<lambda>x y. x OR y) src (BITMAP_DATA_SIZE (bm_nbits dst)) dst = Some (dst\<lparr>bm_data := xs\<rparr>) \<and>
      bits (dst\<lparr>bm_data := xs\<rparr>) = bits dst \<union> bits src"
    using combine_bits [OF assms, of "\<lambda>x y. x OR y" "\<lambda>p q. p \<or> q"] or unfolding S by blast
  moreover have "\<exists>xs. combine (\<lambda>x y. x XOR y) src (BITMAP_DATA_SIZE (bm_nbits dst)) dst = Some (dst\<lparr>bm_data := xs\<rparr>) \<and>
      bits (dst\<lparr>bm_data := xs\<rparr>) = (bits dst - bits src) \<union> (bits src - bits dst)"
    using combine_bits [OF assms, of "\<lambda>x y. x XOR y" "\<lambda>p q. p \<noteq> q"] xor unfolding S by blast
  ultimately show ?thesis unfolding bitmap_and_def bitmap_nand_def bitmap_or_def bitmap_xor_def by (intro conjI)
qed

theorem bitmap_logic_correct_witness:
  "\<exists>bm'. bitmap_and example_bitmap example_bitmap = Some bm' \<and> 3 \<notin> bits bm' \<and> 4 \<in> bits bm' \<and> bm_weight bm' = 2"
proof -
  have "unat (bm_nbits example_bitmap) = 40" "bm_weight example_bitmap = 2" by (simp_all add: example_bitmap_def)
  moreover obtain xs where "bitmap_and example_bitmap example_bitmap = Some (example_bitmap\<lparr>bm_data := xs\<rparr>)"
    "bits (example_bitmap\<lparr>bm_data := xs\<rparr>) = {..<unat (bm_nbits example_bitmap)} - bits example_bitmap \<inter> bits example_bitmap"
    using bitmap_logic_correct [OF example_bitmap_wf example_bitmap_wf refl] by (elim conjE exE) assumption
  ultimately show ?thesis by auto
qed

text \<open>
  C27. The memory that is allocated for a bitmap does not hold its elements: accessing the last bit of a fresh bitmap is
  an access outside the allocation, whatever the size.
\<close>

theorem bitmap_alloc_too_small:
  assumes "bitmap_alloc True nbits = Some bm" "nbits \<noteq> 0"
  shows "bitmap_set_bit bm (int (unat nbits - 1)) = None \<and> bitmap_is_bit_set bm (int (unat nbits - 1)) = None"
proof -
  have n: "unat nbits \<noteq> 0" using assms(2) by (simp add: unat_eq_0)
  have small: "unat nbits - 1 < 2 ^ 32" using unat_lt_u32 [of nbits] by simp
  have bm: "bm_nbits bm = nbits" "length (bm_data bm) = (unat nbits + 31) div 32 div 4"
    using assms(1) by (auto simp: bitmap_alloc_def BITMAP_DATA_SIZE_def)
  have "below_nbits bm (int (unat nbits - 1))" using below_nbits_nat [OF small, of bm] bm(1) n by simp
  moreover have "(unat nbits + 31) div 32 = Suc ((unat nbits - 1) div 32)" using n div_add_self2 [of 32 "unat nbits - 1"] by simp
  then have "\<not> (unat nbits - 1) div 32 < length (bm_data bm)" unfolding bm(2) by simp
  moreover have "elem (int (unat nbits - 1)) = (unat nbits - 1) div 32" using small by (intro elem_nat) simp
  ultimately show ?thesis by (simp add: bitmap_set_bit_def bitmap_is_bit_set_def read_data_def)
qed

theorem bitmap_alloc_too_small_witness: "\<exists>bm. bitmap_alloc True 1 = Some bm \<and> bitmap_set_bit bm 0 = None"
  using bitmap_alloc_too_small [of 1 "the (bitmap_alloc True 1)"] by (simp add: bitmap_alloc_def)

end
