(* ===== verification/Spec2Isabelle.thy ===== *)
theory Spec2Isabelle
  imports Sched_RR RBED_Admission Kcb Cap_Delete Bitmap
begin

text \<open>
  Verification of core data structures of the Barrelfish operating system.
\<close>

end
